(* ===== verification/Kprelude.thy ===== *)
theory Kprelude
  imports Main "HOL-Library.Word" "HOL-Library.Monad_Syntax"
begin

text \<open>
  What every component of the kernel model shares: names for the C integer
  types, checked access to arrays, the linear search that almost every table
  of the kernel is scanned with, and lemmas that carry word arithmetic over to
  natural numbers.

  A C function that can touch memory outside an object, divide by zero,
  dereference a null pointer or call \<^verbatim>\<open>panic\<close>, which stops the machine,
  returns an option: \<^term>\<open>None\<close> says that the call does not return.  Error
  codes the source returns are ordinary values.
\<close>

unbundle bit_operations_syntax

type_synonym u8 = "8 word"
type_synonym u16 = "16 word"
type_synonym u32 = "32 word"
type_synonym u64 = "64 word"

named_theorems checked \<open>facts about checked array access\<close>
named_theorems scan \<open>facts about linear searches\<close>

text \<open>The error codes of \<^verbatim>\<open>src/core/errorno.h\<close>; a function returns their negation.\<close>

abbreviation (input) EPERM :: "'a::numeral" where "EPERM \<equiv> 1"
abbreviation (input) ENOENT :: "'a::numeral" where "ENOENT \<equiv> 2"
abbreviation (input) ESRCH :: "'a::numeral" where "ESRCH \<equiv> 3"
abbreviation (input) EIO :: "'a::numeral" where "EIO \<equiv> 5"
abbreviation (input) EBADF :: "'a::numeral" where "EBADF \<equiv> 9"
abbreviation (input) ECHILD :: "'a::numeral" where "ECHILD \<equiv> 10"
abbreviation (input) EAGAIN :: "'a::numeral" where "EAGAIN \<equiv> 11"
abbreviation (input) EACCES :: "'a::numeral" where "EACCES \<equiv> 13"
abbreviation (input) EFAULT :: "'a::numeral" where "EFAULT \<equiv> 14"
abbreviation (input) EEXIST :: "'a::numeral" where "EEXIST \<equiv> 17"
abbreviation (input) ENODEV :: "'a::numeral" where "ENODEV \<equiv> 19"
abbreviation (input) ENOTDIR :: "'a::numeral" where "ENOTDIR \<equiv> 20"
abbreviation (input) EISDIR :: "'a::numeral" where "EISDIR \<equiv> 21"
abbreviation (input) EINVAL :: "'a::numeral" where "EINVAL \<equiv> 22"
abbreviation (input) ENOTTY :: "'a::numeral" where "ENOTTY \<equiv> 25"
abbreviation (input) ENOTSOCK :: "'a::numeral" where "ENOTSOCK \<equiv> 88"
abbreviation (input) EPROTONOSUPPORT :: "'a::numeral" where "EPROTONOSUPPORT \<equiv> 93"
abbreviation (input) ESOCKTNOSUPPORT :: "'a::numeral" where "ESOCKTNOSUPPORT \<equiv> 94"
abbreviation (input) EOPNOTSUPP :: "'a::numeral" where "EOPNOTSUPP \<equiv> 95"
abbreviation (input) EAFNOSUPPORT :: "'a::numeral" where "EAFNOSUPPORT \<equiv> 97"
abbreviation (input) EADDRINUSE :: "'a::numeral" where "EADDRINUSE \<equiv> 98"
abbreviation (input) ENETUNREACH :: "'a::numeral" where "ENETUNREACH \<equiv> 101"
abbreviation (input) ECONNRESET :: "'a::numeral" where "ECONNRESET \<equiv> 104"
abbreviation (input) ENOBUFS :: "'a::numeral" where "ENOBUFS \<equiv> 105"
abbreviation (input) EISCONN :: "'a::numeral" where "EISCONN \<equiv> 106"
abbreviation (input) ENOTCONN :: "'a::numeral" where "ENOTCONN \<equiv> 107"
abbreviation (input) ETIMEDOUT :: "'a::numeral" where "ETIMEDOUT \<equiv> 110"
abbreviation (input) ECONNREFUSED :: "'a::numeral" where "ECONNREFUSED \<equiv> 111"
abbreviation (input) EINPROGRESS :: "'a::numeral" where "EINPROGRESS \<equiv> 115"
abbreviation (input) ENOEXEC :: "'a::numeral" where "ENOEXEC \<equiv> 114"

section \<open>Checked array access\<close>

definition nth_opt :: "'a list \<Rightarrow> nat \<Rightarrow> 'a option" where
  "nth_opt xs i = (if i < length xs then Some (xs ! i) else None)"

definition upd_opt :: "'a list \<Rightarrow> nat \<Rightarrow> 'a \<Rightarrow> 'a list option" where
  "upd_opt xs i x = (if i < length xs then Some (xs[i := x]) else None)"

definition slice :: "nat \<Rightarrow> nat \<Rightarrow> 'a list \<Rightarrow> 'a list" where
  "slice off n xs = take n (drop off xs)"

definition put_slice :: "nat \<Rightarrow> 'a list \<Rightarrow> 'a list \<Rightarrow> 'a list" where
  "put_slice off ys xs = take off xs @ ys @ drop (off + length ys) xs"

text \<open>
  The first index at or after \<open>i\<close>, among the next \<open>k\<close> ones, that satisfies
  the test: the loop \<^verbatim>\<open>for (; i < stop; i++) if (P(i)) return i;\<close>.
\<close>

fun first_from :: "nat \<Rightarrow> nat \<Rightarrow> (nat \<Rightarrow> bool) \<Rightarrow> nat option" where
  "first_from 0 i P = None"
| "first_from (Suc k) i P = (if P i then Some i else first_from k (Suc i) P)"

lemma nth_opt_Some [checked]: "i < length xs \<Longrightarrow> nth_opt xs i = Some (xs ! i)"
  by (simp add: nth_opt_def)

lemma nth_opt_eq_Some [checked]: "nth_opt xs i = Some x \<longleftrightarrow> i < length xs \<and> xs ! i = x"
  by (simp add: nth_opt_def)

lemma nth_opt_eq_None [checked]: "nth_opt xs i = None \<longleftrightarrow> length xs \<le> i"
  by (simp add: nth_opt_def)

lemma upd_opt_Some [checked]: "i < length xs \<Longrightarrow> upd_opt xs i x = Some (xs[i := x])"
  by (simp add: upd_opt_def)

lemma upd_opt_eq_Some [checked]:
  "upd_opt xs i x = Some ys \<longleftrightarrow> i < length xs \<and> ys = xs[i := x]"
  by (auto simp: upd_opt_def)

lemma length_slice [simp]: "length (slice off n xs) = min n (length xs - off)"
  by (simp add: slice_def)

lemma length_put_slice [simp]:
  "off + length ys \<le> length xs \<Longrightarrow> length (put_slice off ys xs) = length xs"
  by (simp add: put_slice_def)

lemma nth_put_slice:
  assumes "off + length ys \<le> length xs" "i < length xs"
  shows "put_slice off ys xs ! i = (if off \<le> i \<and> i < off + length ys then ys ! (i - off) else xs ! i)"
  using assms by (auto simp: put_slice_def nth_append min_def)

lemma slice_put_slice_same [simp]:
  "off + length ys \<le> length xs \<Longrightarrow> slice off (length ys) (put_slice off ys xs) = ys"
  by (simp add: slice_def put_slice_def)

lemma slice_put_slice_other:
  assumes "off + length ys \<le> length xs" "o2 + n \<le> length xs" "o2 + n \<le> off \<or> off + length ys \<le> o2"
  shows "slice o2 n (put_slice off ys xs) = slice o2 n xs"
  using assms
  by (intro nth_equalityI) (auto simp: slice_def nth_put_slice nth_append split: if_splits)

section \<open>Linear search\<close>

lemma first_from_SomeD [scan]:
  "first_from k i P = Some j \<Longrightarrow> i \<le> j \<and> j < i + k \<and> P j \<and> (\<forall>m. i \<le> m \<and> m < j \<longrightarrow> \<not> P m)"
  by (induction k i P rule: first_from.induct)
    (auto split: if_splits simp: less_Suc_eq_le Suc_le_eq dest: le_neq_implies_less)

lemma first_from_None [scan]:
  "first_from k i P = None \<longleftrightarrow> (\<forall>j. i \<le> j \<and> j < i + k \<longrightarrow> \<not> P j)"
proof (induction k i P rule: first_from.induct)
  case (2 k i P)
  have "(\<forall>j. i \<le> j \<and> j < i + Suc k \<longrightarrow> \<not> P j) \<longleftrightarrow>
        \<not> P i \<and> (\<forall>j. Suc i \<le> j \<and> j < Suc i + k \<longrightarrow> \<not> P j)"
    by (auto simp: Suc_le_eq) (metis le_neq_implies_less)
  then show ?case using 2 by auto
qed auto

lemma first_from_eq_Some [scan]:
  "first_from k i P = Some j \<longleftrightarrow> i \<le> j \<and> j < i + k \<and> P j \<and> (\<forall>m. i \<le> m \<and> m < j \<longrightarrow> \<not> P m)"
proof
  assume R: "i \<le> j \<and> j < i + k \<and> P j \<and> (\<forall>m. i \<le> m \<and> m < j \<longrightarrow> \<not> P m)"
  then have "first_from k i P \<noteq> None" by (auto simp: first_from_None)
  then obtain j' where j': "first_from k i P = Some j'" by blast
  from first_from_SomeD [OF j'] R have "j' = j" by (meson nat_neq_iff)
  with j' show "first_from k i P = Some j" by simp
qed (rule first_from_SomeD)

lemma first_from_cong [fundef_cong]:
  "\<lbrakk>k = k'; i = i'; \<And>j. i' \<le> j \<Longrightarrow> P j = P' j\<rbrakk> \<Longrightarrow> first_from k i P = first_from k' i' P'"
proof (induction k i P arbitrary: k' i' rule: first_from.induct)
  case (2 k i P)
  then show ?case by (cases k') auto
qed auto

section \<open>Word arithmetic\<close>

lemma unat_bound: "unat (w :: 'a :: len word) < 2 ^ LENGTH('a)"
  by (rule unsigned_less)

lemma unat_of_nat_lt: "n < 2 ^ LENGTH('a) \<Longrightarrow> unat (of_nat n :: 'a :: len word) = n"
  by (simp add: unat_of_nat take_bit_nat_eq_self)

lemma unat_Suc_lt:
  fixes w :: "'a :: len word"
  shows "Suc (unat w) < 2 ^ LENGTH('a) \<Longrightarrow> unat (w + 1) = Suc (unat w)"
  by (simp add: unat_word_ariths)

lemma unat_Suc_mod:
  fixes t s :: "'a :: len word"
  assumes "t < s"
  shows "unat ((t + 1) mod s) = Suc (unat t) mod unat s"
proof -
  have "unat t < unat s" using assms by (simp add: word_less_nat_alt)
  then have "Suc (unat t) < 2 ^ LENGTH('a)" using unat_bound [of s] by linarith
  then have "unat (t + 1) = Suc (unat t)" by (rule unat_Suc_lt)
  then show ?thesis by (simp add: unat_mod)
qed

end
