(* ===== verification/Memlib.thy ===== *)
theory Memlib
  imports Kprelude
begin

text \<open>
  The memory library \<^verbatim>\<open>src/libs/mem/mem.h\<close>: byte copies, fills and comparisons
  on the flat address space, the ring buffers every device, terminal and socket
  of the kernel queues its data in, and the network byte order.

  The address space is a function from 64-bit addresses to bytes, so overlapping
  operands and address wrap-around behave as on the machine.  The ring buffers
  work on an array that is a list; the two indices and the size stay 64-bit words.
\<close>

type_synonym memory = "u64 \<Rightarrow> u8"

section \<open>Byte operations on the address space\<close>

fun memcmp_from :: "nat \<Rightarrow> u64 \<Rightarrow> memory \<Rightarrow> u64 \<Rightarrow> u64 \<Rightarrow> int" where
  "memcmp_from 0 i m p1 p2 = 0"
| "memcmp_from (Suc k) i m p1 p2 =
     (if m (p1 + i) \<noteq> m (p2 + i) then uint (m (p1 + i)) - uint (m (p2 + i))
      else memcmp_from k (i + 1) m p1 p2)"

definition memcmp :: "memory \<Rightarrow> u64 \<Rightarrow> u64 \<Rightarrow> u64 \<Rightarrow> int" where
  "memcmp m s1 s2 n = memcmp_from (unat n) 0 m s1 s2"

fun memcpy_from :: "nat \<Rightarrow> u64 \<Rightarrow> memory \<Rightarrow> u64 \<Rightarrow> u64 \<Rightarrow> memory" where
  "memcpy_from 0 i m dest src = m"
| "memcpy_from (Suc k) i m dest src =
     memcpy_from k (i + 1) (m(dest + i := m (src + i))) dest src"

definition memcpy :: "memory \<Rightarrow> u64 \<Rightarrow> u64 \<Rightarrow> u64 \<Rightarrow> memory" where
  "memcpy m dest src sz = memcpy_from (unat sz) 0 m dest src"

definition memcpy1 :: "memory \<Rightarrow> u64 \<Rightarrow> u64 \<Rightarrow> u64 \<Rightarrow> memory" where
  "memcpy1 m dest_addr src_addr sz = memcpy m dest_addr src_addr sz"

fun memset_from :: "nat \<Rightarrow> memory \<Rightarrow> u64 \<Rightarrow> int \<Rightarrow> memory" where
  "memset_from 0 m p c = m"
| "memset_from (Suc n) m p c = memset_from n (m(p := word_of_int c)) (p + 1) c"

definition memset :: "memory \<Rightarrow> u64 \<Rightarrow> int \<Rightarrow> u64 \<Rightarrow> memory" where
  "memset m s c n = memset_from (unat n) m s c"

fun erase_mem8_from :: "nat \<Rightarrow> u64 \<Rightarrow> memory \<Rightarrow> u64 \<Rightarrow> memory" where
  "erase_mem8_from 0 i m map_addr = m"
| "erase_mem8_from (Suc k) i m map_addr = erase_mem8_from k (i + 1) (m(map_addr + i := 0)) map_addr"

definition erase_mem8 :: "memory \<Rightarrow> u64 \<Rightarrow> u64 \<Rightarrow> memory" where
  "erase_mem8 m map_addr len = erase_mem8_from (unat len) 0 m map_addr"

text \<open>A 64-bit store: eight bytes, the least significant one first.\<close>

fun store_le :: "nat \<Rightarrow> memory \<Rightarrow> u64 \<Rightarrow> u64 \<Rightarrow> memory" where
  "store_le 0 m a v = m"
| "store_le (Suc k) m a v = store_le k (m(a := ucast v)) (a + 1) (drop_bit 8 v)"

definition store64 :: "memory \<Rightarrow> u64 \<Rightarrow> u64 \<Rightarrow> memory" where
  "store64 m a v = store_le 8 m a v"

fun erase_mem64_from :: "nat \<Rightarrow> u64 \<Rightarrow> memory \<Rightarrow> u64 \<Rightarrow> memory" where
  "erase_mem64_from 0 i m map_addr = m"
| "erase_mem64_from (Suc k) i m map_addr =
     erase_mem64_from k (i + 1) (store64 m (map_addr + 8 * i) 0) map_addr"

definition erase_mem64 :: "memory \<Rightarrow> u64 \<Rightarrow> u64 \<Rightarrow> memory" where
  "erase_mem64 m map_addr len = erase_mem64_from (unat len) 0 m map_addr"

section \<open>Network byte order\<close>

definition htons :: "u16 \<Rightarrow> u16" where
  "htons x = push_bit 8 x OR drop_bit 8 x"

definition htonl :: "u32 \<Rightarrow> u32" where
  "htonl x = push_bit 24 (x AND 0x000000FF) OR push_bit 8 (x AND 0x0000FF00)
     OR drop_bit 8 (x AND 0x00FF0000) OR drop_bit 24 (x AND 0xFF000000)"

definition ntohs :: "u16 \<Rightarrow> u16" where
  "ntohs x = htons x"

definition ntohl :: "u32 \<Rightarrow> u32" where
  "ntohl x = htonl x"

section \<open>Words in byte arrays\<close>

text \<open>Words are stored with the low byte first.\<close>

definition le16 :: "u16 \<Rightarrow> u8 list" where
  "le16 w = [ucast w, ucast (drop_bit 8 w)]"

definition le32 :: "u32 \<Rightarrow> u8 list" where
  "le32 w = [ucast w, ucast (drop_bit 8 w), ucast (drop_bit 16 w), ucast (drop_bit 24 w)]"

definition read16 :: "u8 list \<Rightarrow> nat \<Rightarrow> u16 option" where
  "read16 buf i = do { a \<leftarrow> nth_opt buf i; b \<leftarrow> nth_opt buf (i + 1); Some (ucast a OR push_bit 8 (ucast b)) }"

definition read32 :: "u8 list \<Rightarrow> nat \<Rightarrow> u32 option" where
  "read32 buf i = do { a \<leftarrow> read16 buf i; b \<leftarrow> read16 buf (i + 2); Some (ucast a OR push_bit 16 (ucast b)) }"

definition read_bytes :: "u8 list \<Rightarrow> nat \<Rightarrow> nat \<Rightarrow> u8 list option" where
  "read_bytes buf i k = (if i + k \<le> length buf then Some (slice i k buf) else None)"

section \<open>Ring buffers\<close>

text \<open>
  \<^verbatim>\<open>fifo_read8\<close> and \<^verbatim>\<open>fifo_write8\<close>: \<open>k\<close> counts the loop iterations left,
  \<open>i\<close> is the loop variable.  The result of a read is the new tail, the output
  array and the number of units; that of a write the new array, the new head and
  the number of units.
\<close>

fun fifo_read_loop :: "nat \<Rightarrow> nat \<Rightarrow> 'a list \<Rightarrow> u64 \<Rightarrow> u64 \<Rightarrow> u64 \<Rightarrow> 'a list \<Rightarrow> u64 \<Rightarrow> (u64 \<times> 'a list \<times> u64) option" where
  "fifo_read_loop 0 i buf tail head buf_size out out_size = Some (tail, out, out_size)"
| "fifo_read_loop (Suc k) i buf tail head buf_size out out_size =
     (if tail = head then Some (tail, out, out_size)
      else do {
        x \<leftarrow> nth_opt buf (unat tail);
        out' \<leftarrow> upd_opt out i x;
        if buf_size = 0 then None
        else fifo_read_loop k (Suc i) buf ((tail + 1) mod buf_size) head buf_size out' (out_size + 1)
      })"

fun fifo_write_loop :: "nat \<Rightarrow> nat \<Rightarrow> 'a list \<Rightarrow> u64 \<Rightarrow> u64 \<Rightarrow> u64 \<Rightarrow> 'a list \<Rightarrow> u64 \<Rightarrow> ('a list \<times> u64 \<times> u64) option" where
  "fifo_write_loop 0 i buf tail head buf_size inp in_size = Some (buf, head, in_size)"
| "fifo_write_loop (Suc k) i buf tail head buf_size inp in_size =
     (if buf_size = 0 then None
      else if tail = (head + 1) mod buf_size then Some (buf, head, in_size)
      else do {
        x \<leftarrow> nth_opt inp i;
        buf' \<leftarrow> upd_opt buf (unat head) x;
        fifo_write_loop k (Suc i) buf' tail ((head + 1) mod buf_size) buf_size inp (in_size + 1)
      })"

definition fifo_read8 :: "u8 list \<Rightarrow> u64 \<Rightarrow> u64 \<Rightarrow> u64 \<Rightarrow> u64 \<Rightarrow> u8 list \<Rightarrow> (u64 \<times> u8 list \<times> u64) option" where
  "fifo_read8 buf tail head buf_size len out = fifo_read_loop (unat len) 0 buf tail head buf_size out 0"

definition fifo_write8 :: "u8 list \<Rightarrow> u64 \<Rightarrow> u64 \<Rightarrow> u64 \<Rightarrow> u64 \<Rightarrow> u8 list \<Rightarrow> (u8 list \<times> u64 \<times> u64) option" where
  "fifo_write8 buf tail head buf_size len inp = fifo_write_loop (unat len) 0 buf tail head buf_size inp 0"

definition fifo_read16 :: "u16 list \<Rightarrow> u64 \<Rightarrow> u64 \<Rightarrow> u64 \<Rightarrow> u64 \<Rightarrow> u16 list \<Rightarrow> (u64 \<times> u16 list \<times> u64) option" where
  "fifo_read16 buf tail head buf_size len out = fifo_read_loop (unat len) 0 buf tail head buf_size out 0"

definition fifo_write16 :: "u16 list \<Rightarrow> u64 \<Rightarrow> u64 \<Rightarrow> u64 \<Rightarrow> u64 \<Rightarrow> u16 list \<Rightarrow> (u16 list \<times> u64 \<times> u64) option" where
  "fifo_write16 buf tail head buf_size len inp = fifo_write_loop (unat len) 0 buf tail head buf_size inp 0"

text \<open>A copy of \<open>n\<close> bytes between two arrays, checked at both ends.\<close>

definition copy_bytes :: "'a list \<Rightarrow> nat \<Rightarrow> 'a list \<Rightarrow> nat \<Rightarrow> nat \<Rightarrow> 'a list option" where
  "copy_bytes dest doff src soff n =
     (if n = 0 \<or> doff + n \<le> length dest \<and> soff + n \<le> length src
      then Some (put_slice doff (slice soff n src) dest) else None)"

fun fifo_read_units :: "nat \<Rightarrow> nat \<Rightarrow> u8 list \<Rightarrow> u64 \<Rightarrow> u64 \<Rightarrow> u64 \<Rightarrow> u8 list \<Rightarrow> nat \<Rightarrow> u64 \<Rightarrow> (u64 \<times> u8 list \<times> u64) option" where
  "fifo_read_units 0 i buf tail head units out u n = Some (tail, out, n)"
| "fifo_read_units (Suc k) i buf tail head units out u n =
     (if tail = head then Some (tail, out, n)
      else do {
        out' \<leftarrow> copy_bytes out (i * u) buf (unat tail * u) u;
        if units = 0 then None
        else fifo_read_units k (Suc i) buf ((tail + 1) mod units) head units out' u (n + 1)
      })"

fun fifo_write_units :: "nat \<Rightarrow> nat \<Rightarrow> u8 list \<Rightarrow> u64 \<Rightarrow> u64 \<Rightarrow> u64 \<Rightarrow> u8 list \<Rightarrow> nat \<Rightarrow> u64 \<Rightarrow> (u8 list \<times> u64 \<times> u64) option" where
  "fifo_write_units 0 i buf tail head units inp u n = Some (buf, head, n)"
| "fifo_write_units (Suc k) i buf tail head units inp u n =
     (if units = 0 then None
      else if (head + 1) mod units = tail then Some (buf, head, n)
      else do {
        buf' \<leftarrow> copy_bytes buf (unat head * u) inp (i * u) u;
        fifo_write_units k (Suc i) buf' tail ((head + 1) mod units) units inp u (n + 1)
      })"

definition fifo_read24 :: "u8 list \<Rightarrow> u64 \<Rightarrow> u64 \<Rightarrow> u64 \<Rightarrow> u64 \<Rightarrow> u8 list \<Rightarrow> (u64 \<times> u8 list \<times> u64) option" where
  "fifo_read24 buf tail head buf_size len out = fifo_read_units (unat len) 0 buf tail head buf_size out 3 0"

definition fifo_write24 :: "u8 list \<Rightarrow> u64 \<Rightarrow> u64 \<Rightarrow> u64 \<Rightarrow> u64 \<Rightarrow> u8 list \<Rightarrow> (u8 list \<times> u64 \<times> u64) option" where
  "fifo_write24 buf tail head buf_size len inp = fifo_write_units (unat len) 0 buf tail head buf_size inp 3 0"

definition fifo_read_with_size :: "u8 list \<Rightarrow> u64 \<Rightarrow> u64 \<Rightarrow> u64 \<Rightarrow> u64 \<Rightarrow> u8 list \<Rightarrow> u8 \<Rightarrow> (u64 \<times> u8 list \<times> u64) option" where
  "fifo_read_with_size buf tail head buf_units_count copy_units_count out unit_bytes_size =
     fifo_read_units (unat copy_units_count) 0 buf tail head buf_units_count out (unat unit_bytes_size) 0"

definition fifo_write_with_size :: "u8 list \<Rightarrow> u64 \<Rightarrow> u64 \<Rightarrow> u64 \<Rightarrow> u64 \<Rightarrow> u8 list \<Rightarrow> u8 \<Rightarrow> (u8 list \<times> u64 \<times> u64) option" where
  "fifo_write_with_size buf tail head buf_units_count copy_units_count inp unit_bytes_size =
     fifo_write_units (unat copy_units_count) 0 buf tail head buf_units_count inp (unat unit_bytes_size) 0"

section \<open>The ring as a list\<close>

definition ring_count :: "nat \<Rightarrow> nat \<Rightarrow> nat \<Rightarrow> nat" where
  "ring_count t h s = (h + s - t) mod s"

definition ring_list :: "'a list \<Rightarrow> nat \<Rightarrow> nat \<Rightarrow> nat \<Rightarrow> 'a list" where
  "ring_list buf t h s = map (\<lambda>j. buf ! ((t + j) mod s)) [0..<ring_count t h s]"

definition ring_ok :: "'a list \<Rightarrow> u64 \<Rightarrow> u64 \<Rightarrow> u64 \<Rightarrow> bool" where
  "ring_ok buf tail head sz \<longleftrightarrow> tail < sz \<and> head < sz \<and> unat sz \<le> length buf"

lemma ring_count_le: "0 < s \<Longrightarrow> ring_count t h s \<le> s - 1"
  unfolding ring_count_def using mod_less_divisor [of s "h + s - t"] by linarith

lemma length_ring_list [simp]: "length (ring_list buf t h s) = ring_count t h s"
  by (simp add: ring_list_def)

lemma ring_count_empty [simp]: "t < s \<Longrightarrow> ring_count t t s = 0"
  by (simp add: ring_count_def)

lemma mod_Suc_cases: "t < s \<Longrightarrow> Suc t mod s = (if Suc t = s then 0 else Suc t)"
  by auto

lemma ring_count_cases:
  "\<lbrakk>t < s; h < s\<rbrakk> \<Longrightarrow> ring_count t h s = (if t \<le> h then h - t else h + s - t)"
  by (auto simp: ring_count_def mod_if)

lemma ring_count_get:
  "\<lbrakk>t < s; h < s; t \<noteq> h\<rbrakk> \<Longrightarrow> ring_count t h s = Suc (ring_count (Suc t mod s) h s)"
  by (auto simp: ring_count_cases mod_Suc_cases)

lemma ring_count_put:
  "\<lbrakk>t < s; h < s; t \<noteq> Suc h mod s\<rbrakk> \<Longrightarrow> ring_count t (Suc h mod s) s = Suc (ring_count t h s)"
  by (auto simp: ring_count_cases mod_Suc_cases split: if_splits)

lemma ring_count_full: "\<lbrakk>t < s; h < s; t = Suc h mod s\<rbrakk> \<Longrightarrow> ring_count t h s = s - 1"
  by (auto simp: ring_count_cases mod_Suc_cases)

lemma ring_list_empty [simp]: "t < s \<Longrightarrow> ring_list buf t t s = []"
  by (simp add: ring_list_def)

lemma ring_list_get:
  assumes "t < s" "h < s" "t \<noteq> h"
  shows "ring_list buf t h s = buf ! t # ring_list buf (Suc t mod s) h s"
proof -
  have "(Suc t mod s + j) mod s = (t + Suc j) mod s" for j by (simp add: mod_simps)
  then have "map (\<lambda>j. buf ! ((t + j) mod s)) [0..<Suc n] =
      buf ! t # map (\<lambda>j. buf ! ((Suc t mod s + j) mod s)) [0..<n]" for n
    using assms(1) by (simp add: upt_conv_Cons map_Suc_upt [symmetric] del: upt_Suc)
  then show ?thesis unfolding ring_list_def by (subst ring_count_get [OF assms])
qed

lemma ring_slot_ne_head:
  assumes "t < s" "h < s" "j < ring_count t h s"
  shows "h \<noteq> (t + j) mod s"
proof (cases "t + j < s")
  case True
  then show ?thesis using assms by (auto simp: ring_count_cases split: if_splits)
next
  case False
  then have "(t + j) mod s = t + j - s"
    using assms by (simp add: ring_count_cases le_mod_geq split: if_splits)
  then show ?thesis using assms False by (auto simp: ring_count_cases split: if_splits)
qed

lemma ring_list_put:
  assumes "t < s" "h < s" "t \<noteq> Suc h mod s" "s \<le> length buf"
  shows "ring_list (buf[h := x]) t (Suc h mod s) s = ring_list buf t h s @ [x]"
proof -
  have last: "(t + ring_count t h s) mod s = h"
    using assms by (auto simp: ring_count_cases mod_if)
  have "map (\<lambda>j. buf[h := x] ! ((t + j) mod s)) [0..<ring_count t h s] = ring_list buf t h s"
    using ring_slot_ne_head [OF assms(1,2)] by (auto simp: ring_list_def nth_list_update_neq)
  then show ?thesis
    using assms last by (simp add: ring_list_def ring_count_put)
qed

lemma ring_count_bound: "\<lbrakk>tail < sz; head < sz\<rbrakk> \<Longrightarrow> ring_count (unat tail) (unat head) (unat sz) < 2 ^ 64"
  for tail head sz :: u64
  using ring_count_le [of "unat sz" "unat tail" "unat head"] unat_bound [of sz]
  by (simp add: word_less_nat_alt)

section \<open>Reading and writing the ring\<close>

lemma fifo_read_loop_spec:
  assumes "ring_ok buf tail head sz" "i + k \<le> length out"
  shows "\<exists>tail'. let n = min k (ring_count (unat tail) (unat head) (unat sz)) in
     fifo_read_loop k i buf tail head sz out c =
       Some (tail', put_slice i (take n (ring_list buf (unat tail) (unat head) (unat sz))) out, c + of_nat n)
     \<and> ring_ok buf tail' head sz
     \<and> ring_list buf (unat tail') (unat head) (unat sz) =
         drop n (ring_list buf (unat tail) (unat head) (unat sz))"
  using assms
proof (induction k arbitrary: i tail out c)
  case 0
  then show ?case by (simp add: put_slice_def)
next
  case (Suc k)
  show ?case
  proof (cases "tail = head")
    case True
    then show ?thesis using Suc.prems by (simp add: put_slice_def ring_ok_def word_less_nat_alt)
  next
    case False
    let ?t = "unat tail" and ?h = "unat head" and ?s = "unat sz"
    let ?tail = "(tail + 1) mod sz" and ?out = "out[i := buf ! ?t]"
    have b: "?t < ?s" "?h < ?s" "?t \<noteq> ?h" "?s \<le> length buf" "sz \<noteq> 0"
      using Suc.prems False by (auto simp: ring_ok_def word_less_nat_alt word_unat_eq_iff)
    have t': "unat ?tail = Suc ?t mod ?s"
      using Suc.prems by (simp add: ring_ok_def unat_Suc_mod)
    have ok: "ring_ok buf ?tail head sz"
      using Suc.prems b by (simp add: ring_ok_def word_less_nat_alt t')
    define L C where "L = ring_list buf (unat ?tail) ?h ?s" and "C = ring_count (unat ?tail) ?h ?s"
    have R: "ring_list buf ?t ?h ?s = buf ! ?t # L" "ring_count ?t ?h ?s = Suc C"
      unfolding L_def C_def t' using b by (auto intro: ring_list_get ring_count_get)
    have len: "Suc i + k \<le> length ?out" using Suc.prems by simp
    have P: "put_slice (Suc i) ys ?out = put_slice i (buf ! ?t # ys) out" for ys
      using Suc.prems(2) by (simp add: put_slice_def take_Suc_conv_app_nth)
    from Suc.IH [OF ok len, of "c + 1", folded L_def C_def] Suc.prems b False show ?thesis
      by (simp add: Let_def nth_opt_Some upd_opt_Some P R add.assoc)
  qed
qed

lemma fifo_write_loop_spec:
  assumes "ring_ok buf tail head sz" "i + k \<le> length inp"
  shows "\<exists>buf' head'. let n = min k (unat sz - 1 - ring_count (unat tail) (unat head) (unat sz)) in
     fifo_write_loop k i buf tail head sz inp c = Some (buf', head', c + of_nat n)
     \<and> ring_ok buf' tail head' sz \<and> length buf' = length buf
     \<and> ring_list buf' (unat tail) (unat head') (unat sz) =
         ring_list buf (unat tail) (unat head) (unat sz) @ slice i n inp"
  using assms
proof (induction k arbitrary: i head buf c)
  case 0
  then show ?case by (simp add: slice_def)
next
  case (Suc k)
  let ?t = "unat tail" and ?h = "unat head" and ?s = "unat sz"
  let ?head = "(head + 1) mod sz" and ?buf = "buf[?h := inp ! i]"
  have b: "?t < ?s" "?h < ?s" "?s \<le> length buf" "sz \<noteq> 0"
    using Suc.prems by (auto simp: ring_ok_def word_less_nat_alt)
  have h': "unat ?head = Suc ?h mod ?s"
    using Suc.prems by (simp add: ring_ok_def unat_Suc_mod)
  show ?case
  proof (cases "tail = ?head")
    case True
    then have "ring_count ?t ?h ?s = ?s - 1" using b h' by (metis ring_count_full)
    then show ?thesis using True Suc.prems b by (simp add: slice_def)
  next
    case False
    then have ne: "?t \<noteq> Suc ?h mod ?s" using h' by (metis word_unat_eq_iff)
    have ok: "ring_ok ?buf tail ?head sz"
      using Suc.prems b by (simp add: ring_ok_def word_less_nat_alt h')
    have len: "Suc i + k \<le> length inp" using Suc.prems by simp
    note L = ring_list_put [OF b(1,2) ne b(3), of "inp ! i", folded h']
      and C = ring_count_put [OF b(1,2) ne, folded h']
    have S: "slice i (Suc n) inp = inp ! i # slice (Suc i) n inp" for n
      using len by (simp add: slice_def Cons_nth_drop_Suc [symmetric])
    have "ring_count ?t ?h ?s < ?s - 1"
      using C ring_count_le [of ?s ?t "unat ?head"] b by linarith
    then have m: "min (Suc k) (?s - 1 - ring_count ?t ?h ?s) =
        Suc (min k (?s - 1 - ring_count ?t (unat ?head) ?s))"
      using C by linarith
    from Suc.IH [OF ok len, of "c + 1"] Suc.prems b False show ?thesis
      unfolding Let_def m L by (simp add: nth_opt_Some upd_opt_Some S add.assoc)
  qed
qed

section \<open>The queue contract\<close>

text \<open>
  What a client of a ring buffer may rely on: a write appends what fits and
  says how much that was, a read takes from the front.
\<close>

locale bounded_fifo =
  fixes inv :: "'q \<Rightarrow> bool"
    and contents :: "'q \<Rightarrow> 'a list"
    and room :: "'q \<Rightarrow> nat"
    and push :: "'a list \<Rightarrow> 'q \<Rightarrow> (nat \<times> 'q) option"
    and pop :: "nat \<Rightarrow> 'q \<Rightarrow> ('a list \<times> 'q) option"
  assumes push_law: "\<lbrakk>inv q; length xs < 2 ^ 64\<rbrakk> \<Longrightarrow>
      \<exists>q'. push xs q = Some (min (length xs) (room q), q') \<and> inv q'
        \<and> contents q' = contents q @ take (room q) xs \<and> room q' = room q - length xs"
    and pop_law: "\<lbrakk>inv q; n < 2 ^ 64\<rbrakk> \<Longrightarrow>
      \<exists>q'. pop n q = Some (take n (contents q), q') \<and> inv q'
        \<and> contents q' = drop n (contents q) \<and> room q' = room q + min n (length (contents q))"

datatype 'a fifo_op = Push "'a list" | Pop nat

text \<open>
  A script of reads and writes; the result holds what was accepted, what was
  delivered and the final queue.
\<close>

fun run_script :: "('a list \<Rightarrow> 'q \<Rightarrow> (nat \<times> 'q) option) \<Rightarrow> (nat \<Rightarrow> 'q \<Rightarrow> ('a list \<times> 'q) option) \<Rightarrow>
    'a fifo_op list \<Rightarrow> 'q \<Rightarrow> ('a list \<times> 'a list \<times> 'q) option" where
  "run_script wr rd [] q = Some ([], [], q)"
| "run_script wr rd (Push xs # ops) q = do {
     (n, q1) \<leftarrow> wr xs q;
     (acc, del, q2) \<leftarrow> run_script wr rd ops q1;
     Some (take n xs @ acc, del, q2) }"
| "run_script wr rd (Pop n # ops) q = do {
     (ys, q1) \<leftarrow> rd n q;
     (acc, del, q2) \<leftarrow> run_script wr rd ops q1;
     Some (acc, ys @ del, q2) }"

fun op_fits :: "'a fifo_op \<Rightarrow> bool" where
  "op_fits (Push xs) = (length xs < 2 ^ 64)"
| "op_fits (Pop n) = (n < 2 ^ 64)"

context bounded_fifo
begin

lemma script_in_order:
  "\<lbrakk>inv q; list_all op_fits ops\<rbrakk> \<Longrightarrow>
     \<exists>acc del q'. run_script push pop ops q = Some (acc, del, q') \<and> inv q'
       \<and> contents q @ acc = del @ contents q'"
proof (induction ops arbitrary: q)
  case (Cons c ops)
  show ?case
  proof (cases c)
    case (Push xs)
    with push_law [of q xs] Cons.prems obtain q1 where q1:
      "push xs q = Some (min (length xs) (room q), q1)" "inv q1" "contents q1 = contents q @ take (room q) xs"
      by auto
    with Cons.IH [of q1] Cons.prems Push show ?thesis by (auto simp: min_def)
  next
    case (Pop n)
    with pop_law [of q n] Cons.prems obtain q1 where q1:
      "pop n q = Some (take n (contents q), q1)" "inv q1" "contents q1 = drop n (contents q)"
      by auto
    from Cons.IH [OF q1(2)] Cons.prems obtain acc del q' where r: "run_script push pop ops q1 = Some (acc, del, q')" "inv q'"
      "contents q1 @ acc = del @ contents q'"
      by auto
    then have "contents q @ acc = (take n (contents q) @ del) @ contents q'"
      using q1(3) by (metis append.assoc append_take_drop_id)
    with q1 r Pop show ?thesis by auto
  qed
qed simp

lemma write_then_read:
  assumes "inv q" "contents q = []" "length xs \<le> room q" "length xs < 2 ^ 64"
  shows "\<exists>q1 q2. push xs q = Some (length xs, q1) \<and> pop (length xs) q1 = Some (xs, q2)
           \<and> contents q2 = [] \<and> room q2 = room q"
proof -
  obtain q1 where q1: "push xs q = Some (length xs, q1)" "inv q1" "contents q1 = xs"
      "room q1 = room q - length xs"
    using push_law [OF assms(1,4)] assms(2,3) by auto
  moreover obtain q2 where "pop (length xs) q1 = Some (xs, q2)" "contents q2 = []"
      "room q2 = room q1 + length xs"
    using pop_law [OF q1(2) assms(4)] q1(3) by auto
  ultimately show ?thesis using assms(3) by auto
qed

end

record 'a ring =
  r_buf :: "'a list"
  r_tail :: u64
  r_head :: u64
  r_size :: u64

definition ring_inv :: "'a ring \<Rightarrow> bool" where
  "ring_inv r = ring_ok (r_buf r) (r_tail r) (r_head r) (r_size r)"

definition ring_contents :: "'a ring \<Rightarrow> 'a list" where
  "ring_contents r = ring_list (r_buf r) (unat (r_tail r)) (unat (r_head r)) (unat (r_size r))"

definition ring_room :: "'a ring \<Rightarrow> nat" where
  "ring_room r = unat (r_size r) - 1 - length (ring_contents r)"

definition ring_push :: "('a list \<Rightarrow> u64 \<Rightarrow> u64 \<Rightarrow> u64 \<Rightarrow> u64 \<Rightarrow> 'a list \<Rightarrow> ('a list \<times> u64 \<times> u64) option) \<Rightarrow>
    'a list \<Rightarrow> 'a ring \<Rightarrow> (nat \<times> 'a ring) option" where
  "ring_push wr xs r = do {
     (buf, head, n) \<leftarrow> wr (r_buf r) (r_tail r) (r_head r) (r_size r) (of_nat (length xs)) xs;
     Some (unat n, r\<lparr>r_buf := buf, r_head := head\<rparr>) }"

definition ring_pop :: "('a list \<Rightarrow> u64 \<Rightarrow> u64 \<Rightarrow> u64 \<Rightarrow> u64 \<Rightarrow> 'a list \<Rightarrow> (u64 \<times> 'a list \<times> u64) option) \<Rightarrow>
    nat \<Rightarrow> 'a :: zero ring \<Rightarrow> ('a list \<times> 'a ring) option" where
  "ring_pop rd n r = do {
     (tail, out, m) \<leftarrow> rd (r_buf r) (r_tail r) (r_head r) (r_size r) (of_nat n) (replicate n 0);
     Some (take (unat m) out, r\<lparr>r_tail := tail\<rparr>) }"

lemma ring_push_law:
  assumes "ring_inv r" "length xs < 2 ^ 64"
  shows "\<exists>r'. ring_push (\<lambda>buf tail head sz len inp. fifo_write_loop (unat len) 0 buf tail head sz inp 0) xs r =
        Some (min (length xs) (ring_room r), r')
      \<and> ring_inv r' \<and> ring_contents r' = ring_contents r @ take (ring_room r) xs
      \<and> ring_room r' = ring_room r - length xs"
proof -
  let ?n = "min (length xs) (ring_room r)"
  have len: "unat (of_nat (length xs) :: u64) = length xs" using assms(2) by (simp add: unat_of_nat_lt)
  have n: "unat (of_nat ?n :: u64) = ?n" using assms(2) by (intro unat_of_nat_lt) auto
  obtain buf' head' where W:
    "fifo_write_loop (length xs) 0 (r_buf r) (r_tail r) (r_head r) (r_size r) xs 0 = Some (buf', head', of_nat ?n)"
    "ring_ok buf' (r_tail r) head' (r_size r)"
    "ring_list buf' (unat (r_tail r)) (unat head') (unat (r_size r)) = ring_contents r @ take ?n xs"
    using fifo_write_loop_spec [of "r_buf r" "r_tail r" "r_head r" "r_size r" 0 "length xs" xs 0] assms(1)
    by (auto simp: ring_inv_def Let_def ring_room_def ring_contents_def slice_def)
  let ?r = "r\<lparr>r_buf := buf', r_head := head'\<rparr>"
  have c: "ring_contents ?r = ring_contents r @ take ?n xs" using W(3) by (simp add: ring_contents_def)
  then have "ring_room ?r = ring_room r - length xs" by (simp add: ring_room_def)
  with c W(1,2) len n show ?thesis by (simp add: ring_push_def ring_inv_def min_def)
qed

lemma ring_pop_law:
  assumes "ring_inv r" "n < 2 ^ 64"
  shows "\<exists>r'. ring_pop (\<lambda>buf tail head sz len out. fifo_read_loop (unat len) 0 buf tail head sz out 0) n r =
        Some (take n (ring_contents r), r')
      \<and> ring_inv r' \<and> ring_contents r' = drop n (ring_contents r)
      \<and> ring_room r' = ring_room r + min n (length (ring_contents r))"
proof -
  let ?c = "length (ring_contents r)"
  have len: "unat (of_nat n :: u64) = n" using assms(2) by (simp add: unat_of_nat_lt)
  have m: "unat (of_nat (min n ?c) :: u64) = min n ?c" using assms(2) by (intro unat_of_nat_lt) auto
  obtain tail' where R:
    "fifo_read_loop n 0 (r_buf r) (r_tail r) (r_head r) (r_size r) (replicate n 0) 0 =
       Some (tail', put_slice 0 (take (min n ?c) (ring_contents r)) (replicate n 0), of_nat (min n ?c))"
    "ring_ok (r_buf r) tail' (r_head r) (r_size r)"
    "ring_list (r_buf r) (unat tail') (unat (r_head r)) (unat (r_size r)) = drop (min n ?c) (ring_contents r)"
    using fifo_read_loop_spec [of "r_buf r" "r_tail r" "r_head r" "r_size r" 0 n "replicate n 0" 0] assms(1)
    by (auto simp: ring_inv_def Let_def ring_contents_def)
  have le: "?c \<le> unat (r_size r) - 1"
    using assms(1) ring_count_le [of "unat (r_size r)"]
    by (auto simp: ring_contents_def ring_inv_def ring_ok_def word_less_nat_alt)
  let ?r = "r\<lparr>r_tail := tail'\<rparr>"
  have c: "ring_contents ?r = drop (min n ?c) (ring_contents r)" using R(3) by (simp add: ring_contents_def)
  then have "ring_room ?r = ring_room r + min n ?c" using le by (simp add: ring_room_def)
  with c R(1,2) len m show ?thesis by (simp add: ring_pop_def ring_inv_def put_slice_def min_def)
qed

interpretation r8: bounded_fifo ring_inv ring_contents ring_room "ring_push fifo_write8" "ring_pop fifo_read8"
  unfolding fifo_write8_def [abs_def] fifo_read8_def [abs_def]
  by unfold_locales (rule ring_push_law, assumption+, rule ring_pop_law, assumption+)

interpretation r16: bounded_fifo ring_inv ring_contents ring_room "ring_push fifo_write16" "ring_pop fifo_read16"
  unfolding fifo_write16_def [abs_def] fifo_read16_def [abs_def]
  by unfold_locales (rule ring_push_law, assumption+, rule ring_pop_law, assumption+)

section \<open>Byte order\<close>

lemma byte_masks32:
  "(0x000000FF :: u32) = mask 8" "(0x0000FF00 :: u32) = push_bit 8 (mask 8)"
  "(0x00FF0000 :: u32) = push_bit 16 (mask 8)" "(0xFF000000 :: u32) = push_bit 24 (mask 8)"
  by (simp_all add: mask_eq_exp_minus_1)

lemma bit_htonl:
  "n < 32 \<Longrightarrow> bit (htonl x) n \<longleftrightarrow>
     bit x (if n < 8 then n + 24 else if n < 16 then n + 8 else if n < 24 then n - 8 else n - 24)"
  unfolding htonl_def byte_masks32 by (auto simp: bit_simps add.commute)

lemma htonl_htonl: "htonl (htonl x) = x"
  by (rule bit_word_eqI) (auto simp: bit_htonl)

lemma htons_htons: "htons (htons x) = x"
  unfolding htons_def by (rule bit_word_eqI) (auto simp: bit_simps)

section \<open>Rings of multi-byte units\<close>

lemma length_concat_units: "\<forall>x\<in>set B. length x = u \<Longrightarrow> length (concat B) = length B * u"
  by (induction B) auto

lemma slice_concat_units:
  "\<lbrakk>\<forall>x\<in>set B. length x = u; j < length B\<rbrakk> \<Longrightarrow> slice (j * u) u (concat B) = B ! j"
proof (induction B arbitrary: j)
  case (Cons b B)
  then show ?case by (cases j) (auto simp: slice_def)
qed simp

lemma put_slice_concat_units:
  "\<lbrakk>\<forall>x\<in>set B. length x = u; j < length B; length y = u\<rbrakk> \<Longrightarrow>
     put_slice (j * u) y (concat B) = concat (B[j := y])"
proof (induction B arbitrary: j)
  case (Cons b B)
  then show ?case by (cases j) (auto simp: put_slice_def add.commute)
qed simp

lemma copy_bytes_units:
  assumes "\<forall>x\<in>set B. length x = u" "\<forall>x\<in>set D. length x = u" "0 < u"
  shows "copy_bytes (concat D) (i * u) (concat B) (j * u) u =
    (if i < length D \<and> j < length B then Some (concat (D[i := B ! j])) else None)"
proof -
  have "i * u + u \<le> n * u \<longleftrightarrow> i < n" for i n
    using assms(3) by (metis Suc_le_eq add.commute mult_Suc mult_le_cancel2)
  then show ?thesis
    using assms length_concat_units [OF assms(1)] length_concat_units [OF assms(2)]
    by (simp add: copy_bytes_def slice_concat_units put_slice_concat_units)
qed

lemma units_update:
  "\<lbrakk>\<forall>x\<in>set B. length x = u; length y = u\<rbrakk> \<Longrightarrow> \<forall>x\<in>set (B[i := y]). length x = u"
  using set_update_subset_insert [of B i y] by auto

lemma fifo_read_units_refines:
  "\<lbrakk>\<forall>x\<in>set B. length x = u; \<forall>x\<in>set D. length x = u; 0 < u\<rbrakk> \<Longrightarrow>
   fifo_read_units k i (concat B) tail head units (concat D) u n =
     map_option (\<lambda>(t, D', c). (t, concat D', c)) (fifo_read_loop k i B tail head units D n)"
proof (induction k arbitrary: i tail D n)
  case (Suc k)
  have "\<forall>x\<in>set (D[i := B ! unat tail]). length x = u" if "unat tail < length B"
    using Suc.prems that by (intro units_update) auto
  then show ?case using Suc
    by (auto simp: copy_bytes_units nth_opt_def upd_opt_def)
qed simp

lemma fifo_write_units_refines:
  "\<lbrakk>\<forall>x\<in>set B. length x = u; \<forall>x\<in>set D. length x = u; 0 < u\<rbrakk> \<Longrightarrow>
   fifo_write_units k i (concat B) tail head units (concat D) u n =
     map_option (\<lambda>(B', h, c). (concat B', h, c)) (fifo_write_loop k i B tail head units D n)"
proof (induction k arbitrary: i head B n)
  case (Suc k)
  have "\<forall>x\<in>set (B[unat head := D ! i]). length x = u" if "i < length D"
    using Suc.prems that by (intro units_update) auto
  then show ?case using Suc
    by (auto simp: copy_bytes_units nth_opt_def upd_opt_def)
qed simp

section \<open>Copies, fills and comparisons\<close>

lemma memcpy_from_other:
  "(\<And>j. j < k \<Longrightarrow> a \<noteq> dest + i + of_nat j) \<Longrightarrow> memcpy_from k i m dest src a = m a"
proof (induction k arbitrary: i m)
  case (Suc k)
  have "a \<noteq> dest + (i + 1) + of_nat j" if "j < k" for j
    using Suc.prems [of "Suc j"] that by (simp add: algebra_simps)
  moreover have "a \<noteq> dest + i" using Suc.prems [of 0] by simp
  ultimately show ?case using Suc.IH [of "i + 1"] by simp
qed simp

lemma memcpy_from_copies:
  assumes "\<And>p q. p < q \<Longrightarrow> q < k \<Longrightarrow> dest + i + of_nat p \<noteq> src + i + of_nat q"
    and "k \<le> 2 ^ 64" and "j < k"
  shows "memcpy_from k i m dest src (dest + i + of_nat j) = m (src + i + of_nat j)"
  using assms
proof (induction k arbitrary: i j m)
  case (Suc k)
  let ?m = "m(dest + i := m (src + i))"
  show ?case
  proof (cases j)
    case 0
    have "dest + i \<noteq> dest + (i + 1) + of_nat p" if "p < k" for p
    proof
      assume "dest + i = dest + (i + 1) + of_nat p"
      then have "of_nat (Suc p) = (0 :: u64)" by (simp add: algebra_simps)
      then have "2 ^ LENGTH(64) dvd Suc p" by (simp only: word_of_nat_eq_0_iff)
      then show False using that Suc.prems(2) by (auto dest: dvd_imp_le)
    qed
    with 0 show ?thesis by (simp add: memcpy_from_other)
  next
    case (Suc j')
    have "dest + (i + 1) + of_nat p \<noteq> src + (i + 1) + of_nat q" if "p < q" "q < k" for p q
      using Suc.prems(1) [of "Suc p" "Suc q"] that by (simp add: algebra_simps)
    moreover have "k \<le> 2 ^ 64" "j' < k" using Suc.prems Suc by auto
    ultimately have "memcpy_from k (i + 1) ?m dest src (dest + (i + 1) + of_nat j') = ?m (src + (i + 1) + of_nat j')"
      by (intro Suc.IH)
    moreover have "?m (src + (i + 1) + of_nat j') = m (src + (i + 1) + of_nat j')"
      using Suc.prems(1) [of 0 j] Suc.prems(3) Suc by (simp add: add.assoc)
    ultimately show ?thesis using Suc by (simp add: add.assoc)
  qed
qed simp

lemma memset_from_spec:
  "k \<le> 2 ^ 64 \<Longrightarrow> memset_from k m p c a = (if \<exists>j<k. a = p + of_nat j then word_of_int c else m a)"
proof (induction k arbitrary: m p)
  case (Suc k)
  have "(\<exists>j<Suc k. a = p + of_nat j) \<longleftrightarrow> a = p \<or> (\<exists>j<k. a = p + 1 + of_nat j)"
    unfolding Ex_less_Suc2 by (simp add: algebra_simps)
  with Suc show ?case by auto
qed simp

lemma erase_mem8_from_spec:
  "erase_mem8_from k i m p a = (if \<exists>j<k. a = p + i + of_nat j then 0 else m a)"
proof (induction k arbitrary: m i)
  case (Suc k)
  have "(\<exists>j<Suc k. a = p + i + of_nat j) \<longleftrightarrow> a = p + i \<or> (\<exists>j<k. a = p + (i + 1) + of_nat j)"
    unfolding Ex_less_Suc2 by (simp add: algebra_simps)
  with Suc show ?case by auto
qed simp

lemma memcmp_from_0_iff:
  "memcmp_from k i m p q = 0 \<longleftrightarrow> (\<forall>j<k. m (p + i + of_nat j) = m (q + i + of_nat j))"
proof (induction k arbitrary: i)
  case (Suc k)
  then show ?case unfolding All_less_Suc2 by (auto simp: algebra_simps dest: unsigned_word_eqI)
qed simp

section \<open>Properties\<close>

text \<open>
  C7. Whatever sequence of writes and reads a byte ring goes through, no call
  faults, and the bytes delivered followed by those still queued are the bytes
  queued at the start followed by the accepted ones: nothing is lost,
  duplicated or reordered.
\<close>

theorem fifo8_history:
  assumes "ring_inv r" "list_all op_fits ops"
  shows "\<exists>acc del r'. run_script (ring_push fifo_write8) (ring_pop fifo_read8) ops r = Some (acc, del, r')
     \<and> ring_inv r' \<and> ring_contents r @ acc = del @ ring_contents r'"
  using assms by (rule r8.script_in_order)

theorem fifo8_history_witness:
  "\<exists>acc del r'. run_script (ring_push fifo_write8) (ring_pop fifo_read8) [Push [1, 2, 3], Pop 1, Push [4]]
       \<lparr>r_buf = [0, 0, 0], r_tail = 2, r_head = 2, r_size = 3\<rparr> = Some (acc, del, r') \<and> ring_inv r'
     \<and> ring_contents \<lparr>r_buf = [0, 0, 0], r_tail = 2, r_head = 2, r_size = 3\<rparr> @ acc = del @ ring_contents r'"
  by (rule fifo8_history) (simp_all add: ring_inv_def ring_ok_def)

text \<open>
  A write of at most the free room to an empty 16-bit ring is accepted
  whole, and a read of the same length returns exactly the units written and
  leaves the ring as empty as before.
\<close>

theorem fifo16_roundtrip:
  assumes "ring_inv q" "ring_contents q = []" "length xs \<le> ring_room q" "length xs < 2 ^ 64"
  shows "\<exists>q1 q2. ring_push fifo_write16 xs q = Some (length xs, q1)
     \<and> ring_pop fifo_read16 (length xs) q1 = Some (xs, q2)
     \<and> ring_contents q2 = [] \<and> ring_room q2 = ring_room q"
  using assms by (rule r16.write_then_read)

theorem fifo16_roundtrip_witness:
  "\<exists>q1 q2. ring_push fifo_write16 [7, 8] \<lparr>r_buf = [0, 0, 0], r_tail = 2, r_head = 2, r_size = 3\<rparr> = Some (length [7 :: u16, 8], q1)
     \<and> ring_pop fifo_read16 (length [7 :: u16, 8]) q1 = Some ([7, 8], q2)
     \<and> ring_contents q2 = [] \<and> ring_room q2 = ring_room \<lparr>r_buf = [0 :: u16, 0, 0], r_tail = 2, r_head = 2, r_size = 3\<rparr>"
  by (rule fifo16_roundtrip)
    (simp_all add: ring_inv_def ring_ok_def ring_contents_def ring_room_def)

text \<open>
  The byte-level ring with a unit size is the ring of its units: on arrays
  that are a sequence of units, \<^verbatim>\<open>fifo_write_with_size\<close> and
  \<^verbatim>\<open>fifo_read_with_size\<close> do, unit by unit, what the one-cell-per-unit loops
  do, faults included.
\<close>

theorem fifo_with_size_refines:
  assumes "\<forall>x\<in>set B. length x = unat u" "\<forall>x\<in>set D. length x = unat u" "0 < u"
  shows "fifo_write_with_size (concat B) tail head units n (concat D) u =
       map_option (\<lambda>(B', h, c). (concat B', h, c)) (fifo_write_loop (unat n) 0 B tail head units D 0)
     \<and> fifo_read_with_size (concat B) tail head units n (concat D) u =
       map_option (\<lambda>(t, D', c). (t, concat D', c)) (fifo_read_loop (unat n) 0 B tail head units D 0)"
  using assms
  by (simp add: fifo_write_with_size_def fifo_read_with_size_def word_greater_zero_iff unat_gt_0
      fifo_write_units_refines fifo_read_units_refines)

theorem fifo_with_size_refines_witness:
  "fifo_write_with_size (concat [[0, 0], [0, 0]]) 0 0 2 1 (concat [[5, 6]]) 2 =
       map_option (\<lambda>(B', h, c). (concat B', h, c)) (fifo_write_loop (unat (1 :: u64)) 0 [[0, 0], [0, 0]] 0 0 2 [[5, 6]] 0)
     \<and> fifo_read_with_size (concat [[0, 0], [0, 0]]) 0 0 2 1 (concat [[5, 6]]) 2 =
       map_option (\<lambda>(t, D', c). (t, concat D', c)) (fifo_read_loop (unat (1 :: u64)) 0 [[0, 0], [0, 0]] 0 0 2 [[5, 6]] 0)"
  by (rule fifo_with_size_refines) simp_all

text \<open>
  \<^verbatim>\<open>memcpy\<close> copies correctly whenever no byte is written before it is
  read, which covers disjoint ranges and a move towards lower addresses: every
  destination byte is the original source byte and no byte outside the
  destination changes.
\<close>

theorem memcpy_correct:
  assumes "\<And>p q. \<lbrakk>p < q; q < unat sz\<rbrakk> \<Longrightarrow> dest + of_nat p \<noteq> src + of_nat q"
  shows "memcpy m dest src sz a =
    (if a - dest < sz then m (src + (a - dest)) else m a)"
proof -
  have C: "memcpy_from (unat sz) 0 m dest src (dest + of_nat j) = m (src + of_nat j)" if "j < unat sz" for j
    using memcpy_from_copies [of "unat sz" dest 0 src j m] assms that unat_bound [of sz] by simp
  show ?thesis
  proof (cases "a - dest < sz")
    case True
    then show ?thesis using C [of "unat (a - dest)"]
      by (simp add: memcpy_def word_less_nat_alt)
  next
    case False
    have "a \<noteq> dest + 0 + of_nat j" if "j < unat sz" for j
    proof
      assume "a = dest + 0 + of_nat j"
      then have "unat (a - dest) = j" using that unat_bound [of sz] by (simp add: unat_of_nat_lt)
      with that False show False by (simp add: word_less_nat_alt)
    qed
    then have "memcpy_from (unat sz) 0 m dest src a = m a" by (rule memcpy_from_other)
    with False show ?thesis by (simp add: memcpy_def)
  qed
qed

theorem memcpy_correct_witness:
  "memcpy (\<lambda>a. ucast a) 10 12 4 11 = (if (11 :: u64) - 10 < 4 then (\<lambda>a. ucast a) ((12 :: u64) + (11 - 10)) else ucast (11 :: u64))"
proof (rule memcpy_correct)
  fix p q :: nat
  assume "p < q" "q < unat (4 :: u64)"
  then have "(p, q) \<in> set [(0, 1), (0, 2), (0, 3), (1, 2), (1, 3), (2, 3)]" by auto
  then show "(10 :: u64) + of_nat p \<noteq> 12 + of_nat q" by auto
qed

text \<open>
  \<^verbatim>\<open>memset\<close> sets exactly the bytes of the range (modulo the size of
  the address space) to the low byte of its argument, and \<^verbatim>\<open>erase_mem8\<close> is
  \<^verbatim>\<open>memset\<close> with zero.
\<close>

theorem memset_exact:
  "memset m s c n a = (if \<exists>j<unat n. a = s + of_nat j then word_of_int c else m a)
   \<and> erase_mem8 m s n = memset m s 0 n"
proof -
  have "unat n \<le> 2 ^ 64" using unat_bound [of n] by simp
  then show ?thesis
    by (auto simp: memset_def erase_mem8_def memset_from_spec erase_mem8_from_spec fun_eq_iff)
qed

text \<open>
  \<^verbatim>\<open>memcmp\<close> returns zero exactly when the two ranges hold the same bytes.
\<close>

theorem memcmp_eq_0_iff:
  "memcmp m s1 s2 n = 0 \<longleftrightarrow> map (\<lambda>j. m (s1 + of_nat j)) [0..<unat n] = map (\<lambda>j. m (s2 + of_nat j)) [0..<unat n]"
  by (auto simp: memcmp_def memcmp_from_0_iff)

text \<open>
  Host-to-network and network-to-host conversions undo each other, in both
  widths and both directions.
\<close>

theorem byte_order_roundtrip:
  "ntohs (htons x) = x \<and> htons (ntohs x) = x \<and> ntohl (htonl y) = y \<and> htonl (ntohl y) = y"
  by (simp add: ntohs_def ntohl_def htons_htons htonl_htonl)

section \<open>Words read back from byte arrays\<close>

lemma length_le [simp]: "length (le16 v) = 2" "length (le32 w) = 4"
  by (simp_all add: le16_def le32_def)

lemma read16_le16 [simp]: "read16 (le16 w @ xs) 0 = Some w"
  by (auto simp: read16_def le16_def nth_opt_def bit_simps dest: bit_imp_le_length intro!: bit_word_eqI)

lemma read16_drop: "read16 buf i = read16 (drop i buf) 0"
  by (auto simp: read16_def nth_opt_def)

lemma read32_drop: "read32 buf i = read32 (drop i buf) 0"
  by (auto simp: read32_def read16_def nth_opt_def add.assoc numeral_2_eq_2)

lemma le32_halves: "le32 w = le16 (ucast w) @ le16 (ucast (drop_bit 16 w))"
proof -
  have "(ucast (drop_bit k w) :: u8) = ucast (drop_bit k (ucast w :: u16))" if "k \<le> 8" for k
    using that by (auto simp: bit_simps intro!: bit_word_eqI)
  from this [of 0] this [of 8] show ?thesis
    by (auto simp: le32_def le16_def bit_simps intro!: bit_word_eqI)
qed

lemma word_halves: "ucast (ucast w :: u16) OR push_bit 16 (ucast (ucast (drop_bit 16 w) :: u16)) = (w :: u32)"
proof (rule bit_word_eqI)
  fix n assume "n < LENGTH(32)"
  then show "bit (ucast (ucast w :: u16) OR push_bit 16 (ucast (ucast (drop_bit 16 w) :: u16)) :: u32) n = bit w n"
    by (cases "n < 16") (auto simp: bit_simps)
qed

lemma read32_le32 [simp]: "read32 (le32 w @ xs) 0 = Some w"
  using read16_drop [of "le32 w @ xs" 2] by (simp add: read32_def le32_halves word_halves numeral_2_eq_2)

lemma read32_eq:
  assumes "slice i 4 xs = slice i 4 ys" "i + 4 \<le> length xs" "i + 4 \<le> length ys"
  shows "read32 xs i = read32 ys i"
proof -
  have *: "xs ! (i + k) = ys ! (i + k)" if "k < 4" for k
    using arg_cong [OF assms(1), of "\<lambda>l. l ! k"] assms(2,3) that by (simp add: slice_def)
  show ?thesis using *[of 0] *[of 1] *[of 2] *[of 3] assms(2,3) by (simp add: read32_def read16_def nth_opt_def numeral_eq_Suc)
qed

lemma read32_put:
  assumes "i + 4 \<le> length buf"
  shows "read32 (put_slice i (le32 w) buf) i = Some w"
  using assms by (subst read32_drop) (simp add: put_slice_def)

lemma read32_put_other:
  assumes "i + 4 \<le> length buf" "j + 4 \<le> length buf" "j + 4 \<le> i \<or> i + 4 \<le> j"
  shows "read32 (put_slice i (le32 w) buf) j = read32 buf j"
  using assms by (intro read32_eq) (simp_all add: slice_put_slice_other)

lemma read_Some: "i + 2 \<le> length buf \<Longrightarrow> \<exists>v. read16 buf i = Some v" "i + 4 \<le> length buf \<Longrightarrow> \<exists>w. read32 buf i = Some w"
  by (auto simp: read32_def read16_def nth_opt_def)

end
