(* ===== verification/Cstring.thy ===== *)
theory Cstring
  imports Memlib "HOL-Library.Signed_Division"
begin

text \<open>
  The string library \<^verbatim>\<open>src/libs/string/string.h\<close>.  A pointer into a character
  array is the rest of the array from there on, so stepping the pointer takes the
  tail and reading past the end of the array is a fault.  An array that is
  written is a list with an index.  Source and destination are different objects.
\<close>

definition cstring :: "'a::zero list \<Rightarrow> 'a list" where
  "cstring s = takeWhile (\<lambda>c. c \<noteq> 0) s"

definition terminated :: "'a::zero list \<Rightarrow> bool" where
  "terminated s = (0 \<in> set s)"

section \<open>Scanning\<close>

fun strlen_from :: "'a::zero list \<Rightarrow> u64 \<Rightarrow> u64 option" where
  "strlen_from [] n = None"
| "strlen_from (c # p) n = (if c = 0 then Some n else strlen_from p (n + 1))"

definition strlen :: "u8 list \<Rightarrow> u64 option" where
  "strlen s = strlen_from s 0"

definition wstrlen :: "u16 list \<Rightarrow> u64 option" where
  "wstrlen s = strlen_from s 0"

text \<open>The source's \<^verbatim>\<open>strcmp\<close> answers 1 on equal strings and 0 otherwise.\<close>

fun strcmp :: "u8 list \<Rightarrow> u8 list \<Rightarrow> int option" where
  "strcmp (a # s1) (b # s2) =
     (if a \<noteq> 0 \<and> a = b then strcmp s1 s2 else Some (if a = b then 1 else 0))"
| "strcmp _ _ = None"

definition strequal :: "u8 list \<Rightarrow> u8 list \<Rightarrow> bool option" where
  "strequal s1 s2 = map_option (\<lambda>r. r \<noteq> 0) (strcmp s1 s2)"

fun strncmp_from :: "nat \<Rightarrow> u8 list \<Rightarrow> u8 list \<Rightarrow> int option" where
  "strncmp_from 0 s1 s2 = Some 0"
| "strncmp_from (Suc n) (c1 # s1) (c2 # s2) =
     (if c1 \<noteq> c2 then Some (uint c1 - uint c2)
      else if c1 = 0 then Some 0 else strncmp_from n s1 s2)"
| "strncmp_from (Suc n) _ _ = None"

definition strncmp :: "u8 list \<Rightarrow> u8 list \<Rightarrow> u64 \<Rightarrow> int option" where
  "strncmp s1 s2 n = strncmp_from (unat n) s1 s2"

fun strpos_from :: "u8 list \<Rightarrow> u8 \<Rightarrow> int \<Rightarrow> int option" where
  "strpos_from [] c index = None"
| "strpos_from (x # s) c index =
     (if x = 0 then Some (- 1) else if x = c then Some index else strpos_from s c (index + 1))"

definition strpos :: "u8 list \<Rightarrow> u8 \<Rightarrow> int option" where
  "strpos s c = strpos_from s c 0"

section \<open>Copying\<close>

fun strcpy_at :: "u8 list \<Rightarrow> nat \<Rightarrow> u8 list \<Rightarrow> u8 list option" where
  "strcpy_at dest d [] = None"
| "strcpy_at dest d (c # src) = do {
     dest' \<leftarrow> upd_opt dest d c;
     if c = 0 then Some dest' else strcpy_at dest' (Suc d) src }"

definition strcpy :: "u8 list \<Rightarrow> u8 list \<Rightarrow> u8 list option" where
  "strcpy dest src = strcpy_at dest 0 src"

fun string_end :: "u8 list \<Rightarrow> nat \<Rightarrow> nat option" where
  "string_end [] d = None"
| "string_end (c # s) d = (if c = 0 then Some d else string_end s (Suc d))"

definition strcat :: "u8 list \<Rightarrow> u8 list \<Rightarrow> u8 list option" where
  "strcat dest src = do { d \<leftarrow> string_end dest 0; strcpy_at dest d src }"

text \<open>One of the two copy loops of \<^verbatim>\<open>strconcat\<close>; the terminator is not copied.\<close>

fun append_chars :: "u8 list \<Rightarrow> nat \<Rightarrow> u8 list \<Rightarrow> (u8 list \<times> nat) option" where
  "append_chars dest d [] = None"
| "append_chars dest d (c # s) =
     (if c = 0 then Some (dest, d)
      else do { dest' \<leftarrow> upd_opt dest d c; append_chars dest' (Suc d) s })"

definition strconcat :: "u8 list \<Rightarrow> u8 list \<Rightarrow> u8 list \<Rightarrow> u8 list option" where
  "strconcat dest s1 s2 = do {
     (dest1, d1) \<leftarrow> append_chars dest 0 s1;
     (dest2, d2) \<leftarrow> append_chars dest1 d1 s2;
     upd_opt dest2 d2 0 }"

fun substr_skip :: "nat \<Rightarrow> u8 list \<Rightarrow> u8 list option" where
  "substr_skip 0 src = Some src"
| "substr_skip (Suc k) [] = None"
| "substr_skip (Suc k) (c # src) = (if c = 0 then Some (c # src) else substr_skip k src)"

fun substr_copy :: "nat \<Rightarrow> nat \<Rightarrow> u8 list \<Rightarrow> u8 list \<Rightarrow> u8 list option" where
  "substr_copy 0 j dest src = upd_opt dest j 0"
| "substr_copy (Suc k) j dest [] = None"
| "substr_copy (Suc k) j dest (c # src) =
     (if c = 0 then upd_opt dest j 0
      else do { dest' \<leftarrow> upd_opt dest j c; substr_copy k (Suc j) dest' src })"

definition substr :: "u8 list \<Rightarrow> u8 list \<Rightarrow> u64 \<Rightarrow> u64 \<Rightarrow> u8 list option" where
  "substr dest src start len = do {
     src' \<leftarrow> substr_skip (unat start) src;
     substr_copy (unat len) 0 dest src' }"

definition char_to_string :: "u8 \<Rightarrow> u8 list \<Rightarrow> u8 list option" where
  "char_to_string c out = do { out1 \<leftarrow> upd_opt out 0 c; upd_opt out1 1 0 }"

definition ascii_to_char :: "u8 \<Rightarrow> u8" where
  "ascii_to_char code =
     (if code < 32 then (if code = 0x0A then 0x0A else if code = 0x09 then 0x09 else 0)
      else if 32 \<le> code \<and> code < 127 then code
      else 0x3F)"

section \<open>Numbers\<close>

definition wrap64 :: "int \<Rightarrow> int" where
  "wrap64 x = sint (word_of_int x :: 64 word)"

definition wrap32 :: "int \<Rightarrow> int" where
  "wrap32 x = sint (word_of_int x :: 32 word)"

text \<open>
  The digit loop of \<^verbatim>\<open>num_to_str\<close>: \<open>tmp\<close> holds the characters written so
  far into the 32-byte scratch array.
\<close>

function num_digits :: "int \<Rightarrow> u8 list \<Rightarrow> u8 list option" where
  "num_digits num tmp =
     (if num > 0 then
        (if length tmp < 32 then num_digits (num sdiv 10) (tmp @ [word_of_int (48 + num smod 10)])
         else None)
      else Some tmp)"
  by pat_completeness auto
termination
  by (relation "measure (\<lambda>(num, tmp). 32 - length tmp)") auto

declare num_digits.simps [simp del]

fun put_all :: "'a list \<Rightarrow> nat \<Rightarrow> 'a list \<Rightarrow> 'a list option" where
  "put_all buf j [] = Some buf"
| "put_all buf j (x # xs) = do { buf' \<leftarrow> upd_opt buf j x; put_all buf' (Suc j) xs }"

definition num_to_str :: "int \<Rightarrow> u8 list \<Rightarrow> u8 list option" where
  "num_to_str num buf =
     (if num = 0 then do { b \<leftarrow> upd_opt buf 0 48; upd_opt b 1 0 }
      else do {
        tmp \<leftarrow> num_digits (if num < 0 then wrap64 (- num) else num) [];
        tmp' \<leftarrow> (if num < 0 then (if length tmp < 32 then Some (tmp @ [45]) else None) else Some tmp);
        b \<leftarrow> put_all buf 0 (rev tmp');
        upd_opt b (length tmp') 0 })"

text \<open>\<^verbatim>\<open>int_to_str\<close> writes its first digit before it tests the number.\<close>

function int_digits :: "int \<Rightarrow> u8 list \<Rightarrow> u8 list option" where
  "int_digits value tmp =
     (if length tmp < 16 then
        (let tmp' = tmp @ [word_of_int (value smod 10 + 48)]
         in if value sdiv 10 > 0 then int_digits (value sdiv 10) tmp' else Some tmp')
      else None)"
  by pat_completeness auto
termination
  by (relation "measure (\<lambda>(value, tmp). 16 - length tmp)") auto

declare int_digits.simps [simp del]

definition int_to_str :: "int \<Rightarrow> u8 list \<Rightarrow> u8 list option" where
  "int_to_str value str = do {
     tmp \<leftarrow> int_digits (if value < 0 then wrap32 (- value) else value) [];
     tmp' \<leftarrow> (if value < 0 then (if length tmp < 16 then Some (tmp @ [45]) else None) else Some tmp);
     s \<leftarrow> put_all str 0 (rev tmp');
     upd_opt s (length tmp') 0 }"

fun str_to_int_loop :: "u8 list \<Rightarrow> int \<Rightarrow> int option" where
  "str_to_int_loop [] res = None"
| "str_to_int_loop (c # str) res =
     (if c = 0 then Some res else str_to_int_loop str (wrap64 (res * 10 + (sint c - 48))))"

definition str_to_int :: "u8 list \<Rightarrow> int option" where
  "str_to_int str = (case str of
     [] \<Rightarrow> None
   | c # rest \<Rightarrow>
       if c = 45 then map_option (\<lambda>res. wrap64 (- res)) (str_to_int_loop rest 0)
       else str_to_int_loop str 0)"

section \<open>Arrays of strings\<close>

text \<open>A null-terminated array of string pointers; \<^term>\<open>None\<close> is the null pointer.\<close>

fun count_str_arr_from :: "u8 list option list \<Rightarrow> u64 \<Rightarrow> u64 option" where
  "count_str_arr_from [] i = None"
| "count_str_arr_from (None # arr) i = Some i"
| "count_str_arr_from (Some s # arr) i = count_str_arr_from arr (i + 1)"

definition count_str_arr :: "u8 list option list \<Rightarrow> u64 option" where
  "count_str_arr arr = count_str_arr_from arr 0"

fun total_memsize_from :: "u8 list option list \<Rightarrow> u64 \<Rightarrow> u64 option" where
  "total_memsize_from [] tot = None"
| "total_memsize_from (None # arr) tot = Some (tot + 8)"
| "total_memsize_from (Some s # arr) tot = do { n \<leftarrow> strlen s; total_memsize_from arr (tot + (n + 1)) }"

definition total_memsize_str_arr :: "u8 list option list \<Rightarrow> u64 option" where
  "total_memsize_str_arr arr = total_memsize_from arr 0"

text \<open>
  \<^verbatim>\<open>copy_str_arr\<close>: the pointers stored into \<open>dest\<close> are offsets into \<open>data\<close>.
\<close>

fun copy_str_arr_from :: "u8 list option list \<Rightarrow> nat \<Rightarrow> u64 \<Rightarrow> u8 list \<Rightarrow> u64 option list \<Rightarrow> (u8 list \<times> u64 option list) option" where
  "copy_str_arr_from [] i pointer data dest = None"
| "copy_str_arr_from (None # src) i pointer data dest =
     do { dest' \<leftarrow> upd_opt dest i None; Some (data, dest') }"
| "copy_str_arr_from (Some s # src) i pointer data dest = do {
     data' \<leftarrow> strcpy_at data (unat pointer) s;
     dest' \<leftarrow> upd_opt dest i (Some pointer);
     n \<leftarrow> strlen s;
     copy_str_arr_from src (Suc i) (pointer + (n + 1)) data' dest' }"

definition copy_str_arr :: "u8 list option list \<Rightarrow> u8 list \<Rightarrow> u64 option list \<Rightarrow> (u8 list \<times> u64 option list) option" where
  "copy_str_arr src data dest = copy_str_arr_from src 0 0 data dest"

section \<open>What the loops compute\<close>

lemma put_all_spec:
  "put_all buf j xs = (if xs = [] \<or> j + length xs \<le> length buf then Some (put_slice j xs buf) else None)"
proof (induction xs arbitrary: buf j)
  case (Cons x xs)
  have "put_slice (Suc j) xs (buf[j := x]) = put_slice j (x # xs) buf" if "j < length buf"
    using that by (simp add: put_slice_def take_Suc_conv_app_nth)
  with Cons show ?case by (auto simp: upd_opt_def put_slice_def)
qed (simp add: put_slice_def)

lemma put_all_append: "put_all buf j (xs @ ys) = put_all buf j xs \<bind> (\<lambda>b. put_all b (j + length xs) ys)"
  by (induction xs arbitrary: buf j) (simp_all add: Option.bind_assoc)

lemma put_all_0: "length xs \<le> length buf \<Longrightarrow> put_all buf 0 xs = Some (xs @ drop (length xs) buf)"
  by (simp add: put_all_spec put_slice_def)

lemma terminated_Cons [simp]: "terminated (c # s) \<longleftrightarrow> c = 0 \<or> terminated s"
  by (auto simp: terminated_def)

lemma terminated_Nil [simp]: "\<not> terminated []"
  by (simp add: terminated_def)

lemma cstring_Cons [simp]: "cstring (c # s) = (if c = 0 then [] else c # cstring s)"
  by (simp add: cstring_def)

lemma cstring_Nil [simp]: "cstring [] = []"
  by (simp add: cstring_def)

lemma cstring_nonzero: "c \<in> set (cstring s) \<Longrightarrow> c \<noteq> 0"
  by (auto simp: cstring_def dest: set_takeWhileD)

lemma cstring_append: "0 \<notin> set xs \<Longrightarrow> cstring (xs @ ys) = xs @ cstring ys"
  by (induction xs) auto

lemma terminated_append: "terminated (xs @ ys) \<longleftrightarrow> terminated xs \<or> terminated ys"
  by (auto simp: terminated_def)

lemma terminated_split: "terminated s \<longleftrightarrow> (\<exists>t. s = cstring s @ 0 # t)"
  by (induction s) auto

lemma strlen_from_spec:
  "strlen_from s n = (if terminated s then Some (n + of_nat (length (cstring s))) else None)"
  by (induction s n rule: strlen_from.induct) (auto simp: algebra_simps)

lemma strlen_spec: "strlen s = (if terminated s then Some (of_nat (length (cstring s))) else None)"
  by (simp add: strlen_def strlen_from_spec)

lemma string_end_spec: "string_end s d = (if terminated s then Some (d + length (cstring s)) else None)"
  by (induction s d rule: string_end.induct) auto

lemma strcmp_spec:
  "\<lbrakk>terminated s; terminated t\<rbrakk> \<Longrightarrow> strcmp s t = Some (if cstring s = cstring t then 1 else 0)"
  by (induction s t rule: strcmp.induct) auto

lemma strcpy_at_spec:
  "strcpy_at dest d src = (if terminated src then put_all dest d (cstring src @ [0]) else None)"
  by (induction dest d src rule: strcpy_at.induct) (auto simp: upd_opt_def split: if_splits)

lemma append_chars_spec:
  "append_chars dest d s = (if terminated s
     then map_option (\<lambda>dest'. (dest', d + length (cstring s))) (put_all dest d (cstring s)) else None)"
  by (induction dest d s rule: append_chars.induct) (auto simp: upd_opt_def split: if_splits)

lemma substr_skip_spec:
  "terminated s \<Longrightarrow> \<exists>s'. substr_skip k s = Some s' \<and> terminated s' \<and> cstring s' = drop k (cstring s)"
  by (induction k s rule: substr_skip.induct) auto

lemma substr_copy_spec:
  "terminated s \<Longrightarrow> substr_copy k j dest s = put_all dest j (take k (cstring s) @ [0])"
  by (induction k j dest s rule: substr_copy.induct) (auto simp: upd_opt_def split: if_splits)

lemma wrap64_id: "\<lbrakk>- (2 ^ 63) \<le> x; x < 2 ^ 63\<rbrakk> \<Longrightarrow> wrap64 x = x"
  by (simp add: wrap64_def signed_of_int signed_take_bit_int_eq_self)

fun digits :: "int \<Rightarrow> u8 list" where
  "digits num = (if num > 0 then word_of_int (48 + num mod 10) # digits (num div 10) else [])"
declare digits.simps [simp del]

lemma digits_nonpos [simp]: "num \<le> 0 \<Longrightarrow> digits num = []"
  by (simp add: digits.simps)

lemma sdiv_nonneg: "0 \<le> (n :: int) \<Longrightarrow> n sdiv 10 = n div 10" "0 \<le> n \<Longrightarrow> n smod 10 = n mod 10"
  by (auto simp: signed_divide_int_def signed_modulo_int_def sgn_if)

lemma num_digits_spec:
  "num_digits num tmp = (if digits num = [] \<or> length tmp + length (digits num) \<le> 32 then Some (tmp @ digits num) else None)"
proof (induction num tmp rule: num_digits.induct)
  case (1 num tmp)
  show ?case
  proof (cases "num > 0")
    case True
    note S = num_digits.simps [of num tmp] digits.simps [of num]
    show ?thesis
      using 1 True by (auto simp: S sdiv_nonneg)
  qed (simp add: digits.simps [of num] num_digits.simps [of num tmp])
qed

lemma length_digits: "num < 10 ^ k \<Longrightarrow> length (digits num) \<le> k"
proof (induction k arbitrary: num)
  case (Suc k)
  then have "num div 10 < 10 ^ k" by simp
  with Suc.IH show ?case by (simp add: digits.simps [of num])
qed (simp add: digits.simps)

lemma sint_digit: "0 \<le> d \<Longrightarrow> d < 10 \<Longrightarrow> sint (word_of_int (48 + d) :: u8) = 48 + d"
  by (subst signed_of_int) (simp add: signed_take_bit_int_eq_self)

lemma digit_nonzero: "0 \<le> d \<Longrightarrow> d < 10 \<Longrightarrow> (word_of_int (48 + d) :: u8) \<noteq> 0"
  using sint_digit [of d] by (metis add_increasing add_nonneg_eq_0_iff signed_0 zero_le_numeral zero_neq_numeral)

lemma digits_nonzero: "c \<in> set (digits num) \<Longrightarrow> c \<noteq> 0"
proof (induction num rule: digits.induct)
  case (1 num)
  show ?case
  proof (cases "num > 0")
    case True
    with 1 digit_nonzero [of "num mod 10"] show ?thesis by (auto simp: digits.simps [of num])
  qed (use 1 in \<open>simp add: digits.simps [of num]\<close>)
qed

lemma str_loop_append:
  "0 \<notin> set xs \<Longrightarrow> str_to_int_loop (xs @ ys) r =
     str_to_int_loop ys (foldl (\<lambda>r c. wrap64 (r * 10 + (sint c - 48))) r xs)"
  by (induction xs arbitrary: r) auto

lemma foldl_digits:
  "\<lbrakk>0 \<le> num; num < 2 ^ 63\<rbrakk> \<Longrightarrow> foldl (\<lambda>r c. wrap64 (r * 10 + (sint c - 48))) 0 (rev (digits num)) = num"
proof (induction num rule: digits.induct)
  case (1 num)
  show ?case
  proof (cases "num > 0")
    case True
    then have "foldl (\<lambda>r c. wrap64 (r * 10 + (sint c - 48))) 0 (rev (digits (num div 10))) = num div 10"
      using 1 by simp
    moreover have "num div 10 * 10 + (48 + num mod 10 - 48) = num" by simp
    ultimately show ?thesis
      using True 1 sint_digit [of "num mod 10"] wrap64_id [of num] by (simp add: digits.simps [of num])
  qed (use 1 in \<open>simp add: digits.simps [of num]\<close>)
qed

lemma put_all_terminate:
  "length xs < length buf \<Longrightarrow>
     put_all buf 0 xs \<bind> (\<lambda>b. upd_opt b (length xs) z) = Some (xs @ z # drop (Suc (length xs)) buf)"
  by (auto simp: put_all_spec put_slice_def upd_opt_def list_update_append Cons_nth_drop_Suc [symmetric])

lemma num_to_str_spec:
  assumes "- (2 ^ 63) < num" "num < 2 ^ 63" "21 \<le> length buf"
  defines "xs \<equiv> (if num = 0 then [48] else if num < 0 then 45 # rev (digits (- num)) else rev (digits num))"
  shows "num_to_str num buf = Some (xs @ 0 # drop (Suc (length xs)) buf)"
proof -
  have L: "length (digits n) \<le> 19" if "n < 2 ^ 63" for n
    using that by (intro length_digits) simp
  consider "num = 0" | "num < 0" | "num > 0" by linarith
  then show ?thesis
  proof cases
    case 1
    then obtain a b r where "buf = a # b # r" using assms(3) by (cases buf; cases "tl buf") auto
    with 1 show ?thesis by (simp add: num_to_str_def xs_def upd_opt_def)
  next
    case 2
    then have "wrap64 (- num) = - num" "- num < 2 ^ 63" using assms by (auto intro!: wrap64_id)
    with 2 L [of "- num"] assms(3) show ?thesis
      using put_all_terminate [of xs buf 0]
      by (simp add: num_to_str_def xs_def num_digits_spec)
  next
    case 3
    with L [of num] assms show ?thesis
      using put_all_terminate [of xs buf 0]
      by (simp add: num_to_str_def num_digits_spec)
  qed
qed

lemma str_to_int_digits:
  assumes "0 \<le> num" "num < 2 ^ 63"
  shows "str_to_int_loop (rev (digits num) @ 0 # t) 0 = Some num"
proof -
  have "0 \<notin> set (rev (digits num))" using digits_nonzero by auto
  then show ?thesis using foldl_digits [OF assms] by (simp add: str_loop_append)
qed

lemma digits_no_minus: "c \<in> set (digits num) \<Longrightarrow> c \<noteq> 45"
proof (induction num rule: digits.induct)
  case (1 num)
  show ?case
  proof (cases "num > 0")
    case True
    have "(word_of_int (48 + num mod 10) :: u8) \<noteq> 45"
    proof
      assume "(word_of_int (48 + num mod 10) :: u8) = 45"
      then have "sint (45 :: u8) = 48 + num mod 10" using sint_digit [of "num mod 10"] by (metis pos_mod_bound pos_mod_sign zero_less_numeral)
      moreover have "0 \<le> num mod 10" by simp
      ultimately show False by simp
    qed
    with 1 True show ?thesis by (auto simp: digits.simps [of num])
  qed (use 1 in simp)
qed

lemma str_to_int_nonneg:
  assumes "0 < num" "num < 2 ^ 63"
  shows "str_to_int (rev (digits num) @ 0 # t) = Some num"
proof -
  from assms have "digits num \<noteq> []" by (simp add: digits.simps [of num])
  then obtain c cs where c: "rev (digits num) = c # cs" by (cases "rev (digits num)") auto
  then have "c \<in> set (digits num)" by (metis list.set_intros(1) set_rev)
  then have "c \<noteq> 45" by (rule digits_no_minus)
  with c show ?thesis using str_to_int_digits [of num t] assms by (simp add: str_to_int_def)
qed

definition packed_size :: "u8 list list \<Rightarrow> nat" where
  "packed_size ss = sum_list (map (\<lambda>s. length (cstring s) + 1) ss)"

lemma packed_size_simps [simp]:
  "packed_size [] = 0" "packed_size (s # ss) = length (cstring s) + 1 + packed_size ss"
  by (simp_all add: packed_size_def)

lemma cstring_drop_put:
  assumes "take (p + Suc (length xs)) d = take (p + Suc (length xs)) (put_slice p (xs @ [0]) d0)"
    "0 \<notin> set xs" "p + Suc (length xs) \<le> length d0"
  shows "cstring (drop p d) = xs"
proof -
  have "take (Suc (length xs)) (drop p d) = drop p (take (p + Suc (length xs)) d)"
    by (simp add: take_drop add.commute)
  also have "\<dots> = xs @ [0]" using assms(1,3) by (simp add: put_slice_def)
  finally have "drop p d = xs @ 0 # drop (Suc (length xs)) (drop p d)"
    by (metis append_Cons append_Nil append_assoc append_take_drop_id)
  then show ?thesis using cstring_append [OF assms(2)] by (metis append.right_neutral cstring_Cons)
qed

lemma copy_str_arr_from_spec:
  assumes "\<forall>s\<in>set ss. terminated s" "unat p + packed_size ss \<le> length data" "length data < 2 ^ 64"
    "i + length ss < length dest"
  shows "\<exists>data' dest'. copy_str_arr_from (map Some ss @ None # rest) i p data dest = Some (data', dest')
    \<and> length data' = length data \<and> take (unat p) data' = take (unat p) data
    \<and> length dest' = length dest \<and> take i dest' = take i dest \<and> dest' ! (i + length ss) = None
    \<and> (\<forall>k<length ss. dest' ! (i + k) = Some (p + of_nat (packed_size (take k ss)))
         \<and> cstring (drop (unat p + packed_size (take k ss)) data') = cstring (ss ! k))"
  using assms
proof (induction ss arbitrary: i p data dest)
  case Nil
  then show ?case by (simp add: upd_opt_def)
next
  case (Cons s ss)
  let ?n = "length (cstring s)" and ?p = "p + (of_nat (length (cstring s)) + 1)"
  let ?data = "put_slice (unat p) (cstring s @ [0]) data"
  have up: "unat ?p = unat p + Suc ?n"
  proof -
    have "unat p + Suc ?n < 2 ^ LENGTH(64)" using Cons.prems by simp
    moreover have "?p = of_nat (unat p + Suc ?n)" by simp
    ultimately show ?thesis by (metis unat_of_nat_lt)
  qed
  have fits: "unat p + Suc ?n \<le> length data" "i < length dest" "terminated s" using Cons.prems by auto
  have "\<forall>s\<in>set ss. terminated s" "unat ?p + packed_size ss \<le> length ?data" "length ?data < 2 ^ 64"
    "Suc i + length ss < length (dest[i := Some p])"
    using Cons.prems up by auto
  from Cons.IH [OF this] obtain data' dest' where IH:
    "copy_str_arr_from (map Some ss @ None # rest) (Suc i) ?p ?data (dest[i := Some p]) = Some (data', dest')"
    "length data' = length ?data" "take (unat ?p) data' = take (unat ?p) ?data"
    "length dest' = length (dest[i := Some p])" "take (Suc i) dest' = take (Suc i) (dest[i := Some p])"
    "dest' ! (Suc i + length ss) = None"
    "\<forall>k<length ss. dest' ! (Suc i + k) = Some (?p + of_nat (packed_size (take k ss)))
         \<and> cstring (drop (unat ?p + packed_size (take k ss)) data') = cstring (ss ! k)"
    by blast
  have run: "copy_str_arr_from (map Some (s # ss) @ None # rest) i p data dest = Some (data', dest')"
    using IH(1) fits by (simp add: strcpy_at_spec put_all_spec upd_opt_def strlen_spec)
  have 0: "dest' ! i = Some p" using IH(5) fits by (metis lessI nth_list_update_eq nth_take)
  have s: "cstring (drop (unat p) data') = cstring s"
    using IH(3) fits cstring_nonzero [of _ s] unfolding up by (intro cstring_drop_put) auto
  have "take (unat p) data' = take (unat p) data"
    using arg_cong [OF IH(3), of "take (unat p)"] fits unfolding up by (simp add: put_slice_def)
  moreover have "take i dest' = take i dest"
    using arg_cong [OF IH(5), of "take i"] by simp
  moreover have "dest' ! (i + k) = Some (p + of_nat (packed_size (take k (s # ss))))
      \<and> cstring (drop (unat p + packed_size (take k (s # ss))) data') = cstring ((s # ss) ! k)"
    if "k < length (s # ss)" for k
    using that 0 s IH(7) unfolding up by (cases k) (auto simp: algebra_simps)
  ultimately show ?case using run IH fits by auto
qed

lemma strcat_spec:
  assumes "terminated dest" "terminated t" "length (cstring dest) + length (cstring t) < length dest"
  shows "strcat dest t =
    Some (cstring dest @ cstring t @ 0 # drop (Suc (length (cstring dest) + length (cstring t))) dest)"
proof -
  obtain r where "dest = cstring dest @ 0 # r" using assms(1) terminated_split by blast
  then have "take (length (cstring dest)) dest = cstring dest" by (metis append_eq_conv_conj)
  with assms show ?thesis
    by (simp add: strcat_def string_end_spec strcpy_at_spec put_all_spec put_slice_def)
qed

lemma strconcat_spec:
  assumes "terminated s" "terminated t"
  shows "strconcat dest s t = put_all dest 0 (cstring s @ cstring t @ [0])"
  using assms unfolding put_all_append
  by (cases "put_all dest 0 (cstring s)")
    (auto simp: strconcat_def append_chars_spec bind_map_option comp_def)

lemma substr_spec:
  assumes "terminated s"
  shows "substr dest s start len = put_all dest 0 (take (unat len) (drop (unat start) (cstring s)) @ [0])"
  using substr_skip_spec [OF assms, of "unat start"] by (auto simp: substr_def substr_copy_spec)

section \<open>Properties\<close>

text \<open>
  C32. \<^verbatim>\<open>num_to_str\<close> followed by \<^verbatim>\<open>str_to_int\<close> gives the number back, for
  every 64-bit number but the least one, in a buffer of 21 bytes or more, and no
  access leaves the buffers.
\<close>

theorem num_to_str_roundtrip:
  assumes "- (2 ^ 63) < num" "num < 2 ^ 63" "21 \<le> length buf"
  shows "\<exists>buf'. num_to_str num buf = Some buf' \<and> length buf' = length buf \<and> str_to_int buf' = Some num"
proof -
  consider "num = 0" | "num < 0" | "num > 0" by linarith
  then have "str_to_int ((if num = 0 then [48] else if num < 0 then 45 # rev (digits (- num)) else rev (digits num)) @ 0 # t) = Some num" for t
  proof cases
    case 1
    then show ?thesis by (simp add: str_to_int_def wrap64_id)
  next
    case 2
    then show ?thesis using assms str_to_int_digits [of "- num" t] wrap64_id [of num] by (simp add: str_to_int_def)
  next
    case 3
    then show ?thesis using assms by (simp add: str_to_int_nonneg)
  qed
  moreover have "length (digits num) \<le> 19" "length (digits (- num)) \<le> 19"
    using assms by (auto intro!: length_digits)
  ultimately show ?thesis using assms num_to_str_spec [OF assms] by auto
qed

theorem num_to_str_roundtrip_witness:
  "\<exists>buf'. num_to_str (- 120) (replicate 21 0) = Some buf' \<and> length buf' = length (replicate 21 (0 :: u8))
     \<and> str_to_int buf' = Some (- 120)"
  by (rule num_to_str_roundtrip) simp_all

text \<open>The least 64-bit number has no positive counterpart: only the sign is printed.\<close>

lemma num_to_str_int64_min:
  assumes "2 \<le> length buf"
  shows "num_to_str (- (2 ^ 63)) buf = Some (45 # 0 # drop 2 buf)"
proof -
  have "wrap64 (2 ^ 63) = - (2 ^ 63)" by (simp add: wrap64_def)
  then show ?thesis
    using put_all_terminate [of "[45]" buf 0] assms
    by (simp add: num_to_str_def num_digits_spec numeral_2_eq_2)
qed

text \<open>
  On terminated strings \<^verbatim>\<open>strcmp\<close> answers 1 when they are equal and 0
  otherwise, and \<^verbatim>\<open>strequal\<close> decides equality.
\<close>

theorem strcmp_decides:
  assumes "terminated s" "terminated t"
  shows "strcmp s t = Some (if cstring s = cstring t then 1 else 0)
    \<and> strequal s t = Some (cstring s = cstring t)"
  using assms by (simp add: strcmp_spec strequal_def)

theorem strcmp_decides_witness:
  "strcmp [97, 0, 98] [97, 0] = Some (if cstring [97, 0, 98 :: u8] = cstring [97, 0] then 1 else 0)
    \<and> strequal [97, 0, 98] [97, 0] = Some (cstring [97, 0, 98 :: u8] = cstring [97, 0])"
  by (rule strcmp_decides) (simp_all add: terminated_def)

text \<open>
  The building operations are exact when the destination has room for the
  result and its terminator: \<^verbatim>\<open>strcat\<close> appends, \<^verbatim>\<open>strconcat\<close> concatenates,
  \<^verbatim>\<open>substr\<close> cuts, and nothing behind the terminator changes.
\<close>

theorem strings_built:
  assumes "terminated s" "terminated t" "terminated dest"
    "length (cstring dest) + length (cstring t) < length dest"
    "length (cstring s) + length (cstring t) < length dest"
  shows "strcat dest t =
      Some (cstring dest @ cstring t @ 0 # drop (Suc (length (cstring dest) + length (cstring t))) dest)
    \<and> strconcat dest s t =
      Some (cstring s @ cstring t @ 0 # drop (Suc (length (cstring s) + length (cstring t))) dest)
    \<and> (\<exists>xs. xs = take (unat len) (drop (unat start) (cstring s))
        \<and> substr dest s start len = Some (xs @ 0 # drop (Suc (length xs)) dest))"
  using assms by (simp add: strcat_spec strconcat_spec substr_spec put_all_0)

theorem strings_built_witness:
  "strcat [97, 0, 1, 1] [98, 0] = Some [97, 98, 0, 1]
   \<and> strconcat [97, 0, 1, 1] [99, 100, 0] [98, 0] = Some [99, 100, 98, 0]
   \<and> substr [97, 0, 1, 1] [99, 100, 0] 1 5 = Some [100, 0, 1, 1]"
  using strings_built [of "[99, 100, 0]" "[98, 0]" "[97, 0, 1, 1]" 5 1]
  by (simp add: terminated_def)

text \<open>
  \<^verbatim>\<open>copy_str_arr\<close>, which moves the argument vector of a new program:
  after it every pointer of the new array points at a copy of the string the old
  array had there, and the new array is terminated by a null pointer.
\<close>

theorem copy_str_arr_correct:
  assumes "\<forall>s\<in>set ss. terminated s" "packed_size ss \<le> length data" "length data < 2 ^ 64"
    "length ss < length dest"
  shows "\<exists>data' dest' offs. copy_str_arr (map Some ss @ None # rest) data dest = Some (data', dest')
    \<and> length offs = length ss \<and> take (Suc (length ss)) dest' = map Some offs @ [None]
    \<and> map (\<lambda>off. cstring (drop (unat off) data')) offs = map cstring ss"
proof -
  from copy_str_arr_from_spec [of ss 0 data 0 dest rest] assms
  obtain data' dest' where R: "copy_str_arr (map Some ss @ None # rest) data dest = Some (data', dest')"
    "length dest' = length dest" "dest' ! length ss = None"
    "\<forall>k<length ss. dest' ! k = Some (of_nat (packed_size (take k ss)))
       \<and> cstring (drop (packed_size (take k ss)) data') = cstring (ss ! k)"
    by (auto simp: copy_str_arr_def)
  define offs where "offs = map (\<lambda>k. of_nat (packed_size (take k ss)) :: u64) [0..<length ss]"
  have "packed_size (take k ss) \<le> packed_size ss" for k
    unfolding packed_size_def by (metis append_take_drop_id le_add1 map_append sum_list_append)
  then have "unat (of_nat (packed_size (take k ss)) :: u64) = packed_size (take k ss)" for k
    using assms(2,3) by (intro unat_of_nat_lt) (simp, meson le_less_trans)
  then have "map (\<lambda>off. cstring (drop (unat off) data')) offs = map cstring ss"
    using R(4) by (intro nth_equalityI) (simp_all add: offs_def)
  moreover have "take (Suc (length ss)) dest' = map Some offs @ [None]"
    using R(2-4) assms(4) by (intro nth_equalityI) (auto simp: offs_def nth_append less_Suc_eq)
  moreover have "length offs = length ss" by (simp add: offs_def)
  ultimately show ?thesis using R(1) by blast
qed

theorem copy_str_arr_correct_witness:
  "\<exists>data' dest' offs. copy_str_arr (map Some [[108, 115, 0], [45, 108, 0]] @ None # []) (replicate 6 0) (replicate 3 None) = Some (data', dest')
    \<and> length offs = length [[108, 115, 0], [45, 108, 0 :: u8]]
    \<and> take (Suc (length [[108, 115, 0], [45, 108, 0 :: u8]])) dest' = map Some offs @ [None]
    \<and> map (\<lambda>off. cstring (drop (unat off) data')) offs = map cstring [[108, 115, 0], [45, 108, 0]]"
  by (rule copy_str_arr_correct) (simp_all add: terminated_def)

section \<open>Decimal numerals\<close>

definition decimal :: "int \<Rightarrow> u8 list" where
  "decimal n = (if n = 0 then [48] else rev (digits n))"

lemma str_to_int_decimal: "\<lbrakk>0 \<le> n; n < 2 ^ 63\<rbrakk> \<Longrightarrow> str_to_int (decimal n @ 0 # t) = Some n"
  using str_to_int_nonneg [of n t] by (cases "n = 0") (auto simp: decimal_def str_to_int_def wrap64_def)

lemma digits_chars: "c \<in> set (digits n) \<Longrightarrow> 48 \<le> c \<and> c \<le> 57"
proof (induction n rule: digits.induct)
  case (1 n)
  have *: "48 \<le> (word_of_int (48 + n mod 10) :: u8) \<and> (word_of_int (48 + n mod 10) :: u8) \<le> 57"
  proof -
    have "n mod 10 \<in> {0, 1, 2, 3, 4, 5, 6, 7, 8, 9}" by auto presburger
    then show ?thesis by (elim insertE emptyE) simp_all
  qed
  show ?case using 1 * by (cases "0 < n") (auto simp: digits.simps [of n])
qed

lemma decimal_chars: "c \<in> set (decimal n) \<Longrightarrow> 48 \<le> c \<and> c \<le> 57"
  by (auto simp: decimal_def dest: digits_chars split: if_splits)

lemma length_decimal: "n < 2 ^ 63 \<Longrightarrow> length (decimal n) < 32"
  using length_digits [of n 19] by (simp add: decimal_def)

end
