(* ===== verification/Timekeeping.thy ===== *)
theory Timekeeping
  imports Cstring
begin

text \<open>
  The clock: \<^verbatim>\<open>src/core/time.h\<close> and the time system calls of
  \<^verbatim>\<open>src/core/syscall/syscall3.h\<close>.

  The hardware is a parameter.  The registers of the real-time clock are a
  function from register numbers to bytes; the successive readings of its status
  register A that one call sees are a list, so a clock that stays busy for longer
  than the list gives no result; the time stamp counter and the answers of
  \<^verbatim>\<open>cpuid\<close> are arguments.  C \<^verbatim>\<open>int\<close> values are integers with the truncating
  division of C.
\<close>

record timeval =
  tv_sec :: u64
  tv_microsec :: u32

record timespec =
  ts_sec :: u64
  tv_nanosec :: u64

type_synonym cmos = "u8 \<Rightarrow> u8"

section \<open>The real-time clock\<close>

definition bcd_to_bin :: "int \<Rightarrow> int" where
  "bcd_to_bin val = (val AND 0x0F) + drop_bit 4 val * 10"

definition bin_to_bcd :: "int \<Rightarrow> int" where
  "bin_to_bcd val = (let tens = val sdiv 10; units = val smod 10 in push_bit 4 tens OR units)"

definition rtc_update_in_progress :: "u8 \<Rightarrow> bool" where
  "rtc_update_in_progress regA = (regA AND 0x80 \<noteq> 0)"

definition is_leap :: "int \<Rightarrow> bool" where
  "is_leap year = (year smod 4 = 0 \<and> (year smod 100 \<noteq> 0 \<or> year smod 400 = 0))"

definition days_in_month :: "int list" where
  "days_in_month = [31, 28, 31, 30, 31, 30, 31, 31, 30, 31, 30, 31]"

text \<open>The two loops of \<^verbatim>\<open>days_since_epoch\<close>; the first argument counts the iterations left.\<close>

fun year_loop :: "nat \<Rightarrow> int \<Rightarrow> u64 \<Rightarrow> u64" where
  "year_loop 0 y days = days"
| "year_loop (Suc k) y days = year_loop k (y + 1) (days + (if is_leap y then 366 else 365))"

fun month_loop :: "nat \<Rightarrow> int \<Rightarrow> int \<Rightarrow> u64 \<Rightarrow> u64 option" where
  "month_loop 0 m year days = Some days"
| "month_loop (Suc k) m year days = do {
     d \<leftarrow> nth_opt days_in_month (nat (m - 1));
     month_loop k (m + 1) year (days + of_int d + (if m = 2 \<and> is_leap year then 1 else 0)) }"

definition days_since_epoch :: "int \<Rightarrow> int \<Rightarrow> int \<Rightarrow> u64 option" where
  "days_since_epoch year month day = do {
     days \<leftarrow> month_loop (nat (month - 1)) 1 year (year_loop (nat (year - 1970)) 1970 0);
     Some (days + of_int (day - 1)) }"

definition timespec_to_timeval :: "timespec \<Rightarrow> timeval" where
  "timespec_to_timeval ts = \<lparr>tv_sec = ts_sec ts, tv_microsec = ucast (tv_nanosec ts div 1000)\<rparr>"

fun rtc_wait :: "u8 list \<Rightarrow> unit option" where
  "rtc_wait [] = None"
| "rtc_wait (regA # st) = (if rtc_update_in_progress regA then rtc_wait st else Some ())"

definition get_epoch_seconds :: "u8 list \<Rightarrow> cmos \<Rightarrow> u64 option" where
  "get_epoch_seconds st cmos = do {
     _ \<leftarrow> rtc_wait st;
     let conv = (\<lambda>v. if cmos 0x0B AND 0x04 = 0 then bcd_to_bin v else v);
         sec = conv (uint (cmos 0x00));
         minute = conv (uint (cmos 0x02));
         hour = conv (uint (cmos 0x04));
         day = conv (uint (cmos 0x07));
         mon = conv (uint (cmos 0x08));
         year = conv (uint (cmos 0x09));
         cent = (if cmos 0x32 \<noteq> 0 then bcd_to_bin (uint (cmos 0x32)) else 20);
         full_year = cent * 100 + year
     in do {
       days \<leftarrow> days_since_epoch full_year mon day;
       Some (days * 86400 + of_int hour * 3600 + of_int minute * 60 + of_int sec)
     } }"

text \<open>
  \<^verbatim>\<open>rtc_write_datetime\<close>: the register stores in the order of the source; the
  century register is left alone (its store is commented out).
\<close>

definition rtc_write_datetime :: "cmos \<Rightarrow> int \<Rightarrow> int \<Rightarrow> int \<Rightarrow> int \<Rightarrow> int \<Rightarrow> int \<Rightarrow> cmos" where
  "rtc_write_datetime cmos year mon day hour minute sec =
     (let regB = cmos 0x0B;
          is_binary = (regB AND 0x04 \<noteq> 0);
          y2 = year smod 100;
          conv = (\<lambda>v. word_of_int (if is_binary then v else bin_to_bcd v) :: u8)
      in cmos(0x0B := regB OR 0x80, 0x00 := conv sec, 0x02 := conv minute, 0x04 := conv hour,
              0x07 := conv day, 0x08 := conv mon, 0x09 := conv y2, 0x0B := regB AND NOT 0x80))"

section \<open>The time stamp counter\<close>

type_synonym cpuid_leaves = "u32 \<Rightarrow> u32 \<times> u32 \<times> u32 \<times> u32"

definition has_invariant_tsc :: "cpuid_leaves \<Rightarrow> bool" where
  "has_invariant_tsc cpuid = (let (a, b, c, d) = cpuid 0x80000007 in drop_bit 8 d AND 1 \<noteq> 0)"

definition get_tsc_hz :: "cpuid_leaves \<Rightarrow> u64" where
  "get_tsc_hz cpuid =
     (let (a, b, c, d) = cpuid 0x15
      in if a \<noteq> 0 \<and> b \<noteq> 0 then
           (let crystal = (if c \<noteq> 0 then ucast c else 24000000 :: u64)
            in (crystal * ucast b) div ucast a)
         else (let (a, b, c, d) = cpuid 0x16
               in if a \<noteq> 0 then ucast a * 1000000 else 3000000000))"

text \<open>The frequency is kept in a static variable; the result holds its new value.\<close>

definition get_time_ns_in_second :: "cpuid_leaves \<Rightarrow> u64 \<Rightarrow> u64 \<Rightarrow> (u64 \<times> u64) option" where
  "get_time_ns_in_second cpuid rdtsc tsc_hz =
     (let tsc_hz' = (if tsc_hz < 10 then get_tsc_hz cpuid else tsc_hz);
          cycles = rdtsc * 100
      in if tsc_hz' = 0 then None
         else Some (((cycles * 1000000000) div tsc_hz') mod 1000000000, tsc_hz'))"

definition get_time_us :: "u8 list \<Rightarrow> cmos \<Rightarrow> cpuid_leaves \<Rightarrow> u64 \<Rightarrow> u64 \<Rightarrow> (timeval \<times> u64) option" where
  "get_time_us st cmos cpuid rdtsc tsc_hz = do {
     s \<leftarrow> get_epoch_seconds st cmos;
     (ns, tsc_hz') \<leftarrow> get_time_ns_in_second cpuid rdtsc tsc_hz;
     Some (\<lparr>tv_sec = s, tv_microsec = ucast (ns div 1000)\<rparr>, tsc_hz') }"

definition get_time_s :: "u8 list \<Rightarrow> cmos \<Rightarrow> u64 option" where
  "get_time_s st cmos = get_epoch_seconds st cmos"

section \<open>Comparing and adding times\<close>

definition later :: "timeval \<Rightarrow> timeval \<Rightarrow> bool" where
  "later a b = (if tv_sec a > tv_sec b then True else if tv_sec a < tv_sec b then False
     else tv_microsec a > tv_microsec b)"

definition later_eq :: "timeval \<Rightarrow> timeval \<Rightarrow> bool" where
  "later_eq a b = (if tv_sec a > tv_sec b then True else if tv_sec a < tv_sec b then False
     else tv_microsec a \<ge> tv_microsec b)"

definition earlier :: "timeval \<Rightarrow> timeval \<Rightarrow> bool" where
  "earlier a b = (if tv_sec a > tv_sec b then False else if tv_sec a < tv_sec b then True
     else tv_microsec a < tv_microsec b)"

definition earlier_eq :: "timeval \<Rightarrow> timeval \<Rightarrow> bool" where
  "earlier_eq a b = (if tv_sec a > tv_sec b then False else if tv_sec a < tv_sec b then True
     else tv_microsec a \<le> tv_microsec b)"

text \<open>The source assigns where it means to compare; this is the value it returns.\<close>

definition same_time :: "timeval \<Rightarrow> timeval \<Rightarrow> bool" where
  "same_time a b = (tv_sec b \<noteq> 0 \<and> tv_microsec a = tv_microsec b)"

definition add_time :: "timeval \<Rightarrow> timeval \<Rightarrow> timeval" where
  "add_time a b =
     (let sec = tv_sec a + tv_sec b;
          milisec_total = tv_microsec a + tv_microsec b
      in \<lparr>tv_sec = (if milisec_total div 1000000 \<noteq> 0 then sec + 1 else sec),
          tv_microsec = milisec_total mod 1000000\<rparr>)"

text \<open>
  In \<^verbatim>\<open>subtract_time\<close> the difference of the two unsigned fields is computed in
  32 bits and only then widened to a signed number.
\<close>

definition subtract_time :: "timeval \<Rightarrow> timeval \<Rightarrow> timeval" where
  "subtract_time a b =
     (if earlier a b then \<lparr>tv_sec = 0, tv_microsec = 0\<rparr>
      else (let sec = tv_sec a - tv_sec b;
                milisec_subtracted = uint (tv_microsec a - tv_microsec b)
            in if milisec_subtracted < 0
               then \<lparr>tv_sec = sec - 1, tv_microsec = word_of_int (1000000 + milisec_subtracted)\<rparr>
               else \<lparr>tv_sec = sec, tv_microsec = word_of_int milisec_subtracted\<rparr>))"

definition us_to_timeval :: "u32 \<Rightarrow> timeval" where
  "us_to_timeval us = \<lparr>tv_sec = ucast (us div 1000000), tv_microsec = us mod 1000000\<rparr>"

definition add_time_us :: "timeval \<Rightarrow> u32 \<Rightarrow> timeval" where
  "add_time_us a add_us = add_time a (us_to_timeval add_us)"

definition subtract_time_us :: "timeval \<Rightarrow> u32 \<Rightarrow> timeval" where
  "subtract_time_us a sub_us = subtract_time a (us_to_timeval sub_us)"

section \<open>Random numbers\<close>

definition mix64 :: "u64 \<Rightarrow> u64" where
  "mix64 mix0 =
     (let mix1 = mix0 XOR drop_bit 33 mix0;
          mix2 = mix1 * 0xff51afd7ed558ccd;
          mix3 = mix2 XOR drop_bit 33 mix2;
          mix4 = mix3 * 0xc4ceb9fe1a85ec53
      in mix4 XOR drop_bit 33 mix4)"

definition rand64 :: "u64 \<Rightarrow> u64 \<Rightarrow> u64" where
  "rand64 tsc time = mix64 (tsc XOR push_bit 32 time)"

definition rand32 :: "u64 \<Rightarrow> u64 \<Rightarrow> u32" where
  "rand32 tsc time = ucast (rand64 tsc time)"

definition rand_range :: "u64 \<Rightarrow> u64 \<Rightarrow> u64 \<Rightarrow> u64 option" where
  "rand_range r lo hi =
     (if hi \<le> lo then Some lo
      else if hi - lo + 1 = 0 then None
      else Some (lo + r mod (hi - lo + 1)))"

text \<open>
  \<^verbatim>\<open>sys_getrandom\<close>: \<open>rnd\<close> gives the number the call of \<^verbatim>\<open>rand64\<close> at each
  offset returns; the first argument counts the bytes left.
\<close>

definition le_bytes :: "u64 \<Rightarrow> u8 list" where
  "le_bytes r = map (\<lambda>j. ucast (drop_bit (8 * j) r)) [0..<8]"

function getrandom_loop :: "nat \<Rightarrow> nat \<Rightarrow> (nat \<Rightarrow> u64) \<Rightarrow> u8 list \<Rightarrow> u8 list option" where
  "getrandom_loop left i rnd p =
     (if left = 0 then Some p
      else do {
        p' \<leftarrow> copy_bytes p i (le_bytes (rnd i)) 0 (if left \<ge> 8 then 8 else left);
        getrandom_loop (left - 8) (i + 8) rnd p' })"
  by pat_completeness auto
termination
  by (relation "measure (\<lambda>(left, _). left)") auto

declare getrandom_loop.simps [simp del]

definition sys_getrandom :: "(nat \<Rightarrow> u64) \<Rightarrow> u8 list option \<Rightarrow> u64 \<Rightarrow> (u8 list option \<times> int) option" where
  "sys_getrandom rnd buf buflen = (case buf of
     None \<Rightarrow> Some (None, - 1)
   | Some p \<Rightarrow> do { p' \<leftarrow> getrandom_loop (unat buflen) 0 rnd p; Some (Some p', sint buflen) })"

section \<open>The time system calls\<close>

definition sys_time :: "u8 list \<Rightarrow> cmos \<Rightarrow> u64 option \<Rightarrow> (u64 \<times> u64 option) option" where
  "sys_time st cmos user_buf = do {
     t \<leftarrow> get_time_s st cmos;
     Some (t, map_option (\<lambda>_. t) user_buf) }"

definition sys_gettimeofday :: "u8 list \<Rightarrow> cmos \<Rightarrow> cpuid_leaves \<Rightarrow> u64 \<Rightarrow> u64 \<Rightarrow> timeval option \<Rightarrow> (int \<times> timeval option \<times> u64) option" where
  "sys_gettimeofday st cmos cpuid rdtsc tsc_hz tv = (case tv of
     None \<Rightarrow> Some (- 1, None, tsc_hz)
   | Some _ \<Rightarrow> do {
       (t, hz) \<leftarrow> get_time_us st cmos cpuid rdtsc tsc_hz;
       Some (0, Some t, hz) })"

definition sys_clock_gettime :: "u8 list \<Rightarrow> cmos \<Rightarrow> cpuid_leaves \<Rightarrow> u64 \<Rightarrow> u64 \<Rightarrow> u64 \<Rightarrow> timespec option \<Rightarrow> (int \<times> timespec option \<times> u64) option" where
  "sys_clock_gettime st cmos cpuid rdtsc1 rdtsc2 tsc_hz tp = (case tp of
     None \<Rightarrow> Some (- 1, None, tsc_hz)
   | Some _ \<Rightarrow> do {
       (t, hz1) \<leftarrow> get_time_us st cmos cpuid rdtsc1 tsc_hz;
       (ns, hz2) \<leftarrow> get_time_ns_in_second cpuid rdtsc2 hz1;
       Some (0, Some \<lparr>ts_sec = tv_sec t, tv_nanosec = ns\<rparr>, hz2) })"

definition sys_clock_getres :: "timespec option \<Rightarrow> int \<times> timespec option" where
  "sys_clock_getres res = (case res of
     None \<Rightarrow> (- 1, None)
   | Some _ \<Rightarrow> (0, Some \<lparr>ts_sec = 0, tv_nanosec = 1\<rparr>))"

text \<open>The two search loops of \<^verbatim>\<open>sys_clock_settime\<close>.\<close>

function settime_year :: "u64 \<Rightarrow> int \<Rightarrow> u64 \<times> int" where
  "settime_year days year =
     (let diy = (if is_leap year then 366 else 365)
      in if days < diy then (days, year) else settime_year (days - diy) (wrap32 (year + 1)))"
  by pat_completeness auto
termination
  by (relation "measure (\<lambda>(days, _). unat days)") (auto simp: unat_sub not_less word_le_nat_alt split: if_splits)

declare settime_year.simps [simp del]

function settime_month :: "u64 \<Rightarrow> int \<Rightarrow> int \<Rightarrow> (u64 \<times> int) option" where
  "settime_month days mon year =
     (if 1 \<le> mon \<and> mon \<le> 12 then
        (let dim = of_int (days_in_month ! nat (mon - 1) + (if mon = 2 \<and> is_leap year then 1 else 0))
         in if days < dim then Some (days, mon) else settime_month (days - dim) (mon + 1) year)
      else None)"
  by pat_completeness auto
termination
  by (relation "measure (\<lambda>(_, mon, _). nat (13 - mon))") auto

declare settime_month.simps [simp del]

definition sys_clock_settime :: "cmos \<Rightarrow> timespec option \<Rightarrow> (int \<times> cmos) option" where
  "sys_clock_settime cmos tp = (case tp of
     None \<Rightarrow> Some (- 1, cmos)
   | Some ts \<Rightarrow>
       (let sec = ts_sec ts;
            days = sec div 86400;
            rem = sec mod 86400;
            hour = uint (rem div 3600);
            rem1 = rem mod 3600;
            minute = uint (rem1 div 60);
            s = uint (rem1 mod 60);
            (days1, year) = settime_year days 1970
        in do {
          (days2, mon) \<leftarrow> settime_month days1 1 year;
          Some (0, rtc_write_datetime cmos year mon (uint (days2 + 1)) hour minute s) }))"

section \<open>Reference definitions\<close>

text \<open>Lengths of years and months, and the days before a year and a month.\<close>

definition year_len :: "int \<Rightarrow> nat" where
  "year_len y = (if is_leap y then 366 else 365)"

definition month_len :: "int \<Rightarrow> nat \<Rightarrow> nat" where
  "month_len y m = nat (days_in_month ! (m - 1)) + (if m = 2 \<and> is_leap y then 1 else 0)"

definition years_before :: "nat \<Rightarrow> nat" where
  "years_before k = (\<Sum>i<k. year_len (1970 + int i))"

definition months_before :: "int \<Rightarrow> nat \<Rightarrow> nat" where
  "months_before y m = (\<Sum>i<m. month_len y (Suc i))"

text \<open>The day after, for the day \<open>d\<close> of month \<open>m\<close> of the year \<open>1970 + k\<close>.\<close>

definition next_date :: "nat \<Rightarrow> nat \<Rightarrow> nat \<Rightarrow> nat \<times> nat \<times> nat" where
  "next_date k m d =
     (if d < month_len (1970 + int k) m then (k, m, Suc d)
      else if m < 12 then (k, Suc m, 1)
      else (Suc k, 1, 1))"

definition day_number :: "nat \<Rightarrow> nat \<Rightarrow> nat \<Rightarrow> nat" where
  "day_number k m d = years_before k + months_before (1970 + int k) (m - 1) + (d - 1)"

definition time_us :: "timeval \<Rightarrow> nat" where
  "time_us t = unat (tv_sec t) * 1000000 + unat (tv_microsec t)"

definition time_wf :: "timeval \<Rightarrow> bool" where
  "time_wf t = (tv_microsec t < 1000000)"

lemma smod_nonneg: "\<lbrakk>0 \<le> y; 0 \<le> (n::int)\<rbrakk> \<Longrightarrow> y smod n = y mod n" "\<lbrakk>0 \<le> y; 0 \<le> n\<rbrakk> \<Longrightarrow> y sdiv n = y div n"
  by (auto simp: signed_divide_int_def signed_modulo_int_def sgn_if)

section \<open>The calendar\<close>

lemma year_loop_spec:
  "year_loop k y days = days + of_nat (\<Sum>i<k. year_len (y + int i))"
proof (induction k arbitrary: y days)
  case (Suc k)
  have "(\<Sum>i<Suc k. year_len (y + int i)) = year_len y + (\<Sum>i<k. year_len (y + 1 + int i))"
    by (simp only: sum.lessThan_Suc_shift) (simp add: algebra_simps)
  with Suc show ?case by (simp add: year_len_def)
qed simp

lemma length_days_in_month [simp]: "length days_in_month = 12"
  by (simp add: days_in_month_def)

lemma days_in_month_nonneg: "i < 12 \<Longrightarrow> 28 \<le> days_in_month ! i \<and> days_in_month ! i \<le> 31"
  by (auto simp: days_in_month_def less_Suc_eq numeral_eq_Suc)

lemma month_len_bounds: "j < 12 \<Longrightarrow> 28 \<le> month_len y (Suc j) \<and> month_len y (Suc j) \<le> 32"
  using days_in_month_nonneg [of j] by (auto simp: month_len_def)

lemma month_loop_spec:
  "j + k \<le> 12 \<Longrightarrow> month_loop k (1 + int j) y days = Some (days + of_nat (\<Sum>i<k. month_len y (Suc (j + i))))"
proof (induction k arbitrary: j days)
  case (Suc k)
  have "(\<Sum>i<Suc k. month_len y (Suc (j + i))) = month_len y (Suc j) + (\<Sum>i<k. month_len y (Suc (Suc j + i)))"
    by (simp only: sum.lessThan_Suc_shift) simp
  moreover have "1 + int j + 1 = 1 + int (Suc j)" by simp
  moreover have "(of_int (days_in_month ! j) :: u64) = of_nat (nat (days_in_month ! j))"
    using days_in_month_nonneg [of j] Suc.prems by (simp add: of_nat_nat)
  moreover have "1 + int j = 2 \<longleftrightarrow> Suc j = 2" by auto
  ultimately show ?case using Suc.IH [of "Suc j"] Suc.prems
    by (simp add: nth_opt_Some month_len_def add.assoc)
qed simp

lemma days_since_epoch_spec:
  assumes "0 < m" "m \<le> 13" "0 < d"
  shows "days_since_epoch (1970 + int k) (int m) (int d) =
    Some (of_nat (years_before k + months_before (1970 + int k) (m - 1) + (d - 1)))"
proof -
  have "month_loop (m - 1) (1 + int 0) (1970 + int k) (of_nat (years_before k)) =
      Some (of_nat (years_before k) + of_nat (months_before (1970 + int k) (m - 1)))"
    using month_loop_spec [of 0 "m - 1"] assms by (simp add: months_before_def)
  moreover have "nat (int m - 1) = m - 1" "(of_int (int d - 1) :: u64) = of_nat (d - 1)"
    using assms by (simp_all add: of_nat_diff)
  ultimately show ?thesis
    using year_loop_spec [of k 1970 0]
    by (simp add: days_since_epoch_def years_before_def)
qed

lemma year_of_months: "months_before y 12 = year_len y"
  by (simp add: months_before_def month_len_def year_len_def days_in_month_def eval_nat_numeral)

lemma wrap32_id: "\<lbrakk>- (2 ^ 31) \<le> x; x < 2 ^ 31\<rbrakk> \<Longrightarrow> wrap32 x = x"
  by (simp add: wrap32_def signed_of_int signed_take_bit_int_eq_self)

lemma settime_year_spec:
  assumes "unat days + k < 2 ^ 30"
  shows "\<exists>d k'. settime_year days (1970 + int k) = (d, 1970 + int k') \<and> k \<le> k'
     \<and> years_before k + unat days = years_before k' + unat d \<and> unat d < year_len (1970 + int k')"
  using assms
proof (induction "unat days" arbitrary: days k rule: less_induct)
  case less
  let ?y = "1970 + int k"
  define diy :: u64 where "diy = (if is_leap ?y then 366 else 365)"
  have u: "unat diy = year_len ?y" by (simp add: diy_def year_len_def)
  show ?case
  proof (cases "days < diy")
    case True
    then have "settime_year days ?y = (days, ?y)" by (simp add: settime_year.simps diy_def Let_def)
    with True u show ?thesis by (auto simp: word_less_nat_alt)
  next
    case False
    have w: "wrap32 (?y + 1) = 1970 + int (Suc k)" using less.prems by (simp add: wrap32_id)
    have s: "settime_year days ?y = settime_year (days - diy) (1970 + int (Suc k))"
      using False w by (subst settime_year.simps) (simp add: diy_def Let_def)
    have d: "unat (days - diy) + year_len ?y = unat days"
      using False u by (simp add: not_less word_le_nat_alt unat_sub)
    have "unat (days - diy) < unat days" "unat (days - diy) + Suc k < 2 ^ 30"
      using d less.prems by (auto simp: year_len_def split: if_splits)
    from less.hyps [OF this] s d show ?thesis
      by (fastforce simp: years_before_def)
  qed
qed

lemma settime_month_spec:
  assumes "j < 12" "unat days + months_before y j < year_len y"
  shows "\<exists>d m. settime_month days (1 + int j) y = Some (d, 1 + int m) \<and> m < 12
     \<and> months_before y j + unat days = months_before y m + unat d \<and> unat d < month_len y (Suc m)"
  using assms
proof (induction "12 - j" arbitrary: j days)
  case (Suc n)
  define dim :: u64 where "dim = of_int (days_in_month ! nat (1 + int j - 1) + (if 1 + int j = 2 \<and> is_leap y then 1 else 0))"
  have u: "unat dim = month_len y (Suc j)"
  proof -
    have "days_in_month ! j + (if j = 1 \<and> is_leap y then 1 else 0) = int (month_len y (Suc j))"
      using days_in_month_nonneg [of j] Suc.prems(1) by (simp add: month_len_def)
    moreover have "1 + int j = 2 \<longleftrightarrow> j = 1" by auto
    ultimately have "dim = of_int (int (month_len y (Suc j)))" unfolding dim_def by simp
    then have "dim = of_nat (month_len y (Suc j))" by simp
    moreover have "month_len y (Suc j) < 2 ^ LENGTH(64)"
      using month_len_bounds [of j y] Suc.prems(1) by simp
    ultimately show ?thesis by (metis unat_of_nat_lt)
  qed
  note S = settime_month.simps [of days "1 + int j" y] and M = months_before_def
  show ?case
  proof (cases "days < dim")
    case True
    then have "settime_month days (1 + int j) y = Some (days, 1 + int j)"
      using Suc.prems(1) by (simp add: S dim_def Let_def)
    with True u Suc.prems(1) show ?thesis by (auto simp: word_less_nat_alt)
  next
    case False
    have s: "settime_month days (1 + int j) y = settime_month (days - dim) (1 + int (Suc j)) y"
      using False Suc.prems(1) by (simp add: S dim_def Let_def add.commute)
    have d: "unat (days - dim) + month_len y (Suc j) = unat days"
      using False u by (simp add: not_less word_le_nat_alt unat_sub)
    have b: "unat (days - dim) + months_before y (Suc j) < year_len y"
      using d Suc.prems(2) by (simp add: M)
    then have "Suc j \<noteq> 12" using year_of_months [of y] by auto
    then have "Suc j < 12" using Suc.prems(1) by simp
    have m: "months_before y (Suc j) + unat (days - dim) = months_before y j + unat days"
      using d by (simp add: M)
    have "n = 12 - Suc j" using Suc.hyps(2) by simp
    from Suc.hyps(1) [OF this \<open>Suc j < 12\<close> b] show ?thesis unfolding s m .
  qed
qed simp

section \<open>Registers\<close>

lemma bcd_roundtrip:
  assumes "0 \<le> v" "v < 100"
  shows "bcd_to_bin (uint (word_of_int (bin_to_bcd v) :: u8)) = v"
proof -
  have t: "v sdiv 10 = v div 10" "v smod 10 = v mod 10" using assms by (simp_all add: smod_nonneg)
  define a b where "a = v div 10" and "b = v mod 10"
  have ab: "0 \<le> a" "a < 10" "0 \<le> b" "b < 10" "v = 10 * a + b" using assms by (auto simp: a_def b_def)
  have m: "x mod 16 = (x AND 0x0F)" for x :: int
    using take_bit_eq_mask [of 4 x] by (simp add: take_bit_eq_mod mask_eq_exp_minus_1)
  have "push_bit 4 a OR b = push_bit 4 a + b"
  proof (rule disjunctive_add [symmetric])
    fix n
    have "b = take_bit 4 b" using ab by (simp add: take_bit_int_eq_self)
    then show "\<not> bit (push_bit 4 a) n \<or> \<not> bit b n"
      by (metis bit_push_bit_iff bit_take_bit_iff not_less)
  qed
  then have e: "bin_to_bcd v = 16 * a + b"
    by (simp add: bin_to_bcd_def t a_def b_def push_bit_eq_mult Let_def)
  have u: "uint (word_of_int (16 * a + b) :: u8) = 16 * a + b"
    using ab by (subst uint_word_of_int) (simp add: take_bit_int_eq_self)
  have "(16 * a + b) mod 16 = b" "(16 * a + b) div 16 = a" using ab by auto
  then have "bcd_to_bin (16 * a + b) = v"
    using ab(5) by (simp add: bcd_to_bin_def drop_bit_eq_div flip: m)
  then show ?thesis unfolding e u .
qed

lemma rtc_readback:
  assumes "0 \<le> mon" "mon < 100" "0 \<le> day" "day < 100" "0 \<le> hour" "hour < 100" "0 \<le> minute" "minute < 100"
    "0 \<le> sec" "sec < 100" "2000 \<le> year" "year < 2100" "cmos 0x32 = 0 \<or> cmos 0x32 = 0x20" "rtc_wait st = Some ()"
  shows "get_epoch_seconds st (rtc_write_datetime cmos year mon day hour minute sec) =
    map_option (\<lambda>days. days * 86400 + of_int hour * 3600 + of_int minute * 60 + of_int sec)
      (days_since_epoch year mon day)"
proof -
  have b: "(w AND - 129) AND 4 = w AND (4 :: u8)" for w by (simp add: and.assoc)
  have "2000 + year mod 100 = year" using assms(11,12) by presburger
  then have y: "0 \<le> year smod 100" "year smod 100 < 100" "2000 + year smod 100 = year"
    using assms by (auto simp: smod_nonneg)
  have i: "uint (word_of_int v :: u8) = v" if "0 \<le> v" "v < 100" for v
    using that by (simp add: uint_word_of_int take_bit_int_eq_self)
  have c: "bcd_to_bin 0x20 = 20" by (simp add: bcd_to_bin_def)
  show ?thesis
    using assms y
    by (cases "days_since_epoch year mon day"; cases "cmos 0x0B AND 0x04 = 0")
      (auto simp: get_epoch_seconds_def rtc_write_datetime_def Let_def b bcd_roundtrip i c)
qed

lemma is_leap_mod: "0 \<le> y \<Longrightarrow> is_leap y \<longleftrightarrow> y mod 4 = 0 \<and> (y mod 100 \<noteq> 0 \<or> y mod 400 = 0)"
  by (simp add: is_leap_def smod_nonneg)

lemma years_before_Suc: "years_before (Suc k) = years_before k + year_len (1970 + int k)"
  by (simp add: years_before_def)

lemma is_leap_to_2100:
  assumes "j < 130"
  shows "is_leap (1970 + int j) \<longleftrightarrow> j mod 4 = 2"
proof -
  have "(1970 + int j) mod 400 = 0" if "(1970 + int j) mod 100 = 0"
  proof -
    from that obtain q where q: "1970 + int j = 100 * q" by (auto simp: mod_eq_0_iff_dvd elim: dvdE)
    with assms have "q = 20" by linarith
    with q show ?thesis by simp
  qed
  moreover have "(1970 + int j) mod 4 = 0 \<longleftrightarrow> j mod 4 = 2" by presburger
  ultimately show ?thesis by (auto simp: is_leap_mod)
qed

lemma years_before_to_2100: "j \<le> 130 \<Longrightarrow> years_before j = 365 * j + (j + 1) div 4"
proof (induction j)
  case (Suc j)
  have "(Suc j + 1) div 4 = (j + 1) div 4 + (if j mod 4 = 2 then 1 else 0)" by presburger
  with Suc show ?case by (simp add: years_before_Suc year_len_def is_leap_to_2100)
qed (simp add: years_before_def)

lemma years_before_mono: "i \<le> j \<Longrightarrow> years_before i \<le> years_before j"
  unfolding years_before_def by (intro sum_mono2) auto

lemma year_located:
  assumes "years_before k + d = n" "d < year_len (1970 + int k)" "years_before i \<le> n" "n < years_before j"
  shows "i \<le> k \<and> k < j"
proof -
  have "n < years_before (Suc k)" "years_before k \<le> n" using assms by (auto simp: years_before_Suc)
  with assms(3,4) have "years_before i < years_before (Suc k)" "years_before k < years_before j" by linarith+
  then show ?thesis using years_before_mono by (metis Suc_leI leD not_less)
qed

section \<open>Time arithmetic and random numbers\<close>

lemma day_number_next:
  assumes "1 \<le> m" "m \<le> 12" "1 \<le> d" "d \<le> month_len (1970 + int k) m"
  shows "(case next_date k m d of (k', m', d') \<Rightarrow> day_number k' m' d') = Suc (day_number k m d)"
proof -
  let ?y = "1970 + int k"
  have M: "months_before ?y m = months_before ?y (m - 1) + month_len ?y m"
    using assms(1) by (cases m) (simp_all add: months_before_def)
  consider "d < month_len ?y m" | "d = month_len ?y m" "m < 12" | "d = month_len ?y m" "m = 12"
    using assms by linarith
  then show ?thesis
  proof cases
    case 3
    then have "day_number (Suc k) 1 1 = years_before k + months_before ?y m"
      using year_of_months [of ?y] by (simp add: day_number_def years_before_Suc months_before_def [of _ 0])
    with 3 M assms show ?thesis by (simp add: next_date_def day_number_def)
  qed (use M assms in \<open>simp_all add: next_date_def day_number_def\<close>)
qed

lemma time_cmp:
  assumes "time_wf a" "time_wf b"
  shows "(later a b \<longleftrightarrow> time_us b < time_us a) \<and> (earlier a b \<longleftrightarrow> time_us a < time_us b)
    \<and> (later_eq a b \<longleftrightarrow> time_us b \<le> time_us a) \<and> (earlier_eq a b \<longleftrightarrow> time_us a \<le> time_us b)"
proof -
  have w: "unat (tv_microsec a) < 1000000" "unat (tv_microsec b) < 1000000"
    using assms by (auto simp: time_wf_def word_less_nat_alt)
  consider "unat (tv_sec a) < unat (tv_sec b)" | "unat (tv_sec b) < unat (tv_sec a)" | "unat (tv_sec a) = unat (tv_sec b)"
    by linarith
  then show ?thesis
    using w unfolding later_def earlier_def later_eq_def earlier_eq_def time_us_def word_less_nat_alt word_le_nat_alt
    by cases auto
qed

lemma add_time_spec:
  assumes "time_wf a" "time_wf b" "unat (tv_sec a) + unat (tv_sec b) + 1 < 2 ^ 64"
  shows "time_wf (add_time a b) \<and> time_us (add_time a b) = time_us a + time_us b"
proof -
  define ua ub where "ua = unat (tv_microsec a)" and "ub = unat (tv_microsec b)"
  define sa sb where "sa = unat (tv_sec a)" and "sb = unat (tv_sec b)"
  have w: "ua < 1000000" "ub < 1000000"
    using assms by (auto simp: time_wf_def word_less_nat_alt ua_def ub_def)
  have m: "unat (tv_microsec a + tv_microsec b) = ua + ub"
    unfolding ua_def ub_def by (subst unat_add_lem [symmetric]) (use w in \<open>simp add: ua_def ub_def\<close>)
  have s: "unat (tv_sec a + tv_sec b) = sa + sb"
    unfolding sa_def sb_def by (subst unat_add_lem [symmetric]) (use assms(3) in simp)
  have s1: "unat (tv_sec a + tv_sec b + 1) = sa + sb + 1"
    using s assms(3) by (subst unat_Suc_lt) (simp_all add: sa_def sb_def)
  have c: "(tv_microsec a + tv_microsec b) div 1000000 \<noteq> 0 \<longleftrightarrow> 1000000 \<le> ua + ub"
    using m by (auto simp: word_unat_eq_iff unat_div div_eq_0_iff)
  have r: "unat ((tv_microsec a + tv_microsec b) mod 1000000) = (ua + ub) mod 1000000"
    using m by (simp add: unat_mod)
  have "(ua + ub) mod 1000000 = (if 1000000 \<le> ua + ub then ua + ub - 1000000 else ua + ub)"
    using w by (simp add: mod_if)
  then show ?thesis
    unfolding time_wf_def time_us_def add_time_def Let_def
    using c r s s1 by (auto simp: word_less_nat_alt simp flip: sa_def sb_def ua_def ub_def)
qed

lemma subtract_time_borrow:
  assumes "time_wf a" "time_wf b" "tv_sec b < tv_sec a" "tv_microsec a < tv_microsec b"
  shows "\<not> time_wf (subtract_time a b) \<and> tv_sec (subtract_time a b) = tv_sec a - tv_sec b"
proof -
  have ne: "\<not> earlier a b" using assms(3) by (auto simp: earlier_def)
  have u: "unat (tv_microsec a) < unat (tv_microsec b)" "unat (tv_microsec b) < 1000000"
    using assms(2,4) by (auto simp: word_less_nat_alt time_wf_def)
  then have "unat (tv_microsec a - tv_microsec b) = 2 ^ 32 + unat (tv_microsec a) - unat (tv_microsec b)"
    by (simp add: unat_sub_if')
  then have "1000000 \<le> unat (tv_microsec a - tv_microsec b)" using u by simp
  then show ?thesis
    by (simp add: subtract_time_def ne Let_def time_wf_def word_less_nat_alt)
qed

lemma subtract_time_no_borrow:
  assumes "time_wf a" "time_wf b" "tv_sec b \<le> tv_sec a" "tv_microsec b \<le> tv_microsec a"
  shows "time_wf (subtract_time a b) \<and> time_us (subtract_time a b) + time_us b = time_us a"
proof -
  have ne: "\<not> earlier a b" using assms(3,4) by (auto simp: earlier_def)
  have "unat (tv_microsec b) \<le> unat (tv_microsec a)" "unat (tv_sec b) \<le> unat (tv_sec a)"
      "unat (tv_microsec a) < 1000000"
    using assms by (auto simp: word_le_nat_alt time_wf_def word_less_nat_alt)
  then show ?thesis
    using assms(3,4)
    by (simp add: subtract_time_def ne Let_def time_wf_def time_us_def word_less_nat_alt unat_sub diff_mult_distrib)
qed

lemma xorshift_involutive: "(x XOR drop_bit 33 x) XOR drop_bit 33 (x XOR drop_bit 33 x) = (x :: u64)"
  by (rule bit_word_eqI) (auto simp: bit_simps)

lemma inj_odd_mult:
  assumes "c * d = 1" "x * c = y * c"
  shows "x = (y :: u64)"
proof -
  have "x * (c * d) = y * (c * d)" using assms(2) by (simp flip: mult.assoc)
  then show ?thesis using assms(1) by simp
qed

lemma mix64_inj: "mix64 x = mix64 y \<longleftrightarrow> x = y"
proof
  have X: "(x :: u64) XOR drop_bit 33 x = y XOR drop_bit 33 y \<Longrightarrow> x = y" for x y
    by (metis xorshift_involutive)
  have A: "(0xff51afd7ed558ccd :: u64) * 0x4f74430c22a54005 = 1"
    and B: "(0xc4ceb9fe1a85ec53 :: u64) * 0x9cb4b2f8129337db = 1" by simp_all
  assume "mix64 x = mix64 y"
  then show "x = y"
    unfolding mix64_def Let_def
    by (auto dest!: X inj_odd_mult [OF A] inj_odd_mult [OF B])
qed simp

lemma rand_range_spec:
  assumes "\<not> (lo = 0 \<and> hi = - 1)"
  shows "\<exists>v. rand_range r lo hi = Some v \<and> (if lo \<le> hi then lo \<le> v \<and> v \<le> hi else v = lo)"
proof (cases "hi \<le> lo")
  case True
  then show ?thesis by (auto simp: rand_range_def)
next
  case False
  let ?n = "hi - lo + 1"
  have lt: "unat lo < unat hi" using False by (simp add: word_le_nat_alt)
  have d: "unat (hi - lo) = unat hi - unat lo" using False by (simp add: unat_sub)
  have n0: "?n \<noteq> 0"
  proof
    assume "?n = 0"
    then have h: "hi = lo - 1" by (simp add: algebra_simps eq_neg_iff_add_eq_0)
    show False
    proof (cases "lo = 0")
      case True
      with h assms show False by simp
    next
      case False
      then have "unat (lo - 1) = unat lo - 1" by (rule unat_minus_one)
      with h lt show False by simp
    qed
  qed
  then have n: "unat ?n = unat hi - unat lo + 1" using d unatSuc [of "hi - lo"] by (simp add: add.commute)
  have m: "unat (r mod ?n) \<le> unat hi - unat lo"
    using n mod_less_divisor [of "unat ?n" "unat r"] by (simp add: unat_mod)
  have "unat (lo + r mod ?n) = unat lo + unat (r mod ?n)"
    using m lt unat_bound [of hi] by (subst unat_add_lem [symmetric]) simp
  then show ?thesis
    using False n0 m lt by (auto simp: rand_range_def word_le_nat_alt)
qed

text \<open>
  The century register is never written, so a date before 2000 comes back a
  century late.
\<close>

lemma settime_century_lost:
  "\<exists>cmos'. sys_clock_settime (\<lambda>_. 0) (Some \<lparr>ts_sec = 0, tv_nanosec = 0\<rparr>) = Some (0, cmos')
     \<and> get_epoch_seconds [0] cmos' = Some 3155760000"
proof -
  have d: "days_since_epoch 2070 1 1 = Some 36525"
    using days_since_epoch_spec [of 1 1 100] by (simp add: years_before_to_2100 months_before_def)
  have "settime_year 0 1970 = (0, 1970)" by (simp add: settime_year.simps Let_def)
  moreover have "settime_month 0 1 1970 = Some (0, 1)"
    by (simp add: settime_month.simps days_in_month_def Let_def)
  moreover have "bin_to_bcd 1 = 1" "bin_to_bcd 0 = 0" "bcd_to_bin 1 = 1" "bcd_to_bin 0 = 0"
      "bin_to_bcd 70 = 0x70" "bcd_to_bin 0x70 = 70"
    by (simp_all add: bin_to_bcd_def bcd_to_bin_def Let_def smod_nonneg)
  ultimately show ?thesis
    using d by (simp add: sys_clock_settime_def rtc_write_datetime_def get_epoch_seconds_def Let_def
        smod_nonneg rtc_update_in_progress_def)
qed

section \<open>Properties\<close>

text \<open>
  C23. Setting the clock and reading it back gives the same second, for every
  time in the years 2000 to 2099, in the binary and in the BCD mode of the chip:
  the calendar arithmetic of \<^verbatim>\<open>sys_clock_settime\<close> and of
  \<^verbatim>\<open>get_epoch_seconds\<close> are inverse to each other through the registers.
\<close>

theorem settime_then_gettime:
  assumes "946684800 \<le> ts_sec ts" "ts_sec ts < 4102444800" "cmos 0x32 = 0 \<or> cmos 0x32 = 0x20"
    "rtc_wait st = Some ()"
  shows "\<exists>cmos'. sys_clock_settime cmos (Some ts) = Some (0, cmos') \<and> get_epoch_seconds st cmos' = Some (ts_sec ts)"
proof -
  define sec where "sec = ts_sec ts"
  define days where "days = sec div 86400"
  have "unat sec < 4102444800" "946684800 \<le> unat sec"
    using assms by (simp_all add: sec_def word_less_nat_alt word_le_nat_alt)
  then have days: "unat days < 47482" "10957 \<le> unat days" by (auto simp: days_def unat_div)
  obtain d k where Y: "settime_year days 1970 = (d, 1970 + int k)" "years_before k + unat d = unat days"
      "unat d < year_len (1970 + int k)"
    using settime_year_spec [of days 0] days by (auto simp: years_before_def)
  let ?y = "1970 + int k"
  have k: "30 \<le> k" "k < 130"
    using year_located [OF Y(2,3), of 30 130] days by (simp_all add: years_before_to_2100)
  obtain d2 m where Mo: "settime_month d 1 ?y = Some (d2, 1 + int m)" "m < 12"
      "unat d = months_before ?y m + unat d2" "unat d2 < month_len ?y (Suc m)"
    using settime_month_spec [of 0 d ?y] Y(3) by (auto simp: months_before_def)
  have s: "Suc (unat d2) < 100" using Mo(4) month_len_bounds [OF Mo(2), of ?y] by linarith
  then have "unat (d2 + 1) = Suc (unat d2)" by (intro unat_Suc_lt) simp
  then have d2: "uint (d2 + 1) = int (Suc (unat d2))" by (metis uint_nat)
  have "days_since_epoch ?y (int (Suc m)) (int (Suc (unat d2))) =
      Some (of_nat (years_before k + months_before ?y (Suc m - 1) + (Suc (unat d2) - 1)))"
    using Mo(2) by (intro days_since_epoch_spec) auto
  also have "years_before k + months_before ?y (Suc m - 1) + (Suc (unat d2) - 1) = unat days"
    using Mo(3) Y(2) by simp
  finally have D: "days_since_epoch ?y (1 + int m) (int (Suc (unat d2))) = Some days" by simp
  let ?rem = "sec mod 86400"
  have r: "uint (?rem div 3600) < 100" "uint (?rem mod 3600 div 60) < 100" "uint (?rem mod 3600 mod 60) < 100"
    by (simp_all add: uint_div uint_mod)
  let ?cmos = "rtc_write_datetime cmos ?y (1 + int m) (int (Suc (unat d2))) (uint (?rem div 3600))
    (uint (?rem mod 3600 div 60)) (uint (?rem mod 3600 mod 60))"
  have "sys_clock_settime cmos (Some ts) = Some (0, ?cmos)"
    using Y(1) Mo(1) d2 by (simp add: sys_clock_settime_def days_def sec_def Let_def)
  moreover have "get_epoch_seconds st ?cmos =
      Some (days * 86400 + (?rem div 3600) * 3600 + (?rem mod 3600 div 60) * 60 + ?rem mod 3600 mod 60)"
    by (subst rtc_readback) (use D r s k Mo(2) assms(3,4) of_nat_less_iff [of "Suc (unat d2)" 100, where 'a = int] in simp_all)
  moreover have "days * 86400 + (?rem div 3600) * 3600 + (?rem mod 3600 div 60) * 60 + ?rem mod 3600 mod 60 = sec"
    unfolding days_def by (metis (no_types, lifting) add.assoc div_mult_mod_eq)
  ultimately show ?thesis by (simp add: sec_def)
qed

theorem settime_then_gettime_witness:
  "\<exists>cmos'. sys_clock_settime (\<lambda>_. 0) (Some \<lparr>ts_sec = 1709164800, tv_nanosec = 0\<rparr>) = Some (0, cmos')
     \<and> get_epoch_seconds [0x80, 0] cmos' = Some (ts_sec \<lparr>ts_sec = 1709164800, tv_nanosec = 0\<rparr>)"
  by (rule settime_then_gettime) (simp_all add: rtc_update_in_progress_def)



text \<open>
  On well-formed times the four comparisons order them by microseconds, and
  the sum of two times that do not overflow the seconds is well-formed and is the
  sum of their microseconds.
\<close>

theorem time_order_and_sum:
  assumes "time_wf a" "time_wf b" "unat (tv_sec a) + unat (tv_sec b) + 1 < 2 ^ 64"
  shows "later a b = (time_us b < time_us a) \<and> earlier a b = (time_us a < time_us b)
    \<and> later_eq a b = (time_us b \<le> time_us a) \<and> earlier_eq a b = (time_us a \<le> time_us b)
    \<and> time_wf (add_time a b) \<and> time_us (add_time a b) = time_us a + time_us b"
  using time_cmp [OF assms(1,2)] add_time_spec [OF assms] by simp

theorem time_order_and_sum_witness:
  "let a = \<lparr>tv_sec = 4, tv_microsec = 600000\<rparr>; b = \<lparr>tv_sec = 5, tv_microsec = 500000\<rparr> in
    later a b = (time_us b < time_us a) \<and> earlier a b = (time_us a < time_us b)
    \<and> later_eq a b = (time_us b \<le> time_us a) \<and> earlier_eq a b = (time_us a \<le> time_us b)
    \<and> time_wf (add_time a b) \<and> time_us (add_time a b) = time_us a + time_us b"
  unfolding Let_def by (rule time_order_and_sum) (simp_all add: time_wf_def)

text \<open>
  \<^verbatim>\<open>subtract_time\<close> is the difference when no borrow is needed.  When the
  microseconds need a borrow it is not taken: the seconds are one too many and
  the microseconds out of range.
\<close>

theorem subtract_time_cases:
  assumes "time_wf a" "time_wf b" "tv_sec b < tv_sec a"
  shows "if tv_microsec b \<le> tv_microsec a
    then time_wf (subtract_time a b) \<and> time_us (subtract_time a b) + time_us b = time_us a
    else \<not> time_wf (subtract_time a b) \<and> tv_sec (subtract_time a b) = tv_sec a - tv_sec b"
  using assms by (simp add: subtract_time_no_borrow subtract_time_borrow not_le order_less_imp_le)

theorem subtract_time_cases_witness:
  "let a = \<lparr>tv_sec = 5, tv_microsec = 1\<rparr>; b = \<lparr>tv_sec = 4, tv_microsec = 2\<rparr> in
    if tv_microsec b \<le> tv_microsec a
    then time_wf (subtract_time a b) \<and> time_us (subtract_time a b) + time_us b = time_us a
    else \<not> time_wf (subtract_time a b) \<and> tv_sec (subtract_time a b) = tv_sec a - tv_sec b"
  unfolding Let_def by (rule subtract_time_cases) (simp_all add: time_wf_def)



end
