(* ===== verification/Frames.thy ===== *)
theory Frames
  imports Memlib
begin

text \<open>
  Physical memory and table slots: the block allocator and the free-slot
  searches of \<^verbatim>\<open>src/core/scheduler.h\<close>, and the memory size computed from the
  boot information in \<^verbatim>\<open>src/libs/grub/grub.h\<close>.

  The memory map is the array of bytes the kernel keeps per 4096-byte block, 0
  for a free block.  The array can be longer than the number of blocks of the
  machine: what lies behind it is other memory of the kernel.
\<close>

definition HM :: u64 where
  "HM = 0x400000000000"

record frames =
  memory_map :: "u8 list"
  total_memory_blocks_count :: u64
  end_kernel :: u64

definition set_memory_block_used_when_boot :: "frames \<Rightarrow> u64 \<Rightarrow> bool \<Rightarrow> frames option" where
  "set_memory_block_used_when_boot fr index used = do {
     m \<leftarrow> upd_opt (memory_map fr) (unat index) (if used then 1 else 0);
     Some (fr\<lparr>memory_map := m\<rparr>) }"

definition div_ceil :: "u64 \<Rightarrow> u64 \<Rightarrow> u64 option" where
  "div_ceil var_1 var_2 =
     (if var_2 = 0 then None
      else Some (if var_1 mod var_2 > 0 then var_1 div var_2 + 1 else var_1 div var_2))"

fun mark_blocks :: "nat \<Rightarrow> u64 \<Rightarrow> bool \<Rightarrow> frames \<Rightarrow> frames option" where
  "mark_blocks 0 i used fr = Some fr"
| "mark_blocks (Suc k) i used fr = do {
     fr' \<leftarrow> set_memory_block_used_when_boot fr i used;
     mark_blocks k (i + 1) used fr' }"

definition mark_reserved_blocks_as_used :: "frames \<Rightarrow> frames option" where
  "mark_reserved_blocks_as_used fr = do {
     total_kernel_mem_blocks_count \<leftarrow> div_ceil (end_kernel fr - HM) 4096;
     total_blocks_of_memory_map \<leftarrow> div_ceil (total_memory_blocks_count fr) 4096;
     mark_blocks (unat (total_kernel_mem_blocks_count + total_blocks_of_memory_map)) 0 True fr }"

text \<open>
  The search loop of \<^verbatim>\<open>get_a_free_block\<close>; the first argument counts the
  iterations left.
\<close>

fun free_block_from :: "nat \<Rightarrow> u64 \<Rightarrow> frames \<Rightarrow> (u64 \<times> frames) option" where
  "free_block_from 0 i fr = None"
| "free_block_from (Suc k) i fr = do {
     b \<leftarrow> nth_opt (memory_map fr) (unat i);
     if b = 0 then do { fr' \<leftarrow> set_memory_block_used_when_boot fr i True; Some (i, fr') }
     else free_block_from k (i + 1) fr }"

definition first_block :: "frames \<Rightarrow> u64" where
  "first_block fr = (end_kernel fr - HM) div 4096"

definition get_a_free_block :: "frames \<Rightarrow> (u64 \<times> frames) option" where
  "get_a_free_block fr =
     free_block_from (unat (total_memory_blocks_count fr) - unat (first_block fr)) (first_block fr) fr"

definition get_a_free_block_addr :: "frames \<Rightarrow> (u64 \<times> frames) option" where
  "get_a_free_block_addr fr = do {
     (b, fr') \<leftarrow> get_a_free_block fr;
     Some (b * 4096 + HM, fr') }"

text \<open>\<^verbatim>\<open>get_continuous_free_blocks\<close>: the test of one run and the search over its start.\<close>

fun run_free :: "nat \<Rightarrow> u64 \<Rightarrow> u8 list \<Rightarrow> bool option" where
  "run_free 0 a tmp = Some True"
| "run_free (Suc k) a tmp = do {
     b \<leftarrow> nth_opt tmp (unat a);
     if b \<noteq> 0 then Some False else run_free k (a + 1) tmp }"

fun continuous_from :: "nat \<Rightarrow> u64 \<Rightarrow> nat \<Rightarrow> frames \<Rightarrow> (u64 \<times> frames) option" where
  "continuous_from 0 i len fr = None"
| "continuous_from (Suc k) i len fr = do {
     good \<leftarrow> run_free len i (memory_map fr);
     if good then do { fr' \<leftarrow> mark_blocks len i True fr; Some (i, fr') }
     else continuous_from k (i + 1) len fr }"

definition get_continuous_free_blocks :: "frames \<Rightarrow> u64 \<Rightarrow> (u64 \<times> frames) option" where
  "get_continuous_free_blocks fr len =
     continuous_from (unat (total_memory_blocks_count fr) - unat (first_block fr)) (first_block fr) (unat len) fr"

definition free_block :: "frames \<Rightarrow> u64 \<Rightarrow> frames option" where
  "free_block fr block_addr = do {
     block_id \<leftarrow> div_ceil block_addr 4096;
     set_memory_block_used_when_boot fr block_id False }"

definition calc_section_blocks_count :: "u64 \<Rightarrow> u64 \<Rightarrow> u64 option" where
  "calc_section_blocks_count section_start_addr section_stop_addr =
     div_ceil (section_stop_addr - section_start_addr) 4096"

section \<open>Free slots of a table\<close>

fun free_slot_from :: "nat \<Rightarrow> u64 \<Rightarrow> u64 list \<Rightarrow> u64 option" where
  "free_slot_from 0 i map_int = None"
| "free_slot_from (Suc k) i map_int = do {
     tmp \<leftarrow> nth_opt map_int (unat i);
     if tmp = 0 then Some i else free_slot_from k (i + 1) map_int }"

text \<open>The last slot tested is \<open>stop\<close> itself.\<close>

definition get_a_free_slot :: "u64 list \<Rightarrow> u64 \<Rightarrow> u64 \<Rightarrow> u64 option" where
  "get_a_free_slot map_int start stop = free_slot_from (Suc (unat stop) - unat start) start map_int"

text \<open>
  \<^verbatim>\<open>get_a_free_slot_with_size\<close>: slots of \<open>unit_byte_size\<close> bytes, free when
  all their bytes are 0.  Offsets are natural numbers: the table does not reach
  the end of the address space.
\<close>

definition unit_free :: "memory \<Rightarrow> u64 \<Rightarrow> nat \<Rightarrow> nat \<Rightarrow> bool" where
  "unit_free m map_addr i unit_byte_size =
     (first_from unit_byte_size 0 (\<lambda>j. m (map_addr + of_nat i + of_nat j) \<noteq> 0) = None)"

lemma unit_not_free_pos: "\<not> unit_free m map_addr i u \<Longrightarrow> 0 < u"
  by (cases u) (simp_all add: unit_free_def)

function free_unit_from :: "memory \<Rightarrow> u64 \<Rightarrow> nat \<Rightarrow> nat \<Rightarrow> nat \<Rightarrow> nat option" where
  "free_unit_from m map_addr i stop unit_byte_size =
     (if i + unit_byte_size \<le> stop then
        (if unit_free m map_addr i unit_byte_size then
           (if unit_byte_size = 0 then None else Some (i div unit_byte_size))
         else free_unit_from m map_addr (i + unit_byte_size) stop unit_byte_size)
      else None)"
  by pat_completeness auto
termination
  by (relation "measure (\<lambda>(m, a, i, stop, u). stop - i)") (auto dest: unit_not_free_pos)

declare free_unit_from.simps [simp del]

definition get_a_free_slot_with_size :: "memory \<Rightarrow> u64 \<Rightarrow> u64 \<Rightarrow> u64 \<Rightarrow> u64 \<Rightarrow> u64 option" where
  "get_a_free_slot_with_size m map_addr start stop unit_byte_size =
     map_option of_nat (free_unit_from m map_addr (unat start) (unat stop) (unat unit_byte_size))"

section \<open>The size of memory\<close>

text \<open>
  The boot loader's information is a parameter: the list of its tags, an entry
  of the memory map tag giving the length and the type of a range.
\<close>

datatype multiboot_tag = Mmap "(u64 \<times> u32) list" | Other_tag u32

fun mmap_total :: "(u64 \<times> u32) list \<Rightarrow> u64 \<Rightarrow> u64" where
  "mmap_total [] acc = acc"
| "mmap_total ((len, type) # es) acc = mmap_total es (if type = 1 then acc + len else acc)"

fun tags_total :: "multiboot_tag list \<Rightarrow> u64" where
  "tags_total [] = 0"
| "tags_total (Mmap es # tags) = mmap_total es 0"
| "tags_total (Other_tag t # tags) = tags_total tags"

definition get_total_memory :: "multiboot_tag list \<Rightarrow> u64 \<times> u64" where
  "get_total_memory tags =
     (let tot = tags_total tags;
          tot' = (if tot > 140737488355328 then 140737488355328 else tot);
          blocks = tot' div 4096
      in (blocks, blocks * 4096))"

section \<open>The state of a block\<close>

definition frames_ok :: "frames \<Rightarrow> bool" where
  "frames_ok fr \<longleftrightarrow> unat (total_memory_blocks_count fr) \<le> length (memory_map fr)"

definition used :: "frames \<Rightarrow> nat \<Rightarrow> bool" where
  "used fr i \<longleftrightarrow> i < length (memory_map fr) \<and> memory_map fr ! i \<noteq> 0"

text \<open>A sequence of allocations.\<close>

fun alloc_many :: "('m \<Rightarrow> (nat \<times> 'm) option) \<Rightarrow> nat \<Rightarrow> 'm \<Rightarrow> (nat list \<times> 'm) option" where
  "alloc_many alloc 0 m = Some ([], m)"
| "alloc_many alloc (Suc k) m = do {
     (b, m1) \<leftarrow> alloc m;
     (bs, m2) \<leftarrow> alloc_many alloc k m1;
     Some (b # bs, m2) }"

definition alloc_block :: "frames \<Rightarrow> (nat \<times> frames) option" where
  "alloc_block fr = map_option (\<lambda>(b, fr'). (unat b, fr')) (get_a_free_block fr)"

section \<open>Allocation\<close>

lemma set_used_spec:
  "set_memory_block_used_when_boot fr i u = Some fr' \<longleftrightarrow>
     unat i < length (memory_map fr) \<and> fr' = fr\<lparr>memory_map := (memory_map fr)[unat i := if u then 1 else 0]\<rparr>"
  by (auto simp: set_memory_block_used_when_boot_def upd_opt_def split: if_splits)

lemma used_set:
  "set_memory_block_used_when_boot fr i u = Some fr' \<Longrightarrow> used fr' j = (if j = unat i then u else used fr j)"
  by (auto simp: set_used_spec used_def nth_list_update)

lemma set_used_frame:
  "set_memory_block_used_when_boot fr i u = Some fr' \<Longrightarrow>
     length (memory_map fr') = length (memory_map fr) \<and> total_memory_blocks_count fr' = total_memory_blocks_count fr
     \<and> end_kernel fr' = end_kernel fr"
  by (auto simp: set_used_spec)

lemma free_block_from_spec:
  assumes "unat i + k \<le> length (memory_map fr)" "unat i + k < 2 ^ 64"
  shows "free_block_from k i fr = (case first_from k (unat i) (\<lambda>j. memory_map fr ! j = 0) of
       None \<Rightarrow> None
     | Some j \<Rightarrow> Some (of_nat j, fr\<lparr>memory_map := (memory_map fr)[j := 1]\<rparr>))"
  using assms
proof (induction k arbitrary: i)
  case (Suc k)
  have "unat (i + 1) = Suc (unat i)" using Suc.prems by (intro unat_Suc_lt) simp
  with Suc.IH [of "i + 1"] Suc.prems show ?case
    by (simp add: nth_opt_Some set_memory_block_used_when_boot_def upd_opt_Some)
qed simp

lemma get_a_free_block_spec:
  assumes "frames_ok fr"
  shows "get_a_free_block fr = (case first_from (unat (total_memory_blocks_count fr) - unat (first_block fr))
        (unat (first_block fr)) (\<lambda>j. memory_map fr ! j = 0) of
       None \<Rightarrow> None
     | Some j \<Rightarrow> Some (of_nat j, fr\<lparr>memory_map := (memory_map fr)[j := 1]\<rparr>))"
proof -
  let ?k = "unat (total_memory_blocks_count fr) - unat (first_block fr)"
  show ?thesis
  proof (cases "?k = 0")
    case True
    then show ?thesis by (simp add: get_a_free_block_def)
  next
    case False
    then show ?thesis
      using assms unat_bound [of "total_memory_blocks_count fr"] unfolding get_a_free_block_def
      by (intro free_block_from_spec) (auto simp: frames_ok_def)
  qed
qed

lemma get_a_free_block_Some:
  assumes "frames_ok fr" "get_a_free_block fr = Some (b, fr')"
  shows "unat (first_block fr) \<le> unat b" "unat b < unat (total_memory_blocks_count fr)"
    "\<not> used fr (unat b)" "used fr' = (used fr)(unat b := True)" "frames_ok fr'"
    "\<forall>i. unat (first_block fr) \<le> i \<and> i < unat b \<longrightarrow> used fr i"
    "total_memory_blocks_count fr' = total_memory_blocks_count fr" "end_kernel fr' = end_kernel fr"
    "length (memory_map fr') = length (memory_map fr)"
proof -
  let ?P = "\<lambda>j. memory_map fr ! j = 0"
  from assms obtain j where j: "first_from (unat (total_memory_blocks_count fr) - unat (first_block fr)) (unat (first_block fr)) ?P = Some j"
    "b = of_nat j" "fr' = fr\<lparr>memory_map := (memory_map fr)[j := 1]\<rparr>"
    by (auto simp: get_a_free_block_spec split: option.splits)
  from first_from_SomeD [OF j(1)]
  have J: "unat (first_block fr) \<le> j" "j < unat (total_memory_blocks_count fr)" "?P j"
    "\<forall>i. unat (first_block fr) \<le> i \<and> i < j \<longrightarrow> \<not> ?P i" by auto
  have b: "unat b = j"
    using J(2) unat_bound [of "total_memory_blocks_count fr"] by (simp add: j(2) unat_of_nat_lt)
  have l: "j < length (memory_map fr)" using J(2) assms(1) by (simp add: frames_ok_def)
  show "unat (first_block fr) \<le> unat b" "unat b < unat (total_memory_blocks_count fr)"
    "\<not> used fr (unat b)" "used fr' = (used fr)(unat b := True)" "frames_ok fr'"
    "\<forall>i. unat (first_block fr) \<le> i \<and> i < unat b \<longrightarrow> used fr i"
    "total_memory_blocks_count fr' = total_memory_blocks_count fr" "end_kernel fr' = end_kernel fr"
    "length (memory_map fr') = length (memory_map fr)"
    using J l assms(1) by (auto simp: b j(3) used_def frames_ok_def fun_eq_iff nth_list_update)
qed

lemma get_a_free_block_None:
  assumes "frames_ok fr"
  shows "get_a_free_block fr = None \<longleftrightarrow>
    (\<forall>i. unat (first_block fr) \<le> i \<and> i < unat (total_memory_blocks_count fr) \<longrightarrow> used fr i)"
proof -
  have "get_a_free_block fr = None \<longleftrightarrow> first_from (unat (total_memory_blocks_count fr) - unat (first_block fr))
      (unat (first_block fr)) (\<lambda>j. memory_map fr ! j = 0) = None"
    using assms by (simp add: get_a_free_block_spec split: option.split)
  then show ?thesis using assms by (auto simp: first_from_None used_def frames_ok_def)
qed

lemma first_block_eq: "end_kernel fr' = end_kernel fr \<Longrightarrow> first_block fr' = first_block fr"
  by (simp add: first_block_def)

lemma run_free_spec:
  assumes "unat a + k \<le> length tmp" "unat a + k < 2 ^ 64"
  shows "run_free k a tmp = Some (\<forall>j<k. tmp ! (unat a + j) = 0)"
  using assms
proof (induction k arbitrary: a)
  case (Suc k)
  have "unat (a + 1) = Suc (unat a)" using Suc.prems by (intro unat_Suc_lt) simp
  with Suc.IH [of "a + 1"] Suc.prems show ?case
    unfolding All_less_Suc2 by (simp add: nth_opt_Some)
qed simp

lemma mark_blocks_spec:
  assumes "unat a + k \<le> length (memory_map fr)" "unat a + k < 2 ^ 64"
  shows "\<exists>fr'. mark_blocks k a u fr = Some fr' \<and> length (memory_map fr') = length (memory_map fr)
    \<and> total_memory_blocks_count fr' = total_memory_blocks_count fr \<and> end_kernel fr' = end_kernel fr
    \<and> (\<forall>i. used fr' i = (if unat a \<le> i \<and> i < unat a + k then u else used fr i))"
  using assms
proof (induction k arbitrary: a fr)
  case (Suc k)
  have a: "unat (a + 1) = Suc (unat a)" using Suc.prems by (intro unat_Suc_lt) simp
  obtain fr1 where fr1: "set_memory_block_used_when_boot fr a u = Some fr1"
    using Suc.prems by (simp add: set_used_spec)
  note f = set_used_frame [OF fr1] and us = used_set [OF fr1]
  from Suc.IH [of "a + 1" fr1] Suc.prems a f obtain fr' where fr':
    "mark_blocks k (a + 1) u fr1 = Some fr'" "length (memory_map fr') = length (memory_map fr1)"
    "total_memory_blocks_count fr' = total_memory_blocks_count fr1" "end_kernel fr' = end_kernel fr1"
    "\<forall>i. used fr' i = (if Suc (unat a) \<le> i \<and> i < Suc (unat a) + k then u else used fr1 i)"
    by auto
  then have "used fr' i = (if unat a \<le> i \<and> i < unat a + Suc k then u else used fr i)" for i
    using us by auto
  with fr1 fr' f show ?case by auto
qed auto

lemma continuous_from_Some:
  assumes "continuous_from k i len fr = Some (b, fr')" "unat i + k + len \<le> length (memory_map fr)"
    "unat i + k + len < 2 ^ 64"
  shows "unat i \<le> unat b \<and> unat b < unat i + k \<and> (\<forall>j<len. \<not> used fr (unat b + j))
    \<and> (\<forall>j. used fr' j = (unat b \<le> j \<and> j < unat b + len \<or> used fr j))
    \<and> length (memory_map fr') = length (memory_map fr)
    \<and> total_memory_blocks_count fr' = total_memory_blocks_count fr \<and> end_kernel fr' = end_kernel fr"
  using assms
proof (induction k arbitrary: i)
  case (Suc k)
  have i: "unat (i + 1) = Suc (unat i)" using Suc.prems by (intro unat_Suc_lt) simp
  have r: "run_free len i (memory_map fr) = Some (\<forall>j<len. memory_map fr ! (unat i + j) = 0)"
    using Suc.prems by (intro run_free_spec) auto
  show ?case
  proof (cases "\<forall>j<len. memory_map fr ! (unat i + j) = 0")
    case True
    obtain fr1 where m: "mark_blocks len i True fr = Some fr1"
      "length (memory_map fr1) = length (memory_map fr)"
      "total_memory_blocks_count fr1 = total_memory_blocks_count fr" "end_kernel fr1 = end_kernel fr"
      "\<forall>j. used fr1 j = (if unat i \<le> j \<and> j < unat i + len then True else used fr j)"
      using mark_blocks_spec [of i len fr True] Suc.prems by auto
    with True r Suc.prems(1) have "b = i" "fr' = fr1" by auto
    with m True show ?thesis by (auto simp: used_def)
  next
    case False
    then have "continuous_from k (i + 1) len fr = Some (b, fr')" using Suc.prems(1) r by (simp del: not_all split: if_splits)
    from Suc.IH [OF this] Suc.prems(2,3) i show ?thesis by auto
  qed
qed simp

section \<open>Searches\<close>

lemma free_slot_from_spec:
  assumes "unat i + k \<le> length t" "unat i + k \<le> 2 ^ 64"
  shows "free_slot_from k i t = map_option of_nat (first_from k (unat i) (\<lambda>j. t ! j = 0))"
  using assms
proof (induction k arbitrary: i)
  case (Suc k)
  show ?case
  proof (cases k)
    case 0
    with Suc.prems show ?thesis by (simp add: nth_opt_Some)
  next
    case (Suc k')
    then have "unat (i + 1) = Suc (unat i)" using Suc.prems by (intro unat_Suc_lt) simp
    with Suc.IH [of "i + 1"] Suc.prems show ?thesis by (simp add: nth_opt_Some)
  qed
qed simp

lemma unit_free_iff: "unit_free m a i u \<longleftrightarrow> (\<forall>j<u. m (a + of_nat (i + j)) = 0)"
  by (auto simp: unit_free_def first_from_None add.assoc)

lemma free_unit_from_Some:
  "free_unit_from m a i stop u = Some r \<Longrightarrow> u dvd i \<Longrightarrow>
     i \<le> r * u \<and> r * u + u \<le> stop \<and> unit_free m a (r * u) u
     \<and> (\<forall>q. i \<le> q * u \<and> q < r \<longrightarrow> \<not> unit_free m a (q * u) u)"
proof (induction m a i stop u rule: free_unit_from.induct)
  case (1 m a i stop u)
  note S = free_unit_from.simps [of m a i stop u]
  show ?case
  proof (cases "unit_free m a i u")
    case True
    with 1(2) have "0 < u" "i + u \<le> stop" "r = i div u" by (auto simp: S split: if_splits)
    moreover from 1(3) have "i div u * u = i" by simp
    ultimately show ?thesis using True by (metis div_le_mono leD nonzero_mult_div_cancel_right order_refl gr_implies_not0)
  next
    case False
    with 1(2) have g: "i + u \<le> stop" "free_unit_from m a (i + u) stop u = Some r" by (auto simp: S split: if_splits)
    from 1(1) [OF g(1) False g(2)] 1(3)
    have IH: "i + u \<le> r * u" "r * u + u \<le> stop" "unit_free m a (r * u) u"
      "\<forall>q. i + u \<le> q * u \<and> q < r \<longrightarrow> \<not> unit_free m a (q * u) u" by auto
    have "\<not> unit_free m a (q * u) u" if q: "i \<le> q * u" "q < r" for q
    proof (cases "q * u = i")
      case True
      with False show ?thesis by simp
    next
      case neq: False
      from 1(3) obtain p where p: "i = p * u" by (metis dvdE mult.commute)
      with q neq have "Suc p \<le> q" by (metis Suc_leI le_neq_implies_less mult_le_cancel2 nat_le_linear mult_le_mono1 le_antisym)
      then have "i + u \<le> q * u" using p by (metis add.commute mult_Suc mult_le_mono1)
      with IH(4) q show ?thesis by blast
    qed
    with IH show ?thesis by auto
  qed
qed

section \<open>The allocator contract\<close>

locale fresh_allocator =
  fixes inv :: "'m \<Rightarrow> bool"
    and taken :: "'m \<Rightarrow> nat \<Rightarrow> bool"
    and alloc :: "'m \<Rightarrow> (nat \<times> 'm) option"
  assumes alloc_law: "\<lbrakk>inv m; alloc m = Some (b, m')\<rbrakk> \<Longrightarrow>
      \<not> taken m b \<and> taken m' = (taken m)(b := True) \<and> inv m'"
begin

lemma alloc_many_distinct:
  "\<lbrakk>inv m; alloc_many alloc k m = Some (bs, m')\<rbrakk> \<Longrightarrow>
     inv m' \<and> length bs = k \<and> distinct bs \<and> (\<forall>b\<in>set bs. \<not> taken m b)
     \<and> (\<forall>b. taken m' b \<longleftrightarrow> taken m b \<or> b \<in> set bs)"
proof (induction k arbitrary: m bs)
  case (Suc k)
  from Suc.prems(2) obtain b m1 bs' where a: "alloc m = Some (b, m1)"
      "alloc_many alloc k m1 = Some (bs', m')" "bs = b # bs'"
    by (auto simp: bind_eq_Some_conv)
  from alloc_law [OF Suc.prems(1) a(1)] have b: "\<not> taken m b" "taken m1 = (taken m)(b := True)" "inv m1"
    by auto
  from Suc.IH [OF b(3) a(2)] b(1) show ?case by (auto simp: a(3) b(2) split: if_splits)
qed simp

end

interpretation block_pool: fresh_allocator frames_ok used alloc_block
  by unfold_locales (auto simp: alloc_block_def dest: get_a_free_block_Some)

section \<open>Properties\<close>

text \<open>
  First fit: \<^verbatim>\<open>get_a_free_block\<close> panics exactly when every block behind
  the kernel is used; otherwise it returns the lowest free block, marks it used and
  changes no other block.
\<close>

theorem get_a_free_block_first_fit:
  assumes "frames_ok fr"
  shows "case get_a_free_block fr of
      None \<Rightarrow> \<forall>i. unat (first_block fr) \<le> i \<and> i < unat (total_memory_blocks_count fr) \<longrightarrow> used fr i
    | Some (b, fr') \<Rightarrow> unat (first_block fr) \<le> unat b \<and> unat b < unat (total_memory_blocks_count fr)
        \<and> \<not> used fr (unat b) \<and> used fr' = (used fr)(unat b := True) \<and> frames_ok fr'
        \<and> (\<forall>i. unat (first_block fr) \<le> i \<and> i < unat b \<longrightarrow> used fr i)"
  using get_a_free_block_Some [OF assms] get_a_free_block_None [OF assms]
  by (auto split: option.split)

theorem get_a_free_block_first_fit_witness:
  "let fr = \<lparr>memory_map = [1, 1, 0, 0], total_memory_blocks_count = 4, end_kernel = HM + 4096\<rparr> in
   case get_a_free_block fr of
      None \<Rightarrow> \<forall>i. unat (first_block fr) \<le> i \<and> i < unat (total_memory_blocks_count fr) \<longrightarrow> used fr i
    | Some (b, fr') \<Rightarrow> unat (first_block fr) \<le> unat b \<and> unat b < unat (total_memory_blocks_count fr)
        \<and> \<not> used fr (unat b) \<and> used fr' = (used fr)(unat b := True) \<and> frames_ok fr'
        \<and> (\<forall>i. unat (first_block fr) \<le> i \<and> i < unat b \<longrightarrow> used fr i)"
  unfolding Let_def by (rule get_a_free_block_first_fit) (simp add: frames_ok_def)

text \<open>
  C3. No two allocations share a block: the blocks that any number of successive
  calls of \<^verbatim>\<open>get_a_free_block\<close> return are pairwise different, were all free
  before, and are exactly the blocks that became used.
\<close>

theorem blocks_never_shared:
  assumes "frames_ok fr" "alloc_many alloc_block k fr = Some (bs, fr')"
  shows "frames_ok fr' \<and> length bs = k \<and> distinct bs \<and> (\<forall>b\<in>set bs. \<not> used fr b)
     \<and> (\<forall>b. used fr' b \<longleftrightarrow> used fr b \<or> b \<in> set bs)"
  using assms by (rule block_pool.alloc_many_distinct)

theorem blocks_never_shared_witness:
  "\<exists>fr'. alloc_many alloc_block 2
       \<lparr>memory_map = [1, 0, 1, 0], total_memory_blocks_count = 4, end_kernel = HM + 4096\<rparr> = Some ([1, 3], fr')
     \<and> distinct [1, 3 :: nat] \<and> (\<forall>b. used fr' b \<longleftrightarrow> used
        \<lparr>memory_map = [1, 0, 1, 0], total_memory_blocks_count = 4, end_kernel = HM + 4096\<rparr> b \<or> b \<in> set [1, 3])"
proof -
  let ?fr = "\<lparr>memory_map = [1, 0, 1, 0], total_memory_blocks_count = 4, end_kernel = HM + 4096\<rparr>"
  have a: "alloc_many alloc_block 2 ?fr =
      Some ([1, 3], ?fr\<lparr>memory_map := [1, 1, 1, 1]\<rparr>)"
    by code_simp
  have "frames_ok ?fr" by (simp add: frames_ok_def)
  from blocks_never_shared [OF this a] a show ?thesis by blast
qed

text \<open>
  C30. \<^verbatim>\<open>get_continuous_free_blocks\<close> returns the start of a run of free blocks
  and marks exactly that run, whenever the map has room for the run behind the
  last block.
\<close>

theorem get_continuous_free_blocks_run:
  assumes "get_continuous_free_blocks fr len = Some (b, fr')"
    "unat (total_memory_blocks_count fr) + unat len \<le> length (memory_map fr)"
    "unat (total_memory_blocks_count fr) + unat len < 2 ^ 64"
  shows "unat (first_block fr) \<le> unat b \<and> unat b < unat (total_memory_blocks_count fr)
    \<and> (\<forall>j<unat len. \<not> used fr (unat b + j))
    \<and> (\<forall>j. used fr' j = (unat b \<le> j \<and> j < unat b + unat len \<or> used fr j))"
proof -
  let ?k = "unat (total_memory_blocks_count fr) - unat (first_block fr)"
  have "?k \<noteq> 0" using assms(1) by (cases ?k) (auto simp: get_continuous_free_blocks_def)
  then have "unat (first_block fr) + ?k = unat (total_memory_blocks_count fr)" by simp
  with continuous_from_Some [of ?k "first_block fr" "unat len" fr b fr'] assms
  show ?thesis by (simp add: get_continuous_free_blocks_def)
qed

theorem get_continuous_free_blocks_run_witness:
  "let fr = \<lparr>memory_map = [1, 0, 1, 0, 0, 0], total_memory_blocks_count = 4, end_kernel = HM + 4096\<rparr>;
       fr' = \<lparr>memory_map = [1, 0, 1, 1, 1, 0], total_memory_blocks_count = 4, end_kernel = HM + 4096\<rparr> in
   get_continuous_free_blocks fr 2 = Some (3, fr') \<and>
   unat (first_block fr) \<le> unat (3 :: u64) \<and> unat (3 :: u64) < unat (total_memory_blocks_count fr)
    \<and> (\<forall>j<unat (2 :: u64). \<not> used fr (unat (3 :: u64) + j))
    \<and> (\<forall>j. used fr' j = (unat (3 :: u64) \<le> j \<and> j < unat (3 :: u64) + unat (2 :: u64) \<or> used fr j))"
proof -
  let ?fr = "\<lparr>memory_map = [1, 0, 1, 0, 0, 0], total_memory_blocks_count = 4, end_kernel = HM + 4096\<rparr>"
  let ?fr' = "\<lparr>memory_map = [1, 0, 1, 1, 1, 0], total_memory_blocks_count = 4, end_kernel = HM + 4096\<rparr>"
  have g: "get_continuous_free_blocks ?fr 2 = Some (3, ?fr')"
    by code_simp
  show ?thesis
    unfolding Let_def using g get_continuous_free_blocks_run [OF g] by simp
qed

text \<open>
  A run may lie behind the end of the machine's memory: only its first block is
  compared with the number of blocks.
\<close>

lemma continuous_run_past_end:
  "\<exists>fr fr'. get_continuous_free_blocks fr 2 = Some (total_memory_blocks_count fr - 1, fr')
     \<and> frames_ok fr \<and> used fr' (unat (total_memory_blocks_count fr))"
proof -
  let ?fr = "\<lparr>memory_map = [1, 1, 0, 0], total_memory_blocks_count = 3, end_kernel = HM + 4096\<rparr>"
  have "get_continuous_free_blocks ?fr 2 = Some (2, ?fr\<lparr>memory_map := [1, 1, 1, 1]\<rparr>)"
    by code_simp
  moreover have "frames_ok ?fr" "used (?fr\<lparr>memory_map := [1, 1, 1, 1]\<rparr>) 3"
    by (simp_all add: frames_ok_def used_def)
  ultimately show ?thesis
    by (intro exI [of _ ?fr] exI [of _ "?fr\<lparr>memory_map := [1, 1, 1, 1]\<rparr>"]) simp
qed

text \<open>
  \<^verbatim>\<open>get_a_free_slot\<close> returns the first empty entry of the table between
  the two bounds, both included, and panics when there is none.
\<close>

theorem get_a_free_slot_first:
  assumes "unat stop < length t" "unat start \<le> unat stop"
  shows "case get_a_free_slot t start stop of
      None \<Rightarrow> \<forall>j. unat start \<le> j \<and> j \<le> unat stop \<longrightarrow> t ! j \<noteq> 0
    | Some i \<Rightarrow> start \<le> i \<and> i \<le> stop \<and> t ! unat i = 0
        \<and> (\<forall>j. unat start \<le> j \<and> j < unat i \<longrightarrow> t ! j \<noteq> 0)"
proof -
  let ?k = "Suc (unat stop) - unat start"
  have g: "get_a_free_slot t start stop = map_option of_nat (first_from ?k (unat start) (\<lambda>j. t ! j = 0))"
    unfolding get_a_free_slot_def
    using assms unat_bound [of stop] by (intro free_slot_from_spec) auto
  show ?thesis
  proof (cases "first_from ?k (unat start) (\<lambda>j. t ! j = 0)")
    case None
    then have "\<forall>j. unat start \<le> j \<and> j \<le> unat stop \<longrightarrow> t ! j \<noteq> 0"
      using assms(2) by (simp add: first_from_None less_Suc_eq_le)
    with None g show ?thesis by simp
  next
    case (Some j)
    with first_from_SomeD [OF Some] assms have "unat start \<le> j" "j \<le> unat stop" "t ! j = 0"
        "\<forall>m. unat start \<le> m \<and> m < j \<longrightarrow> t ! m \<noteq> 0" by auto
    moreover have "unat (of_nat j :: u64) = j"
      using calculation(2) unat_bound [of stop] by (intro unat_of_nat_lt) simp
    ultimately show ?thesis using g Some by (simp add: word_le_nat_alt)
  qed
qed

theorem get_a_free_slot_first_witness:
  "case get_a_free_slot [5, 6, 0, 0] 1 3 of
      None \<Rightarrow> \<forall>j. unat (1 :: u64) \<le> j \<and> j \<le> unat (3 :: u64) \<longrightarrow> [5, 6, 0, 0 :: u64] ! j \<noteq> 0
    | Some i \<Rightarrow> 1 \<le> i \<and> i \<le> 3 \<and> [5, 6, 0, 0 :: u64] ! unat i = 0
        \<and> (\<forall>j. unat (1 :: u64) \<le> j \<and> j < unat i \<longrightarrow> [5, 6, 0, 0 :: u64] ! j \<noteq> 0)"
  by (rule get_a_free_slot_first) simp_all

text \<open>
  Called with the number of entries as its upper bound, the search can answer
  the index one past the last entry.
\<close>

lemma free_slot_one_past_end:
  "get_a_free_slot (replicate n 1 @ [0]) 0 (of_nat n) = Some (of_nat n)" if "n < 2 ^ 64"
proof -
  have "unat (of_nat n :: u64) = n" using that by (simp add: unat_of_nat_lt)
  moreover have "first_from (Suc n) 0 (\<lambda>j. (replicate n 1 @ [0 :: u64]) ! j = 0) = Some n"
    by (auto simp: first_from_eq_Some nth_append)
  ultimately show ?thesis
    using free_slot_from_spec [of 0 "Suc n" "replicate n 1 @ [0]"] that by (simp add: get_a_free_slot_def)
qed

text \<open>
  \<^verbatim>\<open>get_a_free_slot_with_size\<close>, on a table that starts at a slot boundary,
  returns the number of the first slot whose bytes are all zero, and the slot lies
  before the end of the table.
\<close>

theorem free_unit_first:
  assumes "get_a_free_slot_with_size m map_addr start stop u = Some r" "unat u dvd unat start"
  shows "unat start \<le> unat r * unat u \<and> unat r * unat u + unat u \<le> unat stop
    \<and> (\<forall>j<unat u. m (map_addr + of_nat (unat r * unat u + j)) = 0)
    \<and> (\<forall>q. unat start \<le> q * unat u \<and> q < unat r \<longrightarrow>
          (\<exists>j<unat u. m (map_addr + of_nat (q * unat u + j)) \<noteq> 0))"
proof -
  from assms obtain n where n: "free_unit_from m map_addr (unat start) (unat stop) (unat u) = Some n" "r = of_nat n"
    by (auto simp: get_a_free_slot_with_size_def)
  note S = free_unit_from_Some [OF n(1) assms(2)]
  have "unat u \<noteq> 0"
    using n(1) unit_not_free_pos by (metis free_unit_from.simps less_irrefl option.distinct(1))
  then have "n \<le> n * unat u" by simp
  then have "n \<le> unat stop" using S by linarith
  then have "unat r = n" using n(2) unat_bound [of stop] by (simp add: unat_of_nat_lt)
  with S show ?thesis by (auto simp: unit_free_iff)
qed

theorem free_unit_first_witness:
  "let m = (\<lambda>a :: u64. if a < 102 then 1 else 0 :: u8) in
   get_a_free_slot_with_size m 100 0 6 2 = Some 1 \<and>
   unat (0 :: u64) \<le> unat (1 :: u64) * unat (2 :: u64) \<and> unat (1 :: u64) * unat (2 :: u64) + unat (2 :: u64) \<le> unat (6 :: u64)
    \<and> (\<forall>j<unat (2 :: u64). m (100 + of_nat (unat (1 :: u64) * unat (2 :: u64) + j)) = 0)
    \<and> (\<forall>q. unat (0 :: u64) \<le> q * unat (2 :: u64) \<and> q < unat (1 :: u64) \<longrightarrow>
          (\<exists>j<unat (2 :: u64). m (100 + of_nat (q * unat (2 :: u64) + j)) \<noteq> 0))"
proof -
  let ?m = "\<lambda>a :: u64. if a < 102 then 1 else 0 :: u8"
  have "free_unit_from ?m 100 0 6 2 = Some 1"
    by code_simp
  then have g: "get_a_free_slot_with_size ?m 100 0 6 2 = Some 1" by (simp add: get_a_free_slot_with_size_def)
  show ?thesis unfolding Let_def using g free_unit_first [OF g] by simp
qed

text \<open>
  \<^verbatim>\<open>free_block\<close> does not take the offset of the kernel's window off the
  address, so an address that \<^verbatim>\<open>get_a_free_block_addr\<close> returned is looked up
  far behind the map.
\<close>

lemma free_block_misses:
  assumes "unat b < 2 ^ 34" "length (memory_map fr) \<le> 2 ^ 34"
  shows "free_block fr (b * 4096 + HM) = None"
proof -
  have w: "unat (b * 4096 + HM) = unat b * 4096 + 2 ^ 46"
  proof -
    have "b * 4096 + HM = of_nat (unat b * 4096 + 2 ^ 46)" by (simp add: HM_def)
    moreover have "unat b * 4096 + 2 ^ 46 < 2 ^ LENGTH(64)" using assms(1) by simp
    ultimately show ?thesis by (metis unat_of_nat_lt)
  qed
  have "unat ((b * 4096 + HM) div 4096) = unat b + 2 ^ 34" "unat ((b * 4096 + HM) mod 4096) = 0"
    by (simp_all add: unat_div unat_mod w)
  then show ?thesis
    using assms(2)
    by (simp add: free_block_def div_ceil_def set_memory_block_used_when_boot_def upd_opt_def word_less_nat_alt)
qed

end
