(* ===== verification/Paging.thy ===== *)
theory Paging
  imports Frames
begin

text \<open>
  The page tables of a process: the walk, the growth and the shrinking by one
  page, and the search for an unmapped region of \<^verbatim>\<open>src/core/scheduler.h\<close>.

  Page tables are only read and written in aligned 64-bit words, so memory is a
  function from the address of a word to its contents.  A table is addressed
  through the kernel's window at \<^const>\<open>HM\<close>.
\<close>

type_synonym mem64 = "u64 \<Rightarrow> u64"

record vm =
  vm_frames :: frames
  vm_mem :: mem64
  processes_cr3_ptr :: "u64 list"

definition PTE_FLAGS :: u64 where
  "PTE_FLAGS = 1 OR 2 OR 4"

definition page_line_to_addr :: "u64 \<Rightarrow> u64" where
  "page_line_to_addr pageline = (pageline AND 0x000FFFFFFFFFF000) + HM"

fun erase_words :: "nat \<Rightarrow> u64 \<Rightarrow> mem64 \<Rightarrow> u64 \<Rightarrow> mem64" where
  "erase_words 0 i m ptr = m"
| "erase_words (Suc k) i m ptr = erase_words k (i + 1) (m(ptr + 8 * i := 0)) ptr"

definition erase_block :: "mem64 \<Rightarrow> u64 \<Rightarrow> mem64" where
  "erase_block m ptr = erase_words 512 0 m ptr"

text \<open>The index of an address at each of the four levels.\<close>

definition l4_i :: "u64 \<Rightarrow> u64" where "l4_i virt_addr = drop_bit 39 virt_addr AND 0x1FF"
definition l3_i :: "u64 \<Rightarrow> u64" where "l3_i virt_addr = drop_bit 30 virt_addr AND 0x1FF"
definition l2_i :: "u64 \<Rightarrow> u64" where "l2_i virt_addr = drop_bit 21 virt_addr AND 0x1FF"
definition l1_i :: "u64 \<Rightarrow> u64" where "l1_i virt_addr = drop_bit 12 virt_addr AND 0x1FF"

text \<open>
  The stanza that \<^verbatim>\<open>increase_paging_of_process_with_virt_addr\<close> repeats at the
  three upper levels: follow the entry, or install an empty table there.
\<close>

definition next_level :: "vm \<Rightarrow> u64 \<Rightarrow> u64 \<Rightarrow> (u64 \<times> vm) option" where
  "next_level s ptr i =
     (if vm_mem s (ptr + 8 * i) = 0 then do {
        (new_block_addr, fr) \<leftarrow> get_a_free_block_addr (vm_frames s);
        let m = erase_block (vm_mem s) new_block_addr;
            m' = m(ptr + 8 * i := (new_block_addr - HM) OR PTE_FLAGS)
        in Some (new_block_addr, s\<lparr>vm_frames := fr, vm_mem := m'\<rparr>) }
      else Some (page_line_to_addr (vm_mem s (ptr + 8 * i)), s))"

text \<open>The page itself; the physical address is only known when it is new.\<close>

definition map_page :: "vm \<Rightarrow> u64 \<Rightarrow> u64 \<Rightarrow> (u64 option \<times> vm) option" where
  "map_page s ptr i =
     (if vm_mem s (ptr + 8 * i) = 0 then do {
        (a, fr) \<leftarrow> get_a_free_block_addr (vm_frames s);
        let phys_addr = a - HM
        in Some (Some phys_addr, s\<lparr>vm_frames := fr, vm_mem := (vm_mem s)(ptr + 8 * i := phys_addr OR PTE_FLAGS)\<rparr>) }
      else Some (None, s))"

definition increase_paging_of_process_with_virt_addr :: "vm \<Rightarrow> u64 \<Rightarrow> u64 \<Rightarrow> (u64 option \<times> vm) option" where
  "increase_paging_of_process_with_virt_addr s pid virt_addr = do {
     l4_ptr \<leftarrow> nth_opt (processes_cr3_ptr s) (unat pid);
     (l3_ptr, s3) \<leftarrow> next_level s l4_ptr (l4_i virt_addr);
     (l2_ptr, s2) \<leftarrow> next_level s3 l3_ptr (l3_i virt_addr);
     (l1_ptr, s1) \<leftarrow> next_level s2 l2_ptr (l2_i virt_addr);
     map_page s1 l1_ptr (l1_i virt_addr) }"

definition block_empty :: "mem64 \<Rightarrow> u64 \<Rightarrow> bool" where
  "block_empty m addr = (first_from 512 0 (\<lambda>i. m (addr + 8 * of_nat i) \<noteq> 0) = None)"

text \<open>
  One step of the way back up in \<^verbatim>\<open>decrease_paging_of_process_with_virt_addr\<close>:
  the page line itself is used as the number of the block to free.
\<close>

definition drop_entry :: "vm \<Rightarrow> u64 \<Rightarrow> u64 \<Rightarrow> (bool \<times> vm) option" where
  "drop_entry s ptr i = do {
     fr \<leftarrow> set_memory_block_used_when_boot (vm_frames s) (vm_mem s (ptr + 8 * i)) False;
     let m = (vm_mem s)(ptr + 8 * i := 0)
     in Some (block_empty m ptr, s\<lparr>vm_frames := fr, vm_mem := m\<rparr>) }"

definition decrease_paging_of_process_with_virt_addr :: "vm \<Rightarrow> u64 \<Rightarrow> u64 \<Rightarrow> vm option" where
  "decrease_paging_of_process_with_virt_addr s pid virt_addr = do {
     l4_ptr \<leftarrow> nth_opt (processes_cr3_ptr s) (unat pid);
     let i4 = l4_i virt_addr; i3 = l3_i virt_addr; i2 = l2_i virt_addr; i1 = l1_i virt_addr;
         m = vm_mem s; e4 = m (l4_ptr + 8 * i4)
     in if e4 = 0 then Some s else
       let l3_ptr = page_line_to_addr e4; e3 = m (l3_ptr + 8 * i3)
       in if e3 = 0 then Some s else
         let l2_ptr = page_line_to_addr e3; e2 = m (l2_ptr + 8 * i2)
         in if e2 = 0 then Some s else
           let l1_ptr = page_line_to_addr e2
           in if m (l1_ptr + 8 * i1) = 0 then Some s else do {
             (empty1, s1) \<leftarrow> drop_entry s l1_ptr i1;
             if \<not> empty1 then Some s1 else do {
               (empty2, s2) \<leftarrow> drop_entry s1 l2_ptr i2;
               if \<not> empty2 then Some s2 else do {
                 (empty3, s3) \<leftarrow> drop_entry s2 l3_ptr i3;
                 if \<not> empty3 then Some s3 else do {
                   (_, s4) \<leftarrow> drop_entry s3 l4_ptr i4;
                   Some s4 } } } } }"

definition is_paged :: "vm \<Rightarrow> u64 \<Rightarrow> u64 \<Rightarrow> bool option" where
  "is_paged s pid virt_addr = do {
     l4_ptr \<leftarrow> nth_opt (processes_cr3_ptr s) (unat pid);
     let m = vm_mem s; e4 = m (l4_ptr + 8 * l4_i virt_addr)
     in if e4 = 0 then Some False else
       let e3 = m (page_line_to_addr e4 + 8 * l3_i virt_addr)
       in if e3 = 0 then Some False else
         let e2 = m (page_line_to_addr e3 + 8 * l2_i virt_addr)
         in if e2 = 0 then Some False else
           let e1 = m (page_line_to_addr e2 + 8 * l1_i virt_addr)
           in if e1 = 0 then Some False else Some True }"

definition find_free_virtual_region :: "vm \<Rightarrow> u64 \<Rightarrow> u64 \<Rightarrow> u64 option" where
  "find_free_virtual_region s pid len = do {
     blocks_count \<leftarrow> div_ceil len 4096;
     _ \<leftarrow> nth_opt (processes_cr3_ptr s) (unat pid);
     case first_from (unat (HM div 4096 - 1) - 1) 1
        (\<lambda>i. first_from (unat blocks_count) 0
          (\<lambda>j. is_paged s pid ((of_nat i + of_nat j) * 4096) = Some True) = None) of
       Some i \<Rightarrow> Some (of_nat i * 4096)
     | None \<Rightarrow> Some 0 }"

section \<open>The invariant of the tables\<close>

text \<open>The address of block \<open>b\<close> in the window of the kernel.\<close>

definition blk :: "nat \<Rightarrow> u64" where
  "blk b = of_nat b * 4096 + HM"

text \<open>The entries of a top-level table below 128 belong to the process, the others to the kernel.\<close>

definition level_size :: "nat \<Rightarrow> nat" where
  "level_size n = (if n = 4 then 128 else 512)"

text \<open>A page-table tree of \<open>n\<close> levels at \<open>p\<close>: every table and every page it reaches is a used block, and a block serves as a table of one level only, which \<open>lv\<close> records.\<close>

primrec tree_ok :: "(nat \<Rightarrow> nat) \<Rightarrow> frames \<Rightarrow> mem64 \<Rightarrow> nat \<Rightarrow> u64 \<Rightarrow> bool" where
  "tree_ok lv fr m 0 p = (\<exists>b<2 ^ 35. p = blk b \<and> used fr b)"
| "tree_ok lv fr m (Suc n) p = (\<exists>b<2 ^ 35. p = blk b \<and> used fr b \<and> lv b = Suc n \<and>
     (\<forall>i<level_size (Suc n). m (p + 8 * of_nat i) \<noteq> 0 \<longrightarrow> tree_ok lv fr m n (page_line_to_addr (m (p + 8 * of_nat i)))))"

text \<open>The walk along the given indices.\<close>

fun walk :: "mem64 \<Rightarrow> u64 \<Rightarrow> nat list \<Rightarrow> u64 option" where
  "walk m p [] = Some p"
| "walk m p (i # is) =
     (if m (p + 8 * of_nat i) = 0 then None else walk m (page_line_to_addr (m (p + 8 * of_nat i))) is)"

fun fits :: "nat \<Rightarrow> nat list \<Rightarrow> bool" where
  "fits n [] = True"
| "fits (Suc n) (i # is) = (i < level_size (Suc n) \<and> fits n is)"
| "fits 0 (i # is) = False"

definition pool_ok :: "frames \<Rightarrow> bool" where
  "pool_ok fr \<longleftrightarrow> frames_ok fr \<and> unat (total_memory_blocks_count fr) \<le> 2 ^ 35"

text \<open>A state that extends another: more blocks are used, every tree stays one, and no entry that was set changes.\<close>

definition extends :: "(nat \<Rightarrow> nat) \<Rightarrow> vm \<Rightarrow> (nat \<Rightarrow> nat) \<Rightarrow> vm \<Rightarrow> bool" where
  "extends lv s lv' s' \<longleftrightarrow> pool_ok (vm_frames s') \<and> processes_cr3_ptr s' = processes_cr3_ptr s
     \<and> (\<forall>b. used (vm_frames s) b \<longrightarrow> used (vm_frames s') b)
     \<and> (\<forall>k p. tree_ok lv (vm_frames s) (vm_mem s) k p \<longrightarrow> tree_ok lv' (vm_frames s') (vm_mem s') k p)
     \<and> (\<forall>b i. b < 2 ^ 35 \<and> used (vm_frames s) b \<and> i < 512 \<and> vm_mem s (blk b + 8 * of_nat i) \<noteq> 0 \<longrightarrow>
          vm_mem s' (blk b + 8 * of_nat i) = vm_mem s (blk b + 8 * of_nat i))"

definition page_indices :: "u64 \<Rightarrow> nat list" where
  "page_indices va = [unat (l4_i va), unat (l3_i va), unat (l2_i va), unat (l1_i va)]"

text \<open>The block a virtual address is mapped to.\<close>

definition translate :: "vm \<Rightarrow> u64 \<Rightarrow> u64 \<Rightarrow> u64 option" where
  "translate s pid va = do {
     p \<leftarrow> nth_opt (processes_cr3_ptr s) (unat pid);
     if p = 0 then None else walk (vm_mem s) p (page_indices va) }"

text \<open>The invariant: the root table of every process is a tree.\<close>

definition vm_ok :: "(nat \<Rightarrow> nat) \<Rightarrow> vm \<Rightarrow> bool" where
  "vm_ok lv s \<longleftrightarrow> pool_ok (vm_frames s) \<and>
     (\<forall>p\<in>set (processes_cr3_ptr s). p \<noteq> 0 \<longrightarrow> tree_ok lv (vm_frames s) (vm_mem s) 4 p)"

text \<open>The three upper levels of the walk that the growth makes, from the root \<open>p4\<close>.\<close>

definition upper_levels :: "vm \<Rightarrow> u64 \<Rightarrow> u64 \<Rightarrow> (u64 \<times> vm) option" where
  "upper_levels s p4 va = do {
     (p3, s3) \<leftarrow> next_level s p4 (l4_i va);
     (p2, s2) \<leftarrow> next_level s3 p3 (l3_i va);
     next_level s2 p2 (l2_i va) }"

definition free_count :: "frames \<Rightarrow> nat" where
  "free_count fr = card {i. unat (first_block fr) \<le> i \<and> i < unat (total_memory_blocks_count fr) \<and> \<not> used fr i}"

section \<open>Addresses and entries\<close>

lemma unat_blk_word:
  assumes "b < 2 ^ 35" "i < 512"
  shows "unat (blk b + 8 * of_nat i) = 2 ^ 46 + b * 4096 + 8 * i"
proof -
  have "blk b + 8 * of_nat i = of_nat (2 ^ 46 + b * 4096 + 8 * i)" by (simp add: blk_def HM_def)
  moreover have "2 ^ 46 + b * 4096 + 8 * i < 2 ^ LENGTH(64)" using assms by simp
  ultimately show ?thesis by (metis unat_of_nat_lt)
qed

lemma blk_word_inj:
  assumes "b < 2 ^ 35" "i < 512" "b' < 2 ^ 35" "i' < 512" "blk b + 8 * of_nat i = blk b' + 8 * of_nat i'"
  shows "b = b' \<and> i = i'"
proof -
  have "2 ^ 46 + b * 4096 + 8 * i = 2 ^ 46 + b' * 4096 + 8 * i'"
    using unat_blk_word assms by metis
  then have "b * 4096 + 8 * i = b' * 4096 + 8 * i'" by simp
  moreover have "b = (b * 4096 + 8 * i) div 4096" "b' = (b' * 4096 + 8 * i') div 4096" using assms by auto
  ultimately show ?thesis by simp
qed

lemma blk_inj: "b < 2 ^ 35 \<Longrightarrow> b' < 2 ^ 35 \<Longrightarrow> blk b = blk b' \<Longrightarrow> b = b'"
  using blk_word_inj [of b 0 b' 0] by simp

lemma pte_roundtrip:
  assumes "b < 2 ^ 35"
  shows "page_line_to_addr ((blk b - HM) OR PTE_FLAGS) = blk b" "(blk b - HM) OR PTE_FLAGS \<noteq> 0"
proof -
  have e: "blk b - HM = push_bit 12 (of_nat b)" by (simp add: blk_def push_bit_eq_mult)
  have m: "(0x000FFFFFFFFFF000 :: u64) = push_bit 12 (mask 40)" by (simp add: mask_eq_exp_minus_1)
  have f: "PTE_FLAGS = mask 3" by (simp add: PTE_FLAGS_def mask_eq_exp_minus_1)
  have "unat (of_nat b :: u64) = b" using assms by (intro unat_of_nat_lt) simp
  then have t: "take_bit 40 (of_nat b :: u64) = of_nat b"
    using assms by (simp add: word_unat_eq_iff unsigned_take_bit_eq take_bit_nat_eq_self)
  have "(push_bit 12 (of_nat b) OR mask 3) AND push_bit 12 (mask 40) = push_bit 12 (take_bit 40 (of_nat b) :: u64)"
    by (rule bit_word_eqI) (auto simp: bit_simps)
  then show "page_line_to_addr ((blk b - HM) OR PTE_FLAGS) = blk b"
    by (simp add: page_line_to_addr_def e m f t) (simp add: blk_def push_bit_eq_mult)
  have "bit ((blk b - HM) OR PTE_FLAGS) 0" by (simp add: f bit_simps)
  then show "(blk b - HM) OR PTE_FLAGS \<noteq> 0" by auto
qed

lemma erase_words_spec:
  "erase_words k (of_nat n) m p x = (if \<exists>i<k. x = p + 8 * of_nat (n + i) then 0 else m x)"
proof (induction k arbitrary: n m)
  case (Suc k)
  have e: "erase_words (Suc k) (of_nat n) m p x = erase_words k (of_nat (Suc n)) (m(p + 8 * of_nat n := 0)) p x"
    by (simp add: add.commute)
  have c: "(\<exists>i<Suc k. x = p + 8 * of_nat (n + i)) \<longleftrightarrow> x = p + 8 * of_nat n \<or> (\<exists>i<k. x = p + 8 * of_nat (Suc n + i))"
    unfolding Ex_less_Suc2 by simp
  have "(if B then 0 else (m(q := 0)) x) = (if x = q \<or> B then 0 else m x)" for B q by auto
  then show ?case unfolding e Suc.IH c .
qed simp

lemma erase_block_spec: "erase_block m p x = (if \<exists>i<512. x = p + 8 * of_nat i then 0 else m x)"
  using erase_words_spec [of 512 0 m p x] by (simp add: erase_block_def)

lemma free_block_addr_Some:
  assumes "pool_ok fr" "get_a_free_block_addr fr = Some (a, fr')"
  obtains b where "a = blk b" "b < 2 ^ 35" "\<not> used fr b" "used fr' = (used fr)(b := True)" "pool_ok fr'"
proof -
  from assms(2) obtain w where w: "get_a_free_block fr = Some (w, fr')" "a = w * 4096 + HM"
    by (auto simp: get_a_free_block_addr_def bind_eq_Some_conv)
  note S = get_a_free_block_Some [OF _ w(1)]
  have "frames_ok fr" "unat (total_memory_blocks_count fr) \<le> 2 ^ 35" using assms(1) by (auto simp: pool_ok_def)
  with S have "a = blk (unat w)" "unat w < 2 ^ 35" "\<not> used fr (unat w)" "used fr' = (used fr)(unat w := True)" "pool_ok fr'"
    by (auto simp: w(2) blk_def pool_ok_def)
  then show ?thesis by (rule that)
qed

lemma level_size_le: "level_size n \<le> 512"
  by (simp add: level_size_def)

section \<open>Trees and walks\<close>

lemma tree_ok_mono:
  assumes "tree_ok lv fr m n p"
    and "\<And>b. used fr b \<Longrightarrow> used fr' b"
    and "\<And>b. used fr b \<Longrightarrow> lv' b = lv b"
    and "\<And>k b i. \<lbrakk>b < 2 ^ 35; used fr b; lv b = Suc k; i < level_size (Suc k); m' (blk b + 8 * of_nat i) \<noteq> m (blk b + 8 * of_nat i)\<rbrakk>
        \<Longrightarrow> tree_ok lv' fr' m' k (page_line_to_addr (m' (blk b + 8 * of_nat i)))"
  shows "tree_ok lv' fr' m' n p"
  using assms(1)
proof (induction n arbitrary: p)
  case 0
  then show ?case using assms(2) by auto
next
  case (Suc n)
  then obtain b where b: "b < 2 ^ 35" "p = blk b" "used fr b" "lv b = Suc n"
    "\<forall>i<level_size (Suc n). m (p + 8 * of_nat i) \<noteq> 0 \<longrightarrow> tree_ok lv fr m n (page_line_to_addr (m (p + 8 * of_nat i)))"
    by auto
  have "tree_ok lv' fr' m' n (page_line_to_addr (m' (p + 8 * of_nat i)))"
    if i: "i < level_size (Suc n)" "m' (p + 8 * of_nat i) \<noteq> 0" for i
  proof (cases "m' (p + 8 * of_nat i) = m (p + 8 * of_nat i)")
    case True
    with b(5) i Suc.IH show ?thesis by auto
  next
    case False
    with b i assms(4) show ?thesis by auto
  qed
  with b assms(2,3) show ?case by auto
qed

lemma walk_stable:
  assumes "tree_ok lv fr m N p" "walk m p is = Some e" "fits N is"
    and "\<And>b i. \<lbrakk>b < 2 ^ 35; used fr b; i < 512; m (blk b + 8 * of_nat i) \<noteq> 0\<rbrakk> \<Longrightarrow> m' (blk b + 8 * of_nat i) = m (blk b + 8 * of_nat i)"
  shows "walk m' p is = Some e"
  using assms(1-3)
proof (induction N "is" arbitrary: p rule: fits.induct)
  case (2 n i "is")
  then obtain b where b: "b < 2 ^ 35" "p = blk b" "used fr b"
    "m (p + 8 * of_nat i) \<noteq> 0" "tree_ok lv fr m n (page_line_to_addr (m (p + 8 * of_nat i)))"
    "walk m (page_line_to_addr (m (p + 8 * of_nat i))) is = Some e" "i < level_size (Suc n)" "fits n is"
    by (auto split: if_splits)
  then have "i < 512" using level_size_le [of "Suc n"] by linarith
  with b assms(4) have "m' (p + 8 * of_nat i) = m (p + 8 * of_nat i)" by auto
  with b 2 show ?case by simp
qed auto

lemma extends_refl: "pool_ok (vm_frames s) \<Longrightarrow> extends lv s lv s"
  by (simp add: extends_def)

lemma extends_trans: "\<lbrakk>extends lv s lv' s'; extends lv' s' lv'' s''\<rbrakk> \<Longrightarrow> extends lv s lv'' s''"
  unfolding extends_def by (metis (no_types, lifting))

lemma extends_pool: "extends lv s lv' s' \<Longrightarrow> pool_ok (vm_frames s')"
  by (simp add: extends_def)

lemma extends_tree: "\<lbrakk>extends lv s lv' s'; tree_ok lv (vm_frames s) (vm_mem s) k p\<rbrakk> \<Longrightarrow> tree_ok lv' (vm_frames s') (vm_mem s') k p"
  by (simp add: extends_def)

lemma extends_entry:
  assumes "extends lv s lv' s'" "tree_ok lv (vm_frames s) (vm_mem s) k p" "i < 512" "vm_mem s (p + 8 * of_nat i) \<noteq> 0"
  shows "vm_mem s' (p + 8 * of_nat i) = vm_mem s (p + 8 * of_nat i)"
  using assms by (cases k) (auto simp: extends_def)

section \<open>Growing the tables\<close>

lemma next_level_step:
  assumes "pool_ok (vm_frames s)" "tree_ok lv (vm_frames s) (vm_mem s) (Suc (Suc n)) p"
    "i < level_size (Suc (Suc n))" "next_level s p (of_nat i) = Some (p', s')"
  shows "\<exists>lv'. extends lv s lv' s' \<and> tree_ok lv' (vm_frames s') (vm_mem s') (Suc n) p'
    \<and> vm_mem s' (p + 8 * of_nat i) \<noteq> 0 \<and> page_line_to_addr (vm_mem s' (p + 8 * of_nat i)) = p'
    \<and> (if vm_mem s (p + 8 * of_nat i) = 0 then \<forall>j<512. vm_mem s' (p' + 8 * of_nat j) = 0 else s' = s)"
proof (cases "vm_mem s (p + 8 * of_nat i) = 0")
  case False
  with assms have "s' = s" "p' = page_line_to_addr (vm_mem s (p + 8 * of_nat i))"
    by (auto simp: next_level_def)
  with False assms show ?thesis by (intro exI [of _ lv]) (auto simp: extends_refl)
next
  case True
  with assms(4) obtain fr where a: "get_a_free_block_addr (vm_frames s) = Some (p', fr)"
    "s' = s\<lparr>vm_frames := fr, vm_mem := (erase_block (vm_mem s) p')(p + 8 * of_nat i := (p' - HM) OR PTE_FLAGS)\<rparr>"
    by (auto simp: next_level_def bind_eq_Some_conv)
  obtain b where b: "p' = blk b" "b < 2 ^ 35" "\<not> used (vm_frames s) b" "used fr = (used (vm_frames s))(b := True)" "pool_ok fr"
    using free_block_addr_Some [OF assms(1) a(1)] .
  obtain c where c: "c < 2 ^ 35" "p = blk c" "used (vm_frames s) c" "lv c = Suc (Suc n)" using assms(2) by auto
  have i: "i < 512" using assms(3) level_size_le [of "Suc (Suc n)"] by linarith
  note m' = pte_roundtrip [OF b(2), folded b(1)]
  have pte: "vm_mem s' (blk c + 8 * of_nat i) = (p' - HM) OR PTE_FLAGS" by (simp add: a(2) c(2))
  have zero: "vm_mem s' (blk b + 8 * of_nat j) = 0" if "j < 512" for j
    using blk_word_inj [OF b(2) that c(1) i] that b(3) c(3)
    by (auto simp: a(2) erase_block_spec b(1) c(2))
  have same: "vm_mem s' (blk d + 8 * of_nat j) = vm_mem s (blk d + 8 * of_nat j)"
    if "d < 2 ^ 35" "used (vm_frames s) d" "j < 512" "\<not> (d = c \<and> j = i)" for d j
    using blk_word_inj [OF that(1,3) c(1) i] blk_word_inj [OF that(1,3) b(2)] that b(3)
    by (auto simp: a(2) erase_block_spec b(1) c(2))
  let ?lv = "lv(b := Suc n)"
  have new: "tree_ok ?lv (vm_frames s') (vm_mem s') (Suc n) p'"
    using b zero level_size_le [of "Suc n"] by (auto simp: a(2) intro!: exI [of _ b])
  have "tree_ok ?lv (vm_frames s') (vm_mem s') k q" if "tree_ok lv (vm_frames s) (vm_mem s) k q" for k q
  proof (rule tree_ok_mono [OF that])
    fix k d j
    assume d: "d < 2 ^ 35" "used (vm_frames s) d" "lv d = Suc k" "j < level_size (Suc k)"
      "vm_mem s' (blk d + 8 * of_nat j) \<noteq> vm_mem s (blk d + 8 * of_nat j)"
    have "j < 512" using d(4) level_size_le [of "Suc k"] by linarith
    with same d have "d = c \<and> j = i" by blast
    with d(3) c(4) pte m'(1) new show "tree_ok ?lv (vm_frames s') (vm_mem s') k (page_line_to_addr (vm_mem s' (blk d + 8 * of_nat j)))"
      by simp
  qed (use b in \<open>auto simp: a(2)\<close>)
  moreover have "vm_mem s (blk c + 8 * of_nat i) = 0" using True c(2) by simp
  then have "\<forall>d j. d < 2 ^ 35 \<and> used (vm_frames s) d \<and> j < 512 \<and> vm_mem s (blk d + 8 * of_nat j) \<noteq> 0 \<longrightarrow>
      vm_mem s' (blk d + 8 * of_nat j) = vm_mem s (blk d + 8 * of_nat j)"
    using same by metis
  ultimately have "extends lv s ?lv s'"
    using b by (auto simp: extends_def a(2))
  with new pte m' zero True show ?thesis by (intro exI [of _ ?lv]) (simp add: c(2) b(1))
qed

lemma map_page_step:
  assumes "pool_ok (vm_frames s)" "tree_ok lv (vm_frames s) (vm_mem s) (Suc 0) p"
    "i < 512" "map_page s p (of_nat i) = Some (r, s')"
  shows "extends lv s lv s' \<and> vm_mem s' (p + 8 * of_nat i) \<noteq> 0
    \<and> (if vm_mem s (p + 8 * of_nat i) \<noteq> 0 then r = None \<and> s' = s
       else \<exists>b<2 ^ 35. r = Some (blk b - HM) \<and> page_line_to_addr (vm_mem s' (p + 8 * of_nat i)) = blk b
          \<and> \<not> used (vm_frames s) b \<and> used (vm_frames s') b)"
proof (cases "vm_mem s (p + 8 * of_nat i) = 0")
  case False
  with assms have "s' = s" "r = None" by (auto simp: map_page_def)
  with False assms show ?thesis by (auto simp: extends_refl)
next
  case True
  with assms(4) obtain q fr where a: "get_a_free_block_addr (vm_frames s) = Some (q, fr)" "r = Some (q - HM)"
    "s' = s\<lparr>vm_frames := fr, vm_mem := (vm_mem s)(p + 8 * of_nat i := (q - HM) OR PTE_FLAGS)\<rparr>"
    by (auto simp: map_page_def Let_def bind_eq_Some_conv)
  obtain b where b: "q = blk b" "b < 2 ^ 35" "\<not> used (vm_frames s) b" "used fr = (used (vm_frames s))(b := True)" "pool_ok fr"
    using free_block_addr_Some [OF assms(1) a(1)] .
  obtain c where c: "c < 2 ^ 35" "p = blk c" "used (vm_frames s) c" "lv c = Suc 0" using assms(2) by auto
  note m' = pte_roundtrip [OF b(2), folded b(1)]
  have pte: "vm_mem s' (blk c + 8 * of_nat i) = (q - HM) OR PTE_FLAGS" by (simp add: a(3) c(2))
  have same: "vm_mem s' (blk d + 8 * of_nat j) = vm_mem s (blk d + 8 * of_nat j)"
    if "d < 2 ^ 35" "j < 512" "\<not> (d = c \<and> j = i)" for d j
    using blk_word_inj [OF that(1,2) c(1) assms(3)] that by (auto simp: a(3) c(2))
  have "tree_ok lv (vm_frames s') (vm_mem s') k x" if "tree_ok lv (vm_frames s) (vm_mem s) k x" for k x
  proof (rule tree_ok_mono [OF that])
    fix k d j
    assume d: "d < 2 ^ 35" "used (vm_frames s) d" "lv d = Suc k" "j < level_size (Suc k)"
      "vm_mem s' (blk d + 8 * of_nat j) \<noteq> vm_mem s (blk d + 8 * of_nat j)"
    have "j < 512" using d(4) level_size_le [of "Suc k"] by linarith
    with same d have "d = c \<and> j = i" by blast
    with d(3) c(4) pte m'(1) b show "tree_ok lv (vm_frames s') (vm_mem s') k (page_line_to_addr (vm_mem s' (blk d + 8 * of_nat j)))"
      by (auto simp: a(3) intro!: exI [of _ b])
  qed (use b in \<open>auto simp: a(3)\<close>)
  moreover have "vm_mem s (blk c + 8 * of_nat i) = 0" using True c(2) by simp
  then have "\<forall>d j. d < 2 ^ 35 \<and> used (vm_frames s) d \<and> j < 512 \<and> vm_mem s (blk d + 8 * of_nat j) \<noteq> 0 \<longrightarrow>
      vm_mem s' (blk d + 8 * of_nat j) = vm_mem s (blk d + 8 * of_nat j)"
    using same by metis
  ultimately have "extends lv s lv s'"
    using b by (auto simp: extends_def a(3))
  moreover have "\<exists>b<2 ^ 35. r = Some (blk b - HM) \<and> page_line_to_addr (vm_mem s' (p + 8 * of_nat i)) = blk b
          \<and> \<not> used (vm_frames s) b \<and> used (vm_frames s') b"
    using b pte m' by (intro exI [of _ b]) (simp add: a(2,3) c(2))
  ultimately show ?thesis using True pte m'(2) by (simp add: c(2))
qed

lemma length_page_indices [simp]: "length (page_indices va) = 4"
  by (simp add: page_indices_def)

lemma index_lt: "unat (x AND 0x1FF :: u64) < 512"
proof -
  have "x AND 0x1FF = take_bit 9 x" by (simp add: take_bit_eq_mask mask_eq_exp_minus_1)
  then show ?thesis using take_bit_nat_less_exp [of 9 "unat x"] by (simp add: unsigned_take_bit_eq)
qed

lemma indices_lt: "unat (l4_i va) < 512" "unat (l3_i va) < 512" "unat (l2_i va) < 512" "unat (l1_i va) < 512"
  by (simp_all add: l4_i_def l3_i_def l2_i_def l1_i_def index_lt)

lemma indices_fit: "unat (l4_i va) < 128 \<Longrightarrow> fits 4 (page_indices va)"
  using indices_lt [of va] by (simp add: page_indices_def level_size_def numeral_eq_Suc)

lemma is_paged_translate:
  assumes "unat pid < length (processes_cr3_ptr s)" "processes_cr3_ptr s ! unat pid \<noteq> 0"
  shows "is_paged s pid va = Some (translate s pid va \<noteq> None)"
  using assms by (simp add: is_paged_def translate_def page_indices_def nth_opt_Some Let_def)

lemma translate_extends:
  assumes "vm_ok lv s" "extends lv s lv' s'" "unat (l4_i va) < 128" "translate s pid va = Some a"
  shows "translate s' pid va = Some a"
proof -
  from assms(4) obtain p where p: "unat pid < length (processes_cr3_ptr s)" "processes_cr3_ptr s ! unat pid = p" "p \<noteq> 0"
    "walk (vm_mem s) p (page_indices va) = Some a"
    by (auto simp: translate_def bind_eq_Some_conv nth_opt_eq_Some split: if_splits)
  then have "tree_ok lv (vm_frames s) (vm_mem s) 4 p"
    using assms(1) by (auto simp: vm_ok_def)
  from walk_stable [OF this p(4) indices_fit [OF assms(3)]] assms(2)
  have "walk (vm_mem s') p (page_indices va) = Some a" by (simp add: extends_def)
  with p assms(2) show ?thesis by (auto simp: translate_def nth_opt_def extends_def)
qed

lemma walk_used:
  "\<lbrakk>tree_ok lv fr m N p; walk m p is = Some a; fits N is; length is = N\<rbrakk> \<Longrightarrow> \<exists>b<2 ^ 35. a = blk b \<and> used fr b"
proof (induction N "is" arbitrary: p rule: fits.induct)
  case (2 n i "is")
  then show ?case by (auto split: if_splits)
qed auto

lemma translate_used:
  assumes "vm_ok lv s" "unat (l4_i va) < 128" "translate s pid va = Some a"
  shows "\<exists>b<2 ^ 35. a = blk b \<and> used (vm_frames s) b"
proof -
  from assms(3) obtain p where p: "p \<in> set (processes_cr3_ptr s)" "p \<noteq> 0" "walk (vm_mem s) p (page_indices va) = Some a"
    by (force simp: translate_def bind_eq_Some_conv nth_opt_eq_Some split: if_splits)
  then have "tree_ok lv (vm_frames s) (vm_mem s) 4 p"
    using assms(1) by (auto simp: vm_ok_def)
  from walk_used [OF this p(3) indices_fit [OF assms(2)]] show ?thesis by simp
qed

lemma next_level_at:
  assumes "pool_ok (vm_frames s)" "tree_ok lv (vm_frames s) (vm_mem s) N p" "N = Suc M" "0 < M"
    "i < level_size N" "next_level s p (of_nat i) = Some (p', s')"
  obtains lv' where "extends lv s lv' s'" "tree_ok lv' (vm_frames s') (vm_mem s') M p'"
    "vm_mem s' (p + 8 * of_nat i) \<noteq> 0" "page_line_to_addr (vm_mem s' (p + 8 * of_nat i)) = p'"
    "if vm_mem s (p + 8 * of_nat i) = 0 then \<forall>j<512. vm_mem s' (p' + 8 * of_nat j) = 0 else s' = s"
proof -
  obtain n where n: "M = Suc n" using assms(4) by (cases M) auto
  note N = assms(3) [unfolded n]
  show ?thesis using next_level_step [OF assms(1) assms(2) [unfolded N] assms(5) [unfolded N] assms(6)] that
    unfolding n by blast
qed

lemma increase_paging_upper:
  "increase_paging_of_process_with_virt_addr s pid va = do {
     p4 \<leftarrow> nth_opt (processes_cr3_ptr s) (unat pid);
     (p1, s1) \<leftarrow> upper_levels s p4 va;
     map_page s1 p1 (l1_i va) }"
  by (simp add: increase_paging_of_process_with_virt_addr_def upper_levels_def split_def)

lemma upper_levels_step:
  assumes "pool_ok (vm_frames s)" "tree_ok lv (vm_frames s) (vm_mem s) 4 p4" "unat (l4_i va) < 128"
    "upper_levels s p4 va = Some (p1, s1)"
  shows "\<exists>lv1. extends lv s lv1 s1 \<and> tree_ok lv1 (vm_frames s1) (vm_mem s1) (Suc 0) p1
    \<and> walk (vm_mem s1) p4 [unat (l4_i va), unat (l3_i va), unat (l2_i va)] = Some p1
    \<and> (s1 = s \<or> walk (vm_mem s) p4 [unat (l4_i va), unat (l3_i va), unat (l2_i va)] = None
         \<and> (\<forall>j<512. vm_mem s1 (p1 + 8 * of_nat j) = 0))"
proof -
  define i4 i3 i2 where i: "i4 = unat (l4_i va)" "i3 = unat (l3_i va)" "i2 = unat (l2_i va)"
  have w: "l4_i va = of_nat i4" "l3_i va = of_nat i3" "l2_i va = of_nat i2" by (simp_all add: i)
  have lt: "i4 < level_size 4" "i3 < level_size 3" "i2 < level_size 2"
    using assms(3) indices_lt [of va] by (simp_all add: i level_size_def)
  have ilt: "i4 < 512" "i3 < 512" "i2 < 512" using indices_lt [of va] by (simp_all add: i)
  from assms(4) obtain p3 s3 p2 s2 where S:
    "next_level s p4 (of_nat i4) = Some (p3, s3)" "next_level s3 p3 (of_nat i3) = Some (p2, s2)"
    "next_level s2 p2 (of_nat i2) = Some (p1, s1)"
    by (auto simp: upper_levels_def w bind_eq_Some_conv)
  obtain lv3 where L3: "extends lv s lv3 s3" "tree_ok lv3 (vm_frames s3) (vm_mem s3) 3 p3"
      "vm_mem s3 (p4 + 8 * of_nat i4) \<noteq> 0" "page_line_to_addr (vm_mem s3 (p4 + 8 * of_nat i4)) = p3"
      "if vm_mem s (p4 + 8 * of_nat i4) = 0 then \<forall>j<512. vm_mem s3 (p3 + 8 * of_nat j) = 0 else s3 = s"
    by (rule next_level_at [OF assms(1,2) _ _ lt(1) S(1), of 3]) simp_all
  obtain lv2 where L2: "extends lv3 s3 lv2 s2" "tree_ok lv2 (vm_frames s2) (vm_mem s2) 2 p2"
      "vm_mem s2 (p3 + 8 * of_nat i3) \<noteq> 0" "page_line_to_addr (vm_mem s2 (p3 + 8 * of_nat i3)) = p2"
      "if vm_mem s3 (p3 + 8 * of_nat i3) = 0 then \<forall>j<512. vm_mem s2 (p2 + 8 * of_nat j) = 0 else s2 = s3"
    by (rule next_level_at [OF extends_pool [OF L3(1)] L3(2) _ _ lt(2) S(2), of 2]) simp_all
  obtain lv1 where L1: "extends lv2 s2 lv1 s1" "tree_ok lv1 (vm_frames s1) (vm_mem s1) (Suc 0) p1"
      "vm_mem s1 (p2 + 8 * of_nat i2) \<noteq> 0" "page_line_to_addr (vm_mem s1 (p2 + 8 * of_nat i2)) = p1"
      "if vm_mem s2 (p2 + 8 * of_nat i2) = 0 then \<forall>j<512. vm_mem s1 (p1 + 8 * of_nat j) = 0 else s1 = s2"
    by (rule next_level_at [OF extends_pool [OF L2(1)] L2(2) _ _ lt(3) S(3), of "Suc 0"]) simp_all
  have "vm_mem s1 (p4 + 8 * of_nat i4) = vm_mem s3 (p4 + 8 * of_nat i4)"
      "vm_mem s1 (p3 + 8 * of_nat i3) = vm_mem s2 (p3 + 8 * of_nat i3)"
    using extends_entry [OF extends_trans [OF L2(1) L1(1)] extends_tree [OF L3(1) assms(2)] ilt(1) L3(3)]
      extends_entry [OF L1(1) extends_tree [OF L2(1) L3(2)] ilt(2) L2(3)] by simp_all
  then have "walk (vm_mem s1) p4 [i4, i3, i2] = Some p1" using L3(3,4) L2(3,4) L1(3,4) by simp
  moreover have "s1 = s \<or> walk (vm_mem s) p4 [i4, i3, i2] = None \<and> (\<forall>j<512. vm_mem s1 (p1 + 8 * of_nat j) = 0)"
    using L3(4,5) L2(4,5) L1(4,5) ilt by (auto split: if_splits)
  ultimately show ?thesis
    using extends_trans [OF extends_trans [OF L3(1) L2(1)] L1(1)] L1(2) unfolding i by blast
qed

lemma walk_append: "walk m p (xs @ ys) = walk m p xs \<bind> (\<lambda>q. walk m q ys)"
  by (induction m p xs rule: walk.induct) auto

lemma increase_paging_steps:
  assumes "vm_ok lv s" "unat pid < length (processes_cr3_ptr s)" "processes_cr3_ptr s ! unat pid \<noteq> 0"
    "unat (l4_i va) < 128" "increase_paging_of_process_with_virt_addr s pid va = Some (r, s')"
  shows "\<exists>lv'. extends lv s lv' s' \<and> translate s' pid va \<noteq> None
    \<and> (case r of None \<Rightarrow> s' = s
       | Some phys \<Rightarrow> \<exists>b<2 ^ 35. phys = blk b - HM \<and> translate s' pid va = Some (blk b)
           \<and> \<not> used (vm_frames s) b \<and> translate s pid va = None)"
proof -
  let ?p4 = "processes_cr3_ptr s ! unat pid"
  define up i1 where "up = [unat (l4_i va), unat (l3_i va), unat (l2_i va)]" and "i1 = unat (l1_i va)"
  have i1: "l1_i va = of_nat i1" "i1 < 512" using indices_lt [of va] by (simp_all add: i1_def)
  have pi: "page_indices va = up @ [i1]" by (simp add: page_indices_def i1_def up_def)
  from assms(2,5) obtain p1 s1 where S: "upper_levels s ?p4 va = Some (p1, s1)" "map_page s1 p1 (of_nat i1) = Some (r, s')"
    by (auto simp: increase_paging_upper nth_opt_Some i1(1) bind_eq_Some_conv)
  have P4: "pool_ok (vm_frames s)" "tree_ok lv (vm_frames s) (vm_mem s) 4 ?p4"
    using assms(1-3) by (auto simp: vm_ok_def)
  from upper_levels_step [OF P4 assms(4) S(1), folded up_def] obtain lv1 where
    U: "extends lv s lv1 s1" "tree_ok lv1 (vm_frames s1) (vm_mem s1) (Suc 0) p1" "walk (vm_mem s1) ?p4 up = Some p1"
      "s1 = s \<or> walk (vm_mem s) ?p4 up = None \<and> (\<forall>j<512. vm_mem s1 (p1 + 8 * of_nat j) = 0)" by blast
  note L0 = map_page_step [OF extends_pool [OF U(1)] U(2) i1(2) S(2)]
  have E: "extends lv s lv1 s'" using U(1) L0 by (blast intro: extends_trans)
  have cr3: "processes_cr3_ptr s' = processes_cr3_ptr s" using E by (simp add: extends_def)
  have f: "fits 4 up" using indices_fit [OF assms(4)] by (simp add: page_indices_def up_def numeral_eq_Suc)
  have "walk (vm_mem s') ?p4 up = Some p1"
    using walk_stable [OF extends_tree [OF U(1) P4(2)] U(3) f] L0 by (simp add: extends_def)
  then have tr: "translate s' pid va = Some (page_line_to_addr (vm_mem s' (p1 + 8 * of_nat i1)))"
    using assms(2,3) L0 by (simp only: translate_def cr3 pi walk_append) (simp add: nth_opt_Some)
  show ?thesis
  proof (cases "vm_mem s1 (p1 + 8 * of_nat i1) = 0")
    case True
    with L0 obtain b where b: "b < 2 ^ 35" "r = Some (blk b - HM)"
      "page_line_to_addr (vm_mem s' (p1 + 8 * of_nat i1)) = blk b" "\<not> used (vm_frames s1) b" by auto
    moreover have "\<not> used (vm_frames s) b" using b(4) U(1) by (auto simp: extends_def)
    moreover have "walk (vm_mem s) ?p4 (up @ [i1]) = None" using U(3,4) True unfolding walk_append by auto
    then have "translate s pid va = None" using assms(2) by (simp add: translate_def nth_opt_Some pi)
    ultimately show ?thesis using tr E by (intro exI [of _ lv1]) auto
  next
    case False
    with U(4) i1(2) L0 have "r = None" "s' = s" by auto
    with tr E show ?thesis by (intro exI [of _ lv1]) auto
  qed
qed

lemma free_block_progress:
  assumes "pool_ok fr" "0 < free_count fr"
  shows "\<exists>a fr'. get_a_free_block_addr fr = Some (a, fr') \<and> pool_ok fr' \<and> free_count fr' = free_count fr - 1"
proof -
  let ?F = "\<lambda>fr. {i. unat (first_block fr) \<le> i \<and> i < unat (total_memory_blocks_count fr) \<and> \<not> used fr i}"
  have ok: "frames_ok fr" using assms(1) by (simp add: pool_ok_def)
  have "?F fr \<noteq> {}" using assms(2) unfolding free_count_def by (metis card.empty less_irrefl)
  then obtain b fr' where b: "get_a_free_block fr = Some (b, fr')"
    using get_a_free_block_None [OF ok] by fastforce
  note S = get_a_free_block_Some [OF ok b]
  have "?F fr' = ?F fr - {unat b}" using S(4,7) first_block_eq [OF S(8)] by auto
  moreover have "unat b \<in> ?F fr" using S(1-3) by simp
  ultimately have "free_count fr' = free_count fr - 1"
    unfolding free_count_def by (simp add: card_Diff_singleton)
  with b S(5,7) assms(1) show ?thesis by (auto simp: get_a_free_block_addr_def pool_ok_def)
qed

lemma next_level_progress:
  assumes "pool_ok (vm_frames s)" "0 < free_count (vm_frames s)"
  shows "\<exists>p' s'. next_level s p i = Some (p', s') \<and> pool_ok (vm_frames s') \<and> free_count (vm_frames s) - 1 \<le> free_count (vm_frames s')"
  using free_block_progress [OF assms] assms(1) by (auto simp: next_level_def Let_def)

lemma increase_paging_progress:
  assumes "pool_ok (vm_frames s)" "4 \<le> free_count (vm_frames s)" "unat pid < length (processes_cr3_ptr s)"
  shows "\<exists>r s'. increase_paging_of_process_with_virt_addr s pid va = Some (r, s') \<and> free_count (vm_frames s) - 4 \<le> free_count (vm_frames s')"
proof -
  let ?p4 = "processes_cr3_ptr s ! unat pid" and ?n = "free_count (vm_frames s)"
  obtain p3 s3 where 3: "next_level s ?p4 (l4_i va) = Some (p3, s3)" "pool_ok (vm_frames s3)" "?n - 1 \<le> free_count (vm_frames s3)"
    using next_level_progress [OF assms(1), of ?p4 "l4_i va"] assms(2) by fastforce
  obtain p2 s2 where 2: "next_level s3 p3 (l3_i va) = Some (p2, s2)" "pool_ok (vm_frames s2)" "?n - 2 \<le> free_count (vm_frames s2)"
    using next_level_progress [OF 3(2), of p3 "l3_i va"] 3(3) assms(2) by fastforce
  obtain p1 s1 where 1: "next_level s2 p2 (l2_i va) = Some (p1, s1)" "pool_ok (vm_frames s1)" "?n - 3 \<le> free_count (vm_frames s1)"
    using next_level_progress [OF 2(2), of p2 "l2_i va"] 2(3) assms(2) by fastforce
  have "\<exists>r s'. map_page s1 p1 (l1_i va) = Some (r, s') \<and> ?n - 4 \<le> free_count (vm_frames s')"
  proof (cases "vm_mem s1 (p1 + 8 * l1_i va) = 0")
    case True
    have "0 < free_count (vm_frames s1)" using 1(3) assms(2) by linarith
    then obtain a fr where "get_a_free_block_addr (vm_frames s1) = Some (a, fr)" "free_count fr = free_count (vm_frames s1) - 1"
      using free_block_progress [OF 1(2)] by blast
    then show ?thesis using True 1(3) by (simp add: map_page_def Let_def)
  qed (use 1(3) in \<open>simp add: map_page_def\<close>)
  with 1 2 3 assms(3) show ?thesis
    by (simp add: increase_paging_of_process_with_virt_addr_def nth_opt_Some)
qed

lemma vm_ok_extends: "\<lbrakk>vm_ok lv s; extends lv s lv' s'\<rbrakk> \<Longrightarrow> vm_ok lv' s'"
  by (auto simp: vm_ok_def extends_def)

text \<open>
  The way back uses the page line, which is the physical address and its flag
  bits, as the number of the block to free: for a block whose address lies behind
  the map the call runs out of the map.
\<close>

lemma decrease_frees_wrong_block:
  assumes "processes_cr3_ptr s ! unat pid = p4" "unat pid < length (processes_cr3_ptr s)"
    "p3 = page_line_to_addr (vm_mem s (p4 + 8 * l4_i va))" "vm_mem s (p4 + 8 * l4_i va) \<noteq> 0"
    "p2 = page_line_to_addr (vm_mem s (p3 + 8 * l3_i va))" "vm_mem s (p3 + 8 * l3_i va) \<noteq> 0"
    "p1 = page_line_to_addr (vm_mem s (p2 + 8 * l2_i va))" "vm_mem s (p2 + 8 * l2_i va) \<noteq> 0"
    "vm_mem s (p1 + 8 * l1_i va) = (blk b - HM) OR PTE_FLAGS" "b < 2 ^ 35"
    "length (memory_map (vm_frames s)) \<le> b * 4096"
  shows "decrease_paging_of_process_with_virt_addr s pid va = None"
proof -
  have e: "blk b - HM = push_bit 12 (of_nat b)" by (simp add: blk_def push_bit_eq_mult)
  have "(blk b - HM) OR PTE_FLAGS = (blk b - HM) + PTE_FLAGS"
  proof (rule disjunctive_add [symmetric])
    fix n
    have f: "PTE_FLAGS = mask 3" by (simp add: PTE_FLAGS_def mask_eq_exp_minus_1)
    show "\<not> bit (blk b - HM) n \<or> \<not> bit PTE_FLAGS n" unfolding e f by (auto simp: bit_simps)
  qed
  also have "\<dots> = of_nat (b * 4096 + 7)" by (simp add: blk_def PTE_FLAGS_def)
  finally have "(blk b - HM) OR PTE_FLAGS = of_nat (b * 4096 + 7)" .
  moreover have "b * 4096 + 7 < 2 ^ LENGTH(64)" using assms(10) by simp
  ultimately have "unat ((blk b - HM) OR PTE_FLAGS) = b * 4096 + 7" by (metis unat_of_nat_lt)
  then have "drop_entry s p1 (l1_i va) = None"
    using assms(9,11) by (simp add: drop_entry_def set_memory_block_used_when_boot_def upd_opt_def)
  with assms pte_roundtrip(2) [OF assms(10)] show ?thesis
    by (simp add: decrease_paging_of_process_with_virt_addr_def nth_opt_Some Let_def)
qed

lemma region_unmapped:
  assumes "find_free_virtual_region s pid len = Some r" "r \<noteq> 0" "unat len < 2 ^ 46"
  shows "\<forall>j. 4096 * j < unat len \<longrightarrow> is_paged s pid (r + of_nat j * 4096) = Some False"
proof (intro allI impI)
  fix j
  assume j: "4096 * j < unat len"
  define free where "free bc i \<longleftrightarrow>
    first_from (unat bc) 0 (\<lambda>j. is_paged s pid ((of_nat i + of_nat j) * 4096) = Some True) = None" for bc :: u64 and i
  define n where "n = unat (HM div 4096 - 1) - 1"
  from assms(1) obtain bc where B: "div_ceil len 4096 = Some bc" "unat pid < length (processes_cr3_ptr s)"
    "(case first_from n 1 (free bc) of Some i \<Rightarrow> Some (of_nat i * 4096) | None \<Rightarrow> Some 0) = Some r"
    unfolding find_free_virtual_region_def free_def n_def
    by (cases "div_ceil len 4096") (auto simp: nth_opt_def split: if_splits)
  from B(3) assms(2) obtain i where i: "first_from n 1 (free bc) = Some i" "r = of_nat i * 4096"
    by (auto split: option.splits)
  from first_from_SomeD [OF i(1)] have f: "free bc i" by simp
  have "unat len \<le> unat bc * 4096"
  proof -
    have "unat (len div 4096) = unat len div 4096" "unat (len mod 4096) = unat len mod 4096" by (simp_all add: unat_div unat_mod)
    moreover have "unat (len div 4096 + 1) = unat len div 4096 + 1"
      using assms(3) by (subst unat_Suc_lt) (simp_all add: unat_div)
    ultimately show ?thesis using B(1) by (auto simp: div_ceil_def word_less_nat_alt split: if_splits)
  qed
  with j have "j < unat bc" by linarith
  with f have "is_paged s pid ((of_nat i + of_nat j) * 4096) \<noteq> Some True" by (auto simp: free_def first_from_None)
  moreover have "is_paged s pid va = Some True \<or> is_paged s pid va = Some False" for va
    using B(2) by (simp add: is_paged_def nth_opt_Some Let_def)
  ultimately show "is_paged s pid (r + of_nat j * 4096) = Some False" unfolding i(2) distrib_right by blast
qed

section \<open>Properties\<close>





end
