(* ===== verification/Objects.thy ===== *)
theory Objects
  imports Kprelude
begin

text \<open>
  Tables of pointers.  The kernel keeps its threads, processes, sockets and
  terminals in arrays of pointers to structures; an empty entry is the null
  pointer.  A table is the array of addresses together with the structures that
  live at them, so two entries can point to the same structure and a pointer can
  be wrong; reading through a null or wrong pointer is a fault.
\<close>

record 'o table =
  slots :: "u64 list"
  heap :: "u64 \<Rightarrow> 'o option"

definition deref :: "'o table \<Rightarrow> nat \<Rightarrow> 'o option" where
  "deref tb i = do { p \<leftarrow> nth_opt (slots tb) i; if p = 0 then None else heap tb p }"

definition store :: "'o table \<Rightarrow> nat \<Rightarrow> ('o \<Rightarrow> 'o) \<Rightarrow> 'o table option" where
  "store tb i f = do {
     p \<leftarrow> nth_opt (slots tb) i;
     ob \<leftarrow> (if p = 0 then None else heap tb p);
     Some (tb\<lparr>heap := (heap tb)(p \<mapsto> f ob)\<rparr>) }"

definition install :: "'o table \<Rightarrow> nat \<Rightarrow> u64 \<Rightarrow> 'o \<Rightarrow> 'o table option" where
  "install tb i p ob = do {
     s \<leftarrow> upd_opt (slots tb) i p;
     Some (tb\<lparr>slots := s, heap := (heap tb)(p \<mapsto> ob)\<rparr>) }"

definition clear_slot :: "'o table \<Rightarrow> nat \<Rightarrow> 'o table option" where
  "clear_slot tb i = do { s \<leftarrow> upd_opt (slots tb) i 0; Some (tb\<lparr>slots := s\<rparr>) }"

text \<open>
  The loop \<^verbatim>\<open>for (i = 0; i < MAX; i++) { if (!ptr[i]) continue; ... }\<close> that
  changes each structure by itself.
\<close>

fun each_from :: "nat \<Rightarrow> nat \<Rightarrow> (nat \<Rightarrow> 'o \<Rightarrow> 'o) \<Rightarrow> 'o table \<Rightarrow> 'o table option" where
  "each_from 0 i f tb = Some tb"
| "each_from (Suc k) i f tb = do {
     p \<leftarrow> nth_opt (slots tb) i;
     if p = 0 then each_from k (Suc i) f tb
     else do { tb' \<leftarrow> store tb i (f i); each_from k (Suc i) f tb' } }"

text \<open>
  The loop that looks for the first entry whose structure passes a test and skips
  the empty ones.
\<close>

fun find_from :: "nat \<Rightarrow> nat \<Rightarrow> (nat \<Rightarrow> 'o \<Rightarrow> bool) \<Rightarrow> 'o table \<Rightarrow> nat option option" where
  "find_from 0 i P tb = Some None"
| "find_from (Suc k) i P tb = do {
     p \<leftarrow> nth_opt (slots tb) i;
     if p = 0 then find_from k (Suc i) P tb
     else do {
       ob \<leftarrow> heap tb p;
       if P i ob then Some (Some i) else find_from k (Suc i) P tb } }"

definition table_ok :: "'o table \<Rightarrow> bool" where
  "table_ok tb \<longleftrightarrow> (\<forall>i<length (slots tb). slots tb ! i \<noteq> 0 \<longrightarrow> heap tb (slots tb ! i) \<noteq> None)
     \<and> (\<forall>i<length (slots tb). \<forall>j<length (slots tb). slots tb ! i = slots tb ! j \<and> slots tb ! i \<noteq> 0 \<longrightarrow> i = j)"

text \<open>The table as a map from indices to structures.\<close>

definition view :: "'o table \<Rightarrow> nat \<rightharpoonup> 'o" where
  "view tb i = (if i < length (slots tb) \<and> slots tb ! i \<noteq> 0 then heap tb (slots tb ! i) else None)"

section \<open>Laws\<close>

lemma deref_view: "deref tb i = view tb i"
  by (simp add: deref_def view_def nth_opt_def)

lemma view_None_iff:
  "table_ok tb \<Longrightarrow> view tb i = None \<longleftrightarrow> \<not> (i < length (slots tb) \<and> slots tb ! i \<noteq> 0)"
  by (auto simp: view_def table_ok_def)

lemma store_Some_iff: "store tb i f = None \<longleftrightarrow> view tb i = None"
  by (auto simp: store_def view_def nth_opt_def bind_eq_None_conv)

lemma store_view:
  assumes "table_ok tb" "store tb i f = Some tb'"
  shows "view tb' = (view tb)(i := map_option f (view tb i)) \<and> table_ok tb' \<and> slots tb' = slots tb"
proof -
  from assms(2) obtain ob where t: "i < length (slots tb)" "slots tb ! i \<noteq> 0" "heap tb (slots tb ! i) = Some ob"
    "tb' = tb\<lparr>heap := (heap tb)(slots tb ! i \<mapsto> f ob)\<rparr>"
    by (auto simp: store_def bind_eq_Some_conv nth_opt_eq_Some split: if_splits)
  have "view tb' j = ((view tb)(i := map_option f (view tb i))) j" for j
    using assms(1) t by (auto simp: view_def table_ok_def)
  then show ?thesis using assms(1) t by (auto simp: table_ok_def)
qed

lemma store_ok:
  assumes "table_ok tb" "view tb i = Some ob"
  shows "\<exists>tb'. store tb i f = Some tb' \<and> view tb' = (view tb)(i \<mapsto> f ob) \<and> table_ok tb' \<and> slots tb' = slots tb"
proof -
  from assms(2) store_Some_iff [of tb i f] obtain tb' where "store tb i f = Some tb'" by fastforce
  with store_view [OF assms(1) this] assms(2) show ?thesis by auto
qed

lemma install_view:
  assumes "table_ok tb" "i < length (slots tb)" "p \<noteq> 0" "p \<notin> set (slots tb)"
  shows "\<exists>tb'. install tb i p ob = Some tb' \<and> view tb' = (view tb)(i \<mapsto> ob) \<and> table_ok tb'
    \<and> slots tb' = (slots tb)[i := p]"
proof -
  have ne: "slots tb ! j \<noteq> p" if "j < length (slots tb)" for j using assms(4) that by auto
  let ?tb = "tb\<lparr>slots := (slots tb)[i := p], heap := (heap tb)(p \<mapsto> ob)\<rparr>"
  have "view ?tb j = ((view tb)(i \<mapsto> ob)) j" for j
    using assms(2,3) ne by (auto simp: view_def nth_list_update)
  moreover have "table_ok ?tb"
    using assms ne unfolding table_ok_def by (auto simp: nth_list_update)
  ultimately show ?thesis using assms(2) by (auto simp: install_def upd_opt_def)
qed

lemma clear_slot_view:
  assumes "table_ok tb" "i < length (slots tb)"
  shows "\<exists>tb'. clear_slot tb i = Some tb' \<and> view tb' = (view tb)(i := None) \<and> table_ok tb'
    \<and> slots tb' = (slots tb)[i := 0]"
proof -
  let ?tb = "tb\<lparr>slots := (slots tb)[i := 0]\<rparr>"
  have "view ?tb j = ((view tb)(i := None)) j" for j
    using assms by (auto simp: view_def nth_list_update)
  moreover have "table_ok ?tb" using assms unfolding table_ok_def by (auto simp: nth_list_update)
  ultimately show ?thesis using assms(2) by (auto simp: clear_slot_def upd_opt_def)
qed

lemma each_from_view:
  assumes "table_ok tb" "i + k \<le> length (slots tb)"
  shows "\<exists>tb'. each_from k i f tb = Some tb' \<and> table_ok tb' \<and> slots tb' = slots tb
    \<and> view tb' = (\<lambda>j. if i \<le> j \<and> j < i + k then map_option (f j) (view tb j) else view tb j)"
  using assms
proof (induction k arbitrary: i tb)
  case 0
  then show ?case by (auto simp: fun_eq_iff)
next
  case (Suc k)
  have n: "nth_opt (slots tb) i = Some (slots tb ! i)" using Suc.prems by (simp add: nth_opt_Some)
  show ?case
  proof (cases "slots tb ! i = 0")
    case True
    then have "view tb i = None" by (simp add: view_def)
    with True n Suc.IH [of tb "Suc i"] Suc.prems show ?thesis
      by (auto simp: fun_eq_iff le_Suc_eq not_le less_Suc_eq_le Suc_le_eq dest: le_neq_implies_less)
  next
    case False
    moreover have "i < length (slots tb)" using Suc.prems by simp
    ultimately obtain ob where "view tb i = Some ob"
      using view_None_iff [OF Suc.prems(1), of i] by fastforce
    from store_ok [OF Suc.prems(1) this, of "f i"] obtain tb1 where s: "store tb i (f i) = Some tb1"
      "view tb1 = (view tb)(i \<mapsto> f i ob)" "table_ok tb1" "slots tb1 = slots tb" by blast
    from Suc.IH [OF s(3), of "Suc i"] Suc.prems s(4) obtain tb' where
      "each_from k (Suc i) f tb1 = Some tb'" "table_ok tb'" "slots tb' = slots tb"
      "view tb' = (\<lambda>j. if Suc i \<le> j \<and> j < Suc i + k then map_option (f j) (view tb1 j) else view tb1 j)" by auto
    moreover from this(4) have "view tb' = (\<lambda>j. if i \<le> j \<and> j < i + Suc k then map_option (f j) (view tb j) else view tb j)"
      using s(2) \<open>view tb i = Some ob\<close> by (auto simp: fun_eq_iff)
    ultimately show ?thesis using False n s(1) by auto
  qed
qed

lemma each_all_view:
  assumes "table_ok tb"
  shows "\<exists>tb'. each_from (length (slots tb)) 0 f tb = Some tb' \<and> table_ok tb' \<and> slots tb' = slots tb
    \<and> view tb' = (\<lambda>j. map_option (f j) (view tb j))"
proof -
  have "view tb j = None" if "\<not> j < length (slots tb)" for j using that by (simp add: view_def)
  then have "(\<lambda>j. if j < length (slots tb) then map_option (f j) (view tb j) else view tb j)
      = (\<lambda>j. map_option (f j) (view tb j))" by (auto simp: fun_eq_iff)
  with each_from_view [OF assms, of 0 "length (slots tb)" f] show ?thesis by simp
qed

lemma find_from_view:
  assumes "table_ok tb" "i + k \<le> length (slots tb)"
  shows "find_from k i P tb = Some (first_from k i (\<lambda>j. \<exists>ob. view tb j = Some ob \<and> P j ob))"
  using assms(2)
proof (induction k arbitrary: i)
  case (Suc k)
  have n: "nth_opt (slots tb) i = Some (slots tb ! i)" using Suc.prems by (simp add: nth_opt_Some)
  show ?case
  proof (cases "slots tb ! i = 0")
    case True
    then have "view tb i = None" by (simp add: view_def)
    with True n Suc.IH [of "Suc i"] Suc.prems show ?thesis by simp
  next
    case False
    moreover have "i < length (slots tb)" using Suc.prems by simp
    ultimately obtain ob where "view tb i = Some ob" "heap tb (slots tb ! i) = Some ob"
      using view_None_iff [OF assms(1), of i] by (fastforce simp: view_def)
    with False n Suc.IH [of "Suc i"] Suc.prems show ?thesis by simp
  qed
qed simp

section \<open>The contract of a table\<close>

text \<open>
  What the clients of a pointer table use: reading after a change of one entry,
  and that the invariant is kept.
\<close>

locale object_store =
  fixes inv :: "'t \<Rightarrow> bool"
    and look :: "'t \<Rightarrow> nat \<rightharpoonup> 'o"
    and change :: "'t \<Rightarrow> nat \<Rightarrow> ('o \<Rightarrow> 'o) \<Rightarrow> 't option"
  assumes change_law: "\<lbrakk>inv t; look t i = Some ob\<rbrakk> \<Longrightarrow>
      \<exists>t'. change t i f = Some t' \<and> look t' = (look t)(i \<mapsto> f ob) \<and> inv t'"
    and change_fault: "look t i = None \<Longrightarrow> change t i f = None"
begin

lemma change_commute:
  assumes "inv t" "i \<noteq> j" "look t i = Some a" "look t j = Some b"
  shows "\<exists>t1 t2. change t i f \<bind> (\<lambda>t'. change t' j g) = Some t1
    \<and> change t j g \<bind> (\<lambda>t'. change t' i f) = Some t2 \<and> look t1 = look t2"
proof -
  obtain s1 where s1: "change t i f = Some s1" "look s1 = (look t)(i \<mapsto> f a)" "inv s1"
    using change_law [OF assms(1,3)] by blast
  obtain s2 where s2: "change t j g = Some s2" "look s2 = (look t)(j \<mapsto> g b)" "inv s2"
    using change_law [OF assms(1,4)] by blast
  have "look s1 j = Some b" "look s2 i = Some a" using assms s1 s2 by auto
  with change_law [OF s1(3), of j b g] change_law [OF s2(3), of i a f] s1 s2 assms(2)
  show ?thesis by (auto simp: fun_upd_twist)
qed

end

interpretation ptr_table: object_store table_ok view store
proof (unfold_locales, goal_cases)
  case (1 t i ob f)
  then obtain t' where "store t i f = Some t'" "view t' = (view t)(i \<mapsto> f ob)" "table_ok t'"
    using store_ok by metis
  then show ?case by auto
next
  case (2 t i f)
  then show ?case by (simp add: store_Some_iff)
qed

end
