(* ===== verification/Threads.thy ===== *)
theory Threads
  imports Objects Paging Timekeeping
begin

text \<open>
  Threads and the scheduler: the structures of \<^verbatim>\<open>src/core/scheduler.h\<close>, the three
  timer handlers and the wake-up of sleepers of \<^verbatim>\<open>src/core/interrupt.h\<close>, and the
  way the handlers of \<^verbatim>\<open>src/asm/scheduler.asm\<close> push and restore the registers.

  The tables \<^verbatim>\<open>threads_info_ptr\<close> and \<^verbatim>\<open>processes_info_ptr\<close> are pointer tables;
  \<^verbatim>\<open>MAX_THREADS_COUNT\<close> and \<^verbatim>\<open>MAX_PROCESSES_COUNT\<close> are their lengths.  Each
  processor core has the record that its GS register points to.  A spin lock is
  taken at the moment its exchange finds zero: with the lock held the call has
  not returned.
\<close>

section \<open>Data\<close>

datatype thread_state =
    THREAD_NOT_EXIST | THREAD_READY | THREAD_RUNNING | THREAD_BLOCKED_KEY | THREAD_BLOCKED_MOUSE
  | THREAD_BLOCKED_IO | THREAD_BLOCKED_NETWORK | THREAD_BLOCKED_UDS | THREAD_BLOCKED_PID
  | THREAD_BLOCKED_FUTEX | THREAD_BLOCKED_OTHER | THREAD_IDLE | THREAD_DEAD
  | THREAD_ENDED_BUT_NOT_CLEANED | THREAD_WAITING_SIGNAL

datatype process_state =
    PROCESS_NOT_EXIST | PROCESS_RUNNING | PROCESS_IDLE | PROCESS_STOPPED
  | PROCESS_ENDED_BUT_NOT_CLEANED | PROCESS_HANDLING_SIGNAL

datatype context_type = CONTEXT_TYPE_ALU | CONTEXT_TYPE_SSE

record user_thread_context =
  c_r15 :: u64  c_r14 :: u64  c_r13 :: u64  c_r12 :: u64
  c_r11 :: u64  c_r10 :: u64  c_r9 :: u64  c_r8 :: u64
  c_rdi :: u64  c_rsi :: u64  c_rbp :: u64
  c_rbx :: u64  c_rdx :: u64  c_rcx :: u64  c_rax :: u64
  c_rip :: u64  c_cs :: u64  c_rflags :: u64  c_rsp :: u64  c_ss :: u64  c_gs24 :: u64
  c_xsave_area :: "u8 list"
  c_fs_base :: u64  c_gs_base :: u64

record thread_info =
  t_pid :: u64
  t_tid :: u64
  t_state :: thread_state
  t_wakeup_time :: timeval
  t_stack_addr :: u64
  t_kernel_stack_addr :: u64
  t_context :: user_thread_context
  t_ptid :: u64
  t_signal :: u8
  t_signal_mask :: u64
  t_sleep_flag_addr :: u64
  t_context_type :: context_type
  t_lock_time :: timeval
  t_return_code :: u64

record process_info =
  p_pid :: u64
  p_state :: process_state
  p_main_thread_id :: u64
  p_signal :: u64
  p_threads_count :: u64
  p_pgid :: u64
  p_sid :: u64
  p_fd_addr :: u64
  p_parent_pid :: u64
  p_heap_start_addr :: u64
  p_heap_end_addr :: u64
  p_sig_handlers :: "u64 list"
  p_uid :: u64  p_gid :: u64  p_euid :: u64  p_egid :: u64
  p_reuid :: u64  p_regid :: u64  p_resuid :: u64  p_resgid :: u64
  p_lock :: u64
  p_return_code :: u64
  p_sm :: "u64 list"
  p_cmd_line :: "u8 list"
  p_env :: "u8 list"
  p_cwd :: "u8 list"

record core_info =
  apic_id :: u64
  current_thread :: u64
  current_thread_kernel_rsp :: u64
  current_thread_user_rsp :: u64
  core_rsp :: u64

record kernel =
  threads :: "thread_info table"
  processes :: "process_info table"
  kvm :: vm
  cores :: "core_info list"
  current_tick :: u64
  threads_info_lock :: u64
  threads_info_lock1 :: u64
  threads_info_lock2 :: u64
  processes_info_lock :: u64

definition spin_lock :: "u64 \<Rightarrow> u64 option" where
  "spin_lock lock = (if lock = 0 then Some 1 else None)"

definition get_current_thread_id :: "kernel \<Rightarrow> nat \<Rightarrow> nat option" where
  "get_current_thread_id k c = do { ci \<leftarrow> nth_opt (cores k) c; Some (unat (current_thread ci)) }"

definition get_current_pid :: "kernel \<Rightarrow> nat \<Rightarrow> u64 option" where
  "get_current_pid k c = do {
     tid \<leftarrow> get_current_thread_id k c;
     t \<leftarrow> deref (threads k) tid;
     Some (t_pid t) }"

section \<open>The timer handlers\<close>

text \<open>The clock is read again for every sleeping thread, so a reading is given for each index.\<close>

definition handle_slepping_thread :: "(nat \<Rightarrow> timeval) \<Rightarrow> thread_info table \<Rightarrow> thread_info table option" where
  "handle_slepping_thread clock tb = each_from (length (slots tb)) 0
     (\<lambda>i cu. if t_state cu = THREAD_BLOCKED_OTHER \<and> later_eq (clock i) (t_wakeup_time cu)
       then cu\<lparr>t_state := THREAD_READY\<rparr> else cu) tb"

fun ready_from :: "nat \<Rightarrow> nat \<Rightarrow> nat \<Rightarrow> thread_info table \<Rightarrow> nat option" where
  "ready_from 0 i current_thread_id tb = Some 0"
| "ready_from (Suc n) i current_thread_id tb =
     (let idx = (current_thread_id + i) mod length (slots tb)
      in if idx = 0 then ready_from n (Suc i) current_thread_id tb
         else do {
           p \<leftarrow> nth_opt (slots tb) idx;
           if p = 0 then ready_from n (Suc i) current_thread_id tb
           else do {
             t \<leftarrow> heap tb p;
             if t_state t = THREAD_READY then Some idx
             else ready_from n (Suc i) current_thread_id tb } })"

definition next_ready :: "thread_info table \<Rightarrow> nat \<Rightarrow> nat option" where
  "next_ready tb current_thread_id = ready_from (length (slots tb) - 1) 1 current_thread_id tb"

text \<open>
  The interrupt frame is the array the handler finds at its stack pointer: the
  fifteen pushed registers, then what the processor pushed.  The extended
  registers are the processor's at this moment.
\<close>

definition save_context :: "u64 list \<Rightarrow> u64 \<Rightarrow> u64 \<Rightarrow> u8 list \<Rightarrow> thread_info \<Rightarrow> thread_info option" where
  "save_context stack old_rsp gs24 xsave cu = do {
     sp \<leftarrow> (if length stack < 18 then None
       else if stack ! 16 AND 3 = 3 then nth_opt stack 18 else Some (old_rsp + 20 * 8));
     let ctx = t_context cu
     in Some (cu\<lparr>t_context := ctx\<lparr>
       c_rax := stack ! 0, c_rcx := stack ! 1, c_rdx := stack ! 2, c_rbx := stack ! 3,
       c_rbp := stack ! 4, c_rsi := stack ! 5, c_rdi := stack ! 6, c_r8 := stack ! 7,
       c_r9 := stack ! 8, c_r10 := stack ! 9, c_r11 := stack ! 10, c_r12 := stack ! 11,
       c_r13 := stack ! 12, c_r14 := stack ! 13, c_r15 := stack ! 14,
       c_rip := stack ! 15, c_rflags := stack ! 17, c_rsp := sp,
       c_cs := (if stack ! 16 > 0x10 then 0x23 else 0x08),
       c_ss := (if stack ! 16 > 0x10 then 0x1B else 0x10),
       c_xsave_area := (if t_context_type cu = CONTEXT_TYPE_ALU then c_xsave_area ctx else xsave),
       c_gs24 := gs24\<rparr>\<rparr>) }"

text \<open>
  \<^verbatim>\<open>end_thread\<close> computes the blocks to free from the address of its own local
  variable, here \<open>local_addr\<close>; a number outside the block map is a stray write.
\<close>

definition end_thread :: "kernel \<Rightarrow> u64 \<Rightarrow> nat \<Rightarrow> u64 \<Rightarrow> kernel option" where
  "end_thread k local_addr tid return_code = do {
     tb \<leftarrow> store (threads k) tid (\<lambda>t. t\<lparr>t_state := THREAD_DEAD,
       t_return_code := (if return_code \<noteq> -2 then return_code else t_return_code t)\<rparr>);
     fr \<leftarrow> mark_blocks 4 (local_addr div 4096 + 1) False (vm_frames (kvm k));
     Some (k\<lparr>threads := tb, kvm := (kvm k)\<lparr>vm_frames := fr\<rparr>\<rparr>) }"

definition set_core :: "kernel \<Rightarrow> nat \<Rightarrow> (core_info \<Rightarrow> core_info) \<Rightarrow> kernel option" where
  "set_core k c f = do {
     ci \<leftarrow> nth_opt (cores k) c;
     Some (k\<lparr>cores := (cores k)[c := f ci]\<rparr>) }"

definition run_thread :: "kernel \<Rightarrow> nat \<Rightarrow> nat \<Rightarrow> bool \<Rightarrow> kernel option" where
  "run_thread k c new_tid load_gs24 = do {
     tb \<leftarrow> store (threads k) new_tid (\<lambda>t. t\<lparr>t_state := THREAD_RUNNING\<rparr>);
     t \<leftarrow> deref tb new_tid;
     set_core (k\<lparr>threads := tb\<rparr>) c (\<lambda>ci. ci\<lparr>current_thread := t_tid t,
       current_thread_kernel_rsp := t_kernel_stack_addr t,
       current_thread_user_rsp := (if load_gs24 then c_gs24 (t_context t) else current_thread_user_rsp ci)\<rparr>) }"

definition timer_tick_from_idle :: "kernel \<Rightarrow> nat \<Rightarrow> (nat \<Rightarrow> timeval) \<Rightarrow> (nat \<times> kernel) option" where
  "timer_tick_from_idle k c clock = do {
     lk \<leftarrow> spin_lock (threads_info_lock k);
     tb \<leftarrow> handle_slepping_thread clock (threads k);
     new_tid \<leftarrow> next_ready tb 0;
     let k1 = k\<lparr>threads := tb, threads_info_lock := lk, current_tick := current_tick k + 1\<rparr>
     in if new_tid > 0 then do {
       k2 \<leftarrow> run_thread k1 c new_tid False;
       Some (new_tid, k2) }
     else do {
       k2 \<leftarrow> set_core k1 c (\<lambda>ci. ci\<lparr>current_thread := 0, current_thread_kernel_rsp := 0\<rparr>);
       Some (0, k2) } }"

text \<open>
  The common part of the two handlers that leave a thread: save its registers,
  wake sleepers, search the next thread, and finish the thread that has ended.
\<close>

definition leave_thread :: "kernel \<Rightarrow> nat \<Rightarrow> (nat \<Rightarrow> timeval) \<Rightarrow> u64 list \<Rightarrow> u64 \<Rightarrow> u8 list \<Rightarrow> u64
    \<Rightarrow> (nat \<times> nat \<times> kernel) option" where
  "leave_thread k c clock stack old_rsp xsave local_addr = do {
     lk \<leftarrow> spin_lock (threads_info_lock k);
     current_thread_id \<leftarrow> get_current_thread_id k c;
     ci \<leftarrow> nth_opt (cores k) c;
     t \<leftarrow> deref (threads k) current_thread_id;
     cu \<leftarrow> save_context stack old_rsp (current_thread_user_rsp ci) xsave t;
     tb1 \<leftarrow> store (threads k) current_thread_id (\<lambda>_. cu);
     tb2 \<leftarrow> handle_slepping_thread clock tb1;
     new_tid \<leftarrow> next_ready tb2 current_thread_id;
     let k1 = k\<lparr>threads := tb2, threads_info_lock := lk, current_tick := current_tick k + 1\<rparr>;
     cu \<leftarrow> deref tb2 current_thread_id;
     k2 \<leftarrow> (if t_state cu = THREAD_ENDED_BUT_NOT_CLEANED
       then end_thread k1 local_addr current_thread_id (-1) else Some k1);
     Some (current_thread_id, new_tid, k2) }"

definition yield_to :: "kernel \<Rightarrow> nat \<Rightarrow> nat \<Rightarrow> nat \<Rightarrow> kernel option" where
  "yield_to k c current_thread_id new_tid = do {
     tb \<leftarrow> store (threads k) current_thread_id
       (\<lambda>t. if t_state t = THREAD_RUNNING then t\<lparr>t_state := THREAD_READY\<rparr> else t);
     run_thread (k\<lparr>threads := tb\<rparr>) c new_tid True }"

definition go_idle :: "kernel \<Rightarrow> nat \<Rightarrow> kernel option" where
  "go_idle k c = set_core k c (\<lambda>ci. ci\<lparr>current_thread := 0, current_thread_kernel_rsp := 0,
     current_thread_user_rsp := 0\<rparr>)"

text \<open>
  A current thread that is ready and has nobody to yield to reaches the end of
  \<^verbatim>\<open>timer_tick_from_non_idle\<close> without a return value.
\<close>

definition timer_tick_from_non_idle :: "kernel \<Rightarrow> nat \<Rightarrow> (nat \<Rightarrow> timeval) \<Rightarrow> u64 list \<Rightarrow> u64 \<Rightarrow> u8 list \<Rightarrow> u64
    \<Rightarrow> (nat \<times> kernel) option" where
  "timer_tick_from_non_idle k c clock stack old_rsp xsave local_addr = do {
     (current_thread_id, new_tid, k1) \<leftarrow> leave_thread k c clock stack old_rsp xsave local_addr;
     if new_tid > 0 then do {
       k2 \<leftarrow> yield_to k1 c current_thread_id new_tid;
       Some (new_tid, k2) }
     else do {
       cu \<leftarrow> deref (threads k1) current_thread_id;
       if t_state cu = THREAD_RUNNING then Some (current_thread_id, k1)
       else if t_state cu \<noteq> THREAD_READY then do {
         k2 \<leftarrow> go_idle k1 c;
         Some (0, k2) }
       else None } }"

definition timer_tick1 :: "kernel \<Rightarrow> nat \<Rightarrow> (nat \<Rightarrow> timeval) \<Rightarrow> u64 list \<Rightarrow> u64 \<Rightarrow> u8 list \<Rightarrow> u64
    \<Rightarrow> (nat \<times> kernel) option" where
  "timer_tick1 k c clock stack old_rsp xsave local_addr = do {
     (current_thread_id, new_tid, k1) \<leftarrow> leave_thread k c clock stack old_rsp xsave local_addr;
     if new_tid > 1 then do {
       k2 \<leftarrow> yield_to k1 c current_thread_id new_tid;
       Some (new_tid, k2) }
     else do {
       k2 \<leftarrow> go_idle k1 c;
       Some (0, k2) } }"

section \<open>Faults of the running thread\<close>

text \<open>The flag \<^verbatim>\<open>sse_mode\<close> says whether the extended registers were enabled on the machine.\<close>

definition switch_context_type :: "kernel \<Rightarrow> nat \<Rightarrow> bool \<Rightarrow> (bool \<times> kernel) option" where
  "switch_context_type k c sse_mode = do {
     tid \<leftarrow> get_current_thread_id k c;
     p \<leftarrow> nth_opt (slots (threads k)) tid;
     if p = 0 then Some (sse_mode, k)
     else do {
       tb \<leftarrow> store (threads k) tid (\<lambda>t. if t_context_type t = CONTEXT_TYPE_ALU
         then t\<lparr>t_context_type := CONTEXT_TYPE_SSE\<rparr> else t\<lparr>t_signal := 4\<rparr>);
       Some (True, k\<lparr>threads := tb\<rparr>) } }"

definition fault_signal :: "kernel \<Rightarrow> nat \<Rightarrow> u8 \<Rightarrow> kernel option" where
  "fault_signal k c sig = do {
     tid \<leftarrow> get_current_thread_id k c;
     p \<leftarrow> nth_opt (slots (threads k)) tid;
     if p = 0 then Some k
     else do {
       tb \<leftarrow> store (threads k) tid (\<lambda>t. t\<lparr>t_signal := sig\<rparr>);
       Some (k\<lparr>threads := tb\<rparr>) } }"

definition seg_fault_signal :: "kernel \<Rightarrow> nat \<Rightarrow> kernel option" where
  "seg_fault_signal k c = fault_signal k c 11"

definition float_error_signal :: "kernel \<Rightarrow> nat \<Rightarrow> kernel option" where
  "float_error_signal k c = fault_signal k c 8"

section \<open>Registers on the stack\<close>

record cpu_regs =
  rg_rax :: u64  rg_rcx :: u64  rg_rdx :: u64  rg_rbx :: u64  rg_rbp :: u64  rg_rsi :: u64
  rg_rdi :: u64  rg_r8 :: u64  rg_r9 :: u64  rg_r10 :: u64  rg_r11 :: u64  rg_r12 :: u64
  rg_r13 :: u64  rg_r14 :: u64  rg_r15 :: u64
  rg_rip :: u64  rg_cs :: u64  rg_rflags :: u64  rg_rsp :: u64  rg_ss :: u64

text \<open>
  The words at the stack pointer, lowest address first, when the handler calls C:
  the processor has pushed the last five, the handler the registers from
  \<^verbatim>\<open>r15\<close> to \<^verbatim>\<open>rax\<close>.
\<close>

definition pushed_frame :: "cpu_regs \<Rightarrow> u64 list" where
  "pushed_frame r =
     [rg_rax r, rg_rcx r, rg_rdx r, rg_rbx r, rg_rbp r, rg_rsi r, rg_rdi r, rg_r8 r, rg_r9 r,
      rg_r10 r, rg_r11 r, rg_r12 r, rg_r13 r, rg_r14 r, rg_r15 r,
      rg_rip r, rg_cs r, rg_rflags r, rg_rsp r, rg_ss r]"

text \<open>The context as the words the handler addresses from its start.\<close>

definition context_words :: "user_thread_context \<Rightarrow> u64 list" where
  "context_words x =
     [c_r15 x, c_r14 x, c_r13 x, c_r12 x, c_r11 x, c_r10 x, c_r9 x, c_r8 x, c_rdi x, c_rsi x, c_rbp x,
      c_rbx x, c_rdx x, c_rcx x, c_rax x, c_rip x, c_cs x, c_rflags x, c_rsp x, c_ss x, c_gs24 x]"

definition restore_regs :: "user_thread_context \<Rightarrow> cpu_regs" where
  "restore_regs x = (let w = (\<lambda>off. context_words x ! (off div 8)) in
     \<lparr>rg_rax = w 0x70, rg_rcx = w 0x68, rg_rdx = w 0x60, rg_rbx = w 0x58, rg_rbp = w 0x50,
      rg_rsi = w 0x48, rg_rdi = w 0x40, rg_r8 = w 0x38, rg_r9 = w 0x30, rg_r10 = w 0x28,
      rg_r11 = w 0x20, rg_r12 = w 0x18, rg_r13 = w 0x10, rg_r14 = w 0x08, rg_r15 = w 0x00,
      rg_rip = w 0x78, rg_cs = w 0x80, rg_rflags = w 0x88, rg_rsp = w 0x90, rg_ss = w 0x98\<rparr>)"

text \<open>
  \<^verbatim>\<open>tick_interrupt_handler\<close>: the handler for an idle core or the one for a running
  thread, then the registers of the chosen thread are loaded and the lock is
  released.
\<close>

definition tick_interrupt_handler :: "kernel \<Rightarrow> nat \<Rightarrow> (nat \<Rightarrow> timeval) \<Rightarrow> cpu_regs \<Rightarrow> u64 \<Rightarrow> u8 list \<Rightarrow> u64
    \<Rightarrow> (cpu_regs \<times> kernel) option" where
  "tick_interrupt_handler k c clock r old_rsp xsave local_addr = do {
     cur \<leftarrow> get_current_thread_id k c;
     (tid, k1) \<leftarrow> (if cur = 0 then timer_tick_from_idle k c clock
       else timer_tick_from_non_idle k c clock (pushed_frame r) old_rsp xsave local_addr);
     t \<leftarrow> deref (threads k1) tid;
     Some (restore_regs (t_context t), k1\<lparr>threads_info_lock := 0\<rparr>) }"

text \<open>\<^verbatim>\<open>tick_interrupt_handler1\<close>: the same for a thread that gives up the core itself.\<close>

definition tick_interrupt_handler1 :: "kernel \<Rightarrow> nat \<Rightarrow> (nat \<Rightarrow> timeval) \<Rightarrow> cpu_regs \<Rightarrow> u64 \<Rightarrow> u8 list \<Rightarrow> u64
    \<Rightarrow> (cpu_regs \<times> kernel) option" where
  "tick_interrupt_handler1 k c clock r old_rsp xsave local_addr = do {
     (tid, k1) \<leftarrow> timer_tick1 k c clock (pushed_frame r) old_rsp xsave local_addr;
     t \<leftarrow> deref (threads k1) tid;
     Some (restore_regs (t_context t), k1\<lparr>threads_info_lock := 0\<rparr>) }"

section \<open>The invariant and the abstract scheduler\<close>

text \<open>
  The thread table is well formed and each thread knows its index.
\<close>

definition kernel_ok :: "kernel \<Rightarrow> bool" where
  "kernel_ok k \<longleftrightarrow> table_ok (threads k) \<and> 0 < length (slots (threads k))
     \<and> length (slots (threads k)) < 2 ^ 64
     \<and> (\<forall>i t. view (threads k) i = Some t \<longrightarrow> t_tid t = of_nat i)"

definition is_ready :: "thread_info table \<Rightarrow> nat \<Rightarrow> bool" where
  "is_ready tb i \<longleftrightarrow> i \<noteq> 0 \<and> (\<exists>t. view tb i = Some t \<and> t_state t = THREAD_READY)"

text \<open>How far thread \<open>b\<close> is behind thread \<open>a\<close> in the cyclic order of the table.\<close>

definition ring_dist :: "nat \<Rightarrow> nat \<Rightarrow> nat \<Rightarrow> nat" where
  "ring_dist n a b = (b + n - a) mod n"

text \<open>The nearest ready thread behind the current one, or 0.\<close>

definition nearest :: "nat \<Rightarrow> (nat \<Rightarrow> bool) \<Rightarrow> nat \<Rightarrow> nat \<Rightarrow> bool" where
  "nearest n ready a r \<longleftrightarrow>
     (if \<exists>s<n. s \<noteq> a \<and> ready s
      then r < n \<and> r \<noteq> a \<and> ready r \<and> (\<forall>s<n. s \<noteq> a \<and> ready s \<longrightarrow> ring_dist n a r \<le> ring_dist n a s)
      else r = 0)"

definition wake :: "(nat \<Rightarrow> timeval) \<Rightarrow> nat \<Rightarrow> thread_info \<Rightarrow> thread_info" where
  "wake clock i t = (if t_state t = THREAD_BLOCKED_OTHER \<and> later_eq (clock i) (t_wakeup_time t)
     then t\<lparr>t_state := THREAD_READY\<rparr> else t)"

section \<open>Searching the table\<close>

lemma ring_dist_lt: "0 < n \<Longrightarrow> ring_dist n a b < n"
  by (simp add: ring_dist_def)

lemma ring_dist_cases:
  assumes "a < n" "b < n"
  shows "ring_dist n a b = (if a \<le> b then b - a else b + n - a)"
  using assms unfolding ring_dist_def by (auto simp: mod_if)

lemma ring_step_cases:
  assumes "a < n" "(j :: nat) < n"
  shows "(a + j) mod n = (if a + j < n then a + j else a + j - n)"
  using assms by (auto simp: mod_if)

lemma ring_dist_step: "a < n \<Longrightarrow> j < n \<Longrightarrow> ring_dist n a ((a + j) mod n) = j"
  by (auto simp: ring_step_cases ring_dist_cases)

lemma ring_step_dist: "a < n \<Longrightarrow> b < n \<Longrightarrow> (a + ring_dist n a b) mod n = b"
  by (auto simp: ring_dist_cases)

lemma ring_dist_eq_0: "a < n \<Longrightarrow> b < n \<Longrightarrow> ring_dist n a b = 0 \<longleftrightarrow> a = b"
  by (auto simp: ring_dist_cases)

lemma ring_dist_trans:
  assumes "a < n" "b < n" "x < n" "ring_dist n a x \<le> ring_dist n a b"
  shows "ring_dist n x b = ring_dist n a b - ring_dist n a x"
  using assms by (auto simp: ring_dist_cases split: if_splits)

lemma ready_from_first:
  assumes "table_ok tb" "0 < length (slots tb)"
  shows "ready_from n i cur tb =
    Some (case first_from n i (\<lambda>j. is_ready tb ((cur + j) mod length (slots tb))) of
      None \<Rightarrow> 0 | Some j \<Rightarrow> (cur + j) mod length (slots tb))"
proof (induction n arbitrary: i)
  case (Suc n)
  let ?x = "(cur + i) mod length (slots tb)"
  have lt: "?x < length (slots tb)" using assms(2) by simp
  then have n: "nth_opt (slots tb) ?x = Some (slots tb ! ?x)" by (simp add: nth_opt_Some)
  show ?case
  proof (cases "?x = 0 \<or> slots tb ! ?x = 0")
    case True
    then have "\<not> is_ready tb ?x" by (auto simp: is_ready_def view_def)
    with True n Suc.IH show ?thesis by (auto simp: Let_def)
  next
    case False
    with lt view_None_iff [OF assms(1), of ?x] obtain t where "view tb ?x = Some t" by auto
    moreover from this have "heap tb (slots tb ! ?x) = Some t" by (auto simp: view_def split: if_splits)
    ultimately show ?thesis using False n Suc.IH by (auto simp: Let_def is_ready_def)
  qed
qed simp

lemma next_ready_nearest:
  assumes "table_ok tb" "cur < length (slots tb)"
  shows "\<exists>r. next_ready tb cur = Some r \<and> nearest (length (slots tb)) (is_ready tb) cur r"
proof -
  define n where "n = length (slots tb)"
  let ?P = "\<lambda>j. is_ready tb ((cur + j) mod n)"
  have n: "0 < n" "cur < n" using assms(2) by (auto simp: n_def)
  have eq: "next_ready tb cur = Some (case first_from (n - 1) 1 ?P of None \<Rightarrow> 0 | Some j \<Rightarrow> (cur + j) mod n)"
    unfolding next_ready_def n_def by (rule ready_from_first [OF assms(1)]) (use n n_def in simp)
  have other: "s < n \<Longrightarrow> s \<noteq> cur \<Longrightarrow> 1 \<le> ring_dist n cur s \<and> ring_dist n cur s < 1 + (n - 1)
      \<and> (?P (ring_dist n cur s) \<longleftrightarrow> is_ready tb s)" for s
    using ring_dist_lt [OF n(1), of cur s] ring_dist_eq_0 [OF n(2), of s] ring_step_dist [OF n(2), of s] n(1)
    by (auto simp: Suc_le_eq)
  show ?thesis
  proof (cases "first_from (n - 1) 1 ?P")
    case None
    have "\<not> is_ready tb s" if s: "s < n" "s \<noteq> cur" for s
      using None other [OF s] by (auto simp: first_from_None)
    then show ?thesis using eq None by (auto simp: nearest_def n_def [symmetric])
  next
    case (Some j)
    from first_from_SomeD [OF this] have j: "1 \<le> j" "j < n" "?P j" "\<And>i. 1 \<le> i \<Longrightarrow> i < j \<Longrightarrow> \<not> ?P i"
      using n by auto
    let ?r = "(cur + j) mod n"
    have d: "ring_dist n cur ?r = j" using ring_dist_step [OF n(2) j(2)] .
    have "?r \<noteq> cur" "?r < n" using d j(1) ring_dist_eq_0 [OF n(2) n(2)] n(1) by (auto simp del: mod_add_left_eq)
    moreover have "j \<le> ring_dist n cur s" if "s < n" "s \<noteq> cur" "is_ready tb s" for s
      using other [OF that(1,2)] that(3) j(4) [of "ring_dist n cur s"] by (meson not_le)
    ultimately show ?thesis using eq Some j(3) d by (auto simp: nearest_def n_def [symmetric])
  qed
qed

section \<open>The parts of a tick\<close>

lemma sleepers_woken:
  assumes "table_ok tb"
  shows "\<exists>tb'. handle_slepping_thread clock tb = Some tb' \<and> table_ok tb' \<and> slots tb' = slots tb
    \<and> view tb' = (\<lambda>j. map_option (wake clock j) (view tb j))"
  using each_all_view [OF assms, of "wake clock"] by (simp add: handle_slepping_thread_def wake_def [abs_def])

lemma save_context_frame:
  "save_context stack old_rsp g x t = Some t' \<Longrightarrow> t' = t\<lparr>t_context := t_context t'\<rparr>"
  by (auto simp: save_context_def bind_eq_Some_conv Let_def)

lemma save_context_total:
  "19 \<le> length stack \<Longrightarrow> \<exists>t'. save_context stack old_rsp g x t = Some t'"
  by (auto simp: save_context_def nth_opt_def Let_def)

lemma wake_frame [simp]:
  "t_tid (wake clock i t) = t_tid t" "t_context (wake clock i t) = t_context t" "t_pid (wake clock i t) = t_pid t"
  "t_kernel_stack_addr (wake clock i t) = t_kernel_stack_addr t"
  "t_state (wake clock i t) = THREAD_RUNNING \<longleftrightarrow> t_state t = THREAD_RUNNING"
  "t_state (wake clock i t) = THREAD_ENDED_BUT_NOT_CLEANED \<longleftrightarrow> t_state t = THREAD_ENDED_BUT_NOT_CLEANED"
  by (auto simp: wake_def)

lemma current_thread_read:
  "c < length (cores k) \<Longrightarrow> get_current_thread_id k c = Some (unat (current_thread (cores k ! c)))"
  by (simp add: get_current_thread_id_def nth_opt_Some)

lemma leave_thread_spec:
  assumes ok: "kernel_ok k" and c: "c < length (cores k)" "threads_info_lock k = 0"
    and cur: "unat (current_thread (cores k ! c)) = cur" "view (threads k) cur = Some t"
    and t: "t_state t \<noteq> THREAD_ENDED_BUT_NOT_CLEANED"
    and sv: "save_context stack old_rsp (current_thread_user_rsp (cores k ! c)) xsave t = Some t'"
  shows "\<exists>r tb. leave_thread k c clock stack old_rsp xsave la =
      Some (cur, r, k\<lparr>threads := tb, threads_info_lock := 1, current_tick := current_tick k + 1\<rparr>)
    \<and> table_ok tb \<and> slots tb = slots (threads k)
    \<and> view tb = (\<lambda>j. map_option (wake clock j) (((view (threads k))(cur \<mapsto> t')) j))
    \<and> nearest (length (slots tb)) (is_ready tb) cur r"
proof -
  have tok: "table_ok (threads k)" using ok by (simp add: kernel_ok_def)
  obtain tb1 where 1: "store (threads k) cur (\<lambda>_. t') = Some tb1" "view tb1 = (view (threads k))(cur \<mapsto> t')"
    "table_ok tb1" "slots tb1 = slots (threads k)" using store_ok [OF tok cur(2), of "\<lambda>_. t'"] by auto
  obtain tb2 where 2: "handle_slepping_thread clock tb1 = Some tb2" "table_ok tb2" "slots tb2 = slots (threads k)"
    "view tb2 = (\<lambda>j. map_option (wake clock j) (((view (threads k))(cur \<mapsto> t')) j))"
    using sleepers_woken [OF 1(3), of clock] 1(2,4) by auto
  have "cur < length (slots tb2)" using cur(2) 2(3) by (auto simp: view_def split: if_splits)
  from next_ready_nearest [OF 2(2) this] obtain r where 3: "next_ready tb2 cur = Some r"
    "nearest (length (slots tb2)) (is_ready tb2) cur r" by blast
  have "t_state (wake clock cur t') \<noteq> THREAD_ENDED_BUT_NOT_CLEANED"
    using t save_context_frame [OF sv] by (metis thread_info.ext_inject thread_info.surjective thread_info.update_convs(7) wake_frame(6))
  then show ?thesis using c cur sv 1(1) 2 3
    by (auto simp: leave_thread_def spin_lock_def current_thread_read nth_opt_Some deref_view Let_def)
qed

lemma run_thread_spec:
  assumes "table_ok (threads k)" "view (threads k) y = Some t" "c < length (cores k)"
  shows "\<exists>tb. run_thread k c y b = Some (k\<lparr>threads := tb, cores := (cores k)[c := (cores k ! c)\<lparr>
        current_thread := t_tid t, current_thread_kernel_rsp := t_kernel_stack_addr t,
        current_thread_user_rsp := (if b then c_gs24 (t_context t) else current_thread_user_rsp (cores k ! c))\<rparr>]\<rparr>)
    \<and> table_ok tb \<and> slots tb = slots (threads k)
    \<and> view tb = (view (threads k))(y \<mapsto> t\<lparr>t_state := THREAD_RUNNING\<rparr>)"
  using store_ok [OF assms(1,2), of "\<lambda>t. t\<lparr>t_state := THREAD_RUNNING\<rparr>"] assms(3)
  by (auto simp: run_thread_def set_core_def deref_view nth_opt_Some)

definition put_down :: "thread_info \<Rightarrow> thread_info" where
  "put_down t = (if t_state t = THREAD_RUNNING then t\<lparr>t_state := THREAD_READY\<rparr> else t)"

lemma yield_to_spec:
  assumes "table_ok (threads k)" "view (threads k) x = Some u" "view (threads k) y = Some t" "x \<noteq> y"
    "c < length (cores k)"
  shows "\<exists>tb. yield_to k c x y = Some (k\<lparr>threads := tb, cores := (cores k)[c := (cores k ! c)\<lparr>
        current_thread := t_tid t, current_thread_kernel_rsp := t_kernel_stack_addr t,
        current_thread_user_rsp := c_gs24 (t_context t)\<rparr>]\<rparr>)
    \<and> table_ok tb \<and> slots tb = slots (threads k)
    \<and> view tb = (view (threads k))(x \<mapsto> put_down u, y \<mapsto> t\<lparr>t_state := THREAD_RUNNING\<rparr>)"
proof -
  obtain tb where 1: "store (threads k) x put_down = Some tb" "view tb = (view (threads k))(x \<mapsto> put_down u)"
    "table_ok tb" "slots tb = slots (threads k)" using store_ok [OF assms(1,2), of put_down] by auto
  moreover have "view tb y = Some t" using 1(2) assms(3,4) by simp
  moreover have "yield_to k c x y = run_thread (k\<lparr>threads := tb\<rparr>) c y True"
    using 1(1) by (simp add: yield_to_def put_down_def [abs_def])
  ultimately show ?thesis using run_thread_spec [of "k\<lparr>threads := tb\<rparr>" y t c True] assms(5) by auto
qed

lemma nearest_found:
  assumes "nearest n (is_ready tb) a r" "0 < r"
  shows "r \<noteq> a \<and> (\<exists>t. view tb r = Some t \<and> t_state t = THREAD_READY)"
  using assms by (auto simp: nearest_def is_ready_def split: if_splits)

lemma tick_non_idle_spec:
  assumes ok: "kernel_ok k" and c: "c < length (cores k)" "threads_info_lock k = 0"
    and cur: "unat (current_thread (cores k ! c)) = cur" "view (threads k) cur = Some t" "t_state t = THREAD_RUNNING"
    and sv: "save_context stack old_rsp (current_thread_user_rsp (cores k ! c)) xsave t = Some t'"
    and w: "w = (\<lambda>j. map_option (wake clock j) (((view (threads k))(cur \<mapsto> t')) j))"
  shows "\<exists>r tb k'. timer_tick_from_non_idle k c clock stack old_rsp xsave la = Some (if r = 0 then cur else r, k')
    \<and> table_ok tb \<and> slots tb = slots (threads k) \<and> view tb = w
    \<and> nearest (length (slots tb)) (is_ready tb) cur r
    \<and> table_ok (threads k') \<and> slots (threads k') = slots (threads k) \<and> threads_info_lock k' = 1
    \<and> (if r = 0 then view (threads k') = w \<and> cores k' = cores k
       else \<exists>y. w r = Some y \<and> t_state y = THREAD_READY \<and> r \<noteq> cur
         \<and> view (threads k') = w(cur \<mapsto> t'\<lparr>t_state := THREAD_READY\<rparr>, r \<mapsto> y\<lparr>t_state := THREAD_RUNNING\<rparr>)
         \<and> cores k' = (cores k)[c := (cores k ! c)\<lparr>current_thread := t_tid y,
             current_thread_kernel_rsp := t_kernel_stack_addr y, current_thread_user_rsp := c_gs24 (t_context y)\<rparr>])"
proof -
  obtain r tb where L: "leave_thread k c clock stack old_rsp xsave la =
      Some (cur, r, k\<lparr>threads := tb, threads_info_lock := 1, current_tick := current_tick k + 1\<rparr>)"
    "table_ok tb" "slots tb = slots (threads k)" "view tb = w" "nearest (length (slots tb)) (is_ready tb) cur r"
    using leave_thread_spec [OF ok c cur(1,2) _ sv, of clock la] cur(3) w by auto
  have st: "t_state t' = THREAD_RUNNING" using save_context_frame [OF sv] cur(3) by (metis thread_info.select_convs(3) thread_info.surjective thread_info.update_convs(7))
  then have wt: "wake clock cur t' = t'" by (simp add: wake_def)
  have vc: "view tb cur = Some t'" using L(4) w wt by simp
  show ?thesis
  proof (cases "r = 0")
    case True
    then show ?thesis using L vc st
      by (intro exI [of _ 0] exI [of _ tb]) (auto simp: timer_tick_from_non_idle_def deref_view)
  next
    case False
    with nearest_found [OF L(5)] obtain y where y: "r \<noteq> cur" "view tb r = Some y" "t_state y = THREAD_READY" by auto
    let ?k = "k\<lparr>threads := tb, threads_info_lock := 1, current_tick := current_tick k + 1\<rparr>"
    from yield_to_spec [of ?k cur t' r y c] vc y L(2) c(1) obtain tb' where
      "yield_to ?k c cur r = Some (?k\<lparr>threads := tb', cores := (cores k)[c := (cores k ! c)\<lparr>
        current_thread := t_tid y, current_thread_kernel_rsp := t_kernel_stack_addr y,
        current_thread_user_rsp := c_gs24 (t_context y)\<rparr>]\<rparr>)"
      "table_ok tb'" "slots tb' = slots tb"
      "view tb' = (view tb)(cur \<mapsto> put_down t', r \<mapsto> y\<lparr>t_state := THREAD_RUNNING\<rparr>)" by auto
    then show ?thesis using L y False st
      by (intro exI [of _ r] exI [of _ tb]) (auto simp: timer_tick_from_non_idle_def put_down_def)
  qed
qed

lemma tick_idle_spec:
  assumes ok: "kernel_ok k" and c: "c < length (cores k)" "threads_info_lock k = 0"
    and w: "w = (\<lambda>j. map_option (wake clock j) (view (threads k) j))"
  shows "\<exists>r tb k'. timer_tick_from_idle k c clock = Some (r, k')
    \<and> table_ok tb \<and> slots tb = slots (threads k) \<and> view tb = w
    \<and> nearest (length (slots tb)) (is_ready tb) 0 r
    \<and> table_ok (threads k') \<and> slots (threads k') = slots (threads k) \<and> threads_info_lock k' = 1
    \<and> (if r = 0 then view (threads k') = w \<and> (\<exists>ci. current_thread ci = 0 \<and> cores k' = (cores k)[c := ci])
       else \<exists>y ci. w r = Some y \<and> t_state y = THREAD_READY
         \<and> view (threads k') = w(r \<mapsto> y\<lparr>t_state := THREAD_RUNNING\<rparr>)
         \<and> current_thread ci = t_tid y \<and> cores k' = (cores k)[c := ci])"
proof -
  have tok: "table_ok (threads k)" "0 < length (slots (threads k))" using ok by (simp_all add: kernel_ok_def)
  obtain tb where 1: "handle_slepping_thread clock (threads k) = Some tb" "table_ok tb" "slots tb = slots (threads k)" "view tb = w"
    using sleepers_woken [OF tok(1), of clock] w by auto
  from next_ready_nearest [OF 1(2), of 0] tok(2) 1(3) obtain r where r: "next_ready tb 0 = Some r"
    "nearest (length (slots tb)) (is_ready tb) 0 r" by auto
  let ?k = "k\<lparr>threads := tb, threads_info_lock := 1, current_tick := current_tick k + 1\<rparr>"
  show ?thesis
  proof (cases "r = 0")
    case True
    then show ?thesis using 1 r c
      by (intro exI [of _ 0] exI [of _ tb]) (auto simp: timer_tick_from_idle_def spin_lock_def set_core_def nth_opt_Some
        intro!: exI [of _ "(cores k ! c)\<lparr>current_thread := 0, current_thread_kernel_rsp := 0\<rparr>"])
  next
    case False
    with nearest_found [OF r(2)] obtain y where y: "view tb r = Some y" "t_state y = THREAD_READY" by auto
    from run_thread_spec [of ?k r y c False] y 1(2) c(1) obtain tb' ci where
      "run_thread ?k c r False = Some (?k\<lparr>threads := tb', cores := (cores k)[c := ci]\<rparr>)" "current_thread ci = t_tid y"
      "table_ok tb'" "slots tb' = slots tb" "view tb' = (view tb)(r \<mapsto> y\<lparr>t_state := THREAD_RUNNING\<rparr>)" by auto
    then show ?thesis using 1 r c y False
      by (intro exI [of _ r] exI [of _ tb]) (auto simp: timer_tick_from_idle_def spin_lock_def)
  qed
qed

section \<open>The abstract scheduler\<close>

text \<open>
  What the scheduler promises, over the states of the threads and the thread of
  each core: a thread that is not running may change its state without being
  run; a core leaves its thread for a ready one, which then runs; a core
  suspends its thread and idles; a thread is created.
\<close>

type_synonym sched = "(nat \<rightharpoonup> thread_state) \<times> nat list"

inductive sched_step :: "sched \<Rightarrow> sched \<Rightarrow> bool" where
  restate: "\<lbrakk>st i = Some s; s \<noteq> THREAD_RUNNING; s' \<noteq> THREAD_RUNNING\<rbrakk> \<Longrightarrow> sched_step (st, cs) (st(i \<mapsto> s'), cs)"
| create: "\<lbrakk>st i = None; s \<noteq> THREAD_RUNNING\<rbrakk> \<Longrightarrow> sched_step (st, cs) (st(i \<mapsto> s), cs)"
| dispatch: "\<lbrakk>c < length cs; cs ! c = 0; y \<noteq> 0; st y = Some THREAD_READY\<rbrakk>
    \<Longrightarrow> sched_step (st, cs) (st(y \<mapsto> THREAD_RUNNING), cs[c := y])"
| suspend: "\<lbrakk>c < length cs; cs ! c \<noteq> 0; s \<noteq> THREAD_RUNNING\<rbrakk>
    \<Longrightarrow> sched_step (st, cs) (st(cs ! c \<mapsto> s), cs[c := 0])"

inductive_cases sched_stepE: "sched_step (st, cs) (st', cs')"

definition sched_ok :: "sched \<Rightarrow> bool" where
  "sched_ok s \<longleftrightarrow> (\<forall>c<length (snd s). \<forall>d<length (snd s). snd s ! c = snd s ! d \<and> snd s ! c \<noteq> 0 \<longrightarrow> c = d)
     \<and> (\<forall>c<length (snd s). snd s ! c \<noteq> 0 \<longrightarrow> fst s (snd s ! c) = Some THREAD_RUNNING)"

definition sched_of :: "kernel \<Rightarrow> sched" where
  "sched_of k = (\<lambda>i. map_option t_state (view (threads k) i), map (\<lambda>ci. unat (current_thread ci)) (cores k))"

lemma sched_ok_step: "\<lbrakk>sched_step s s'; sched_ok s\<rbrakk> \<Longrightarrow> sched_ok s'"
proof (induction rule: sched_step.induct)
  case (dispatch c cs y st)
  have ne: "cs ! d \<noteq> y" if "d < length cs" for d
    using dispatch.prems dispatch.hyps that by (auto simp: sched_ok_def)
  then show ?case using dispatch by (auto simp: sched_ok_def nth_list_update)
next
  case (suspend c cs s st)
  then show ?case by (auto simp: sched_ok_def nth_list_update)
qed (auto simp: sched_ok_def)

lemma sched_ok_steps: "\<lbrakk>sched_step\<^sup>*\<^sup>* s s'; sched_ok s\<rbrakk> \<Longrightarrow> sched_ok s'"
  by (induction rule: rtranclp_induct) (auto intro: sched_ok_step)

text \<open>Many threads may change their state at once.\<close>

lemma sched_restate_set:
  assumes "finite I" "\<And>i. i \<in> I \<Longrightarrow> \<exists>s. st i = Some s \<and> s \<noteq> THREAD_RUNNING"
  shows "sched_step\<^sup>*\<^sup>* (st, cs) (\<lambda>i. if i \<in> I then Some THREAD_READY else st i, cs)"
  using assms
proof (induction I)
  case (insert x I)
  let ?g = "\<lambda>I i. if i \<in> I then Some THREAD_READY else st i"
  from insert obtain s where s: "st x = Some s" "s \<noteq> THREAD_RUNNING" by auto
  with insert.hyps(2) have "?g I x = Some s" by simp
  from sched_step.restate [of "?g I", OF this s(2), of THREAD_READY cs]
  have "sched_step (?g I, cs) ((?g I)(x \<mapsto> THREAD_READY), cs)" by simp
  moreover have "(?g I)(x \<mapsto> THREAD_READY) = ?g (insert x I)" by (auto simp: fun_eq_iff)
  ultimately show ?case using insert by (simp add: rtranclp.rtrancl_into_rtrancl)
qed simp

lemma sched_wake:
  assumes "\<And>i. length sl \<le> i \<Longrightarrow> v i = None"
  shows "sched_step\<^sup>*\<^sup>* (\<lambda>i. map_option t_state (v i), cs)
    (\<lambda>i. map_option t_state (map_option (wake clock i) (v i)), cs)"
proof -
  let ?I = "{i. \<exists>t. v i = Some t \<and> t_state t = THREAD_BLOCKED_OTHER \<and> later_eq (clock i) (t_wakeup_time t)}"
  have "i < length sl" if "i \<in> ?I" for i
    using assms [of i] that by (cases "length sl \<le> i") auto
  then have "finite ?I" by (meson bounded_nat_set_is_finite)
  then have "sched_step\<^sup>*\<^sup>* (\<lambda>i. map_option t_state (v i), cs)
      (\<lambda>i. if i \<in> ?I then Some THREAD_READY else map_option t_state (v i), cs)"
    by (rule sched_restate_set) auto
  moreover have "(\<lambda>i. if i \<in> ?I then Some THREAD_READY else map_option t_state (v i))
      = (\<lambda>i. map_option t_state (map_option (wake clock i) (v i)))"
  proof
    fix i show "(if i \<in> ?I then Some THREAD_READY else map_option t_state (v i))
      = map_option t_state (map_option (wake clock i) (v i))" by (cases "v i") (auto simp: wake_def)
  qed
  ultimately show ?thesis by metis
qed

lemma view_bound: "length (slots tb) \<le> i \<Longrightarrow> view tb i = None"
  by (simp add: view_def)

lemma sched_switch:
  assumes "c < length cs" "cs ! c \<noteq> 0" "st y = Some THREAD_READY" "y \<noteq> 0" "y \<noteq> cs ! c" "s \<noteq> THREAD_RUNNING"
  shows "sched_step\<^sup>*\<^sup>* (st, cs) (st(cs ! c \<mapsto> s, y \<mapsto> THREAD_RUNNING), cs[c := y])"
proof -
  have "sched_step (st, cs) (st(cs ! c \<mapsto> s), cs[c := 0])" using assms by (intro sched_step.suspend) auto
  moreover have "sched_step (st(cs ! c \<mapsto> s), cs[c := 0]) (st(cs ! c \<mapsto> s, y \<mapsto> THREAD_RUNNING), cs[c := 0, c := y])"
    using assms by (intro sched_step.dispatch) auto
  ultimately show ?thesis by (simp add: rtranclp.rtrancl_into_rtrancl)
qed

text \<open>A tick of a core is a sequence of abstract steps.\<close>

lemma sched_of_current: "sched_of k = (st, cs) \<Longrightarrow> c < length (cores k) \<Longrightarrow> cs ! c = unat (current_thread (cores k ! c))"
  by (auto simp: sched_of_def)

lemma kernel_ok_upd:
  assumes "kernel_ok k" "table_ok (threads k')" "slots (threads k') = slots (threads k)"
    "\<And>i t. view (threads k') i = Some t \<Longrightarrow> t_tid t = of_nat i"
  shows "kernel_ok k'"
  using assms by (simp add: kernel_ok_def)

lemma tid_bound: "\<lbrakk>kernel_ok k; view (threads k) i = Some t\<rbrakk> \<Longrightarrow> i < 2 ^ 64 \<and> t_tid t = of_nat i"
  by (auto simp: kernel_ok_def view_def split: if_splits)

lemma unat_tid: "\<lbrakk>kernel_ok k; view (threads k) i = Some t\<rbrakk> \<Longrightarrow> unat (t_tid t) = i"
  using tid_bound [of k i t] by (simp add: unat_of_nat_lt)

lemma save_context_same:
  assumes "save_context stack old_rsp g x t = Some t'"
  shows "t_state t' = t_state t \<and> t_tid t' = t_tid t \<and> t_pid t' = t_pid t"
  using save_context_frame [OF assms] by (cases t; cases t'; simp)

lemma sched_tick_idle:
  assumes ok: "kernel_ok k" and c: "c < length (cores k)" "current_thread (cores k ! c) = 0"
    and tick: "timer_tick_from_idle k c clock = Some (tid, k')"
  shows "kernel_ok k' \<and> sched_step\<^sup>*\<^sup>* (sched_of k) (sched_of k')"
proof -
  define v where "v = view (threads k)"
  define w where "w = (\<lambda>j. map_option (wake clock j) (v j))"
  define cs where "cs = map (\<lambda>ci. unat (current_thread ci)) (cores k)"
  have lk: "threads_info_lock k = 0" using tick by (auto simp: timer_tick_from_idle_def spin_lock_def split: if_splits)
  from tick_idle_spec [OF ok c(1) lk refl, of clock] tick have T:
        "table_ok (threads k')" "slots (threads k') = slots (threads k)"
    "if tid = 0 then view (threads k') = w \<and> (\<exists>ci. current_thread ci = 0 \<and> cores k' = (cores k)[c := ci])
       else \<exists>y ci. w tid = Some y \<and> t_state y = THREAD_READY
         \<and> view (threads k') = (w)(tid \<mapsto> y\<lparr>t_state := THREAD_RUNNING\<rparr>)
         \<and> current_thread ci = t_tid y \<and> cores k' = (cores k)[c := ci]" unfolding w_def v_def by auto
  have tids: "t_tid t = of_nat i \<and> i < 2 ^ 64" if "w i = Some t" for i t
    using that tid_bound [OF ok, of i] by (auto simp: w_def v_def)
  have W: "sched_step\<^sup>*\<^sup>* (sched_of k) (\<lambda>i. map_option t_state (w i), cs)"
    unfolding sched_of_def w_def v_def cs_def by (rule sched_wake [OF view_bound])
  have z: "c < length cs" "cs ! c = 0" using c by (simp_all add: cs_def)
  show ?thesis
  proof (cases "tid = 0")
    case True
    then obtain ci where "view (threads k') = w" "current_thread ci = 0" "cores k' = (cores k)[c := ci]"
      using T(3) by auto
    moreover from this have "sched_of k' = (\<lambda>i. map_option t_state (w i), cs)"
      using z by (auto simp: sched_of_def map_update cs_def intro: nth_equalityI simp: nth_list_update)
    ultimately show ?thesis using W T(1,2) kernel_ok_upd [OF ok] tids by auto
  next
    case False
    then obtain y ci where y: "w tid = Some y" "t_state y = THREAD_READY"
      "view (threads k') = (w)(tid \<mapsto> y\<lparr>t_state := THREAD_RUNNING\<rparr>)"
      "current_thread ci = t_tid y" "cores k' = (cores k)[c := ci]" using T(3) by auto
    have "unat (current_thread ci) = tid" using tids [OF y(1)] y(4) by (simp add: unat_of_nat_lt)
    then have "sched_of k' = ((\<lambda>i. map_option t_state (w i))(tid \<mapsto> THREAD_RUNNING), cs[c := tid])"
      using y by (auto simp: sched_of_def map_update cs_def fun_eq_iff)
    moreover have "sched_step (\<lambda>i. map_option t_state (w i), cs) \<dots>"
      using z y(1,2) False by (intro sched_step.dispatch) auto
    moreover have "kernel_ok k'" using T(1,2) y tids by (intro kernel_ok_upd [OF ok]) (auto split: if_splits)
    ultimately show ?thesis using W by (simp add: rtranclp.rtrancl_into_rtrancl)
  qed
qed

lemma sched_tick_non_idle:
  assumes ok: "kernel_ok k" and c: "c < length (cores k)" and cur: "unat (current_thread (cores k ! c)) = cur" "cur \<noteq> 0"
    and t: "view (threads k) cur = Some t" "t_state t = THREAD_RUNNING" and st: "19 \<le> length stack"
    and tick: "timer_tick_from_non_idle k c clock stack old_rsp xsave la = Some (tid, k')"
  shows "kernel_ok k' \<and> sched_step\<^sup>*\<^sup>* (sched_of k) (sched_of k')"
proof -
  define cs where "cs = map (\<lambda>ci. unat (current_thread ci)) (cores k)"
  have lk: "threads_info_lock k = 0"
    using tick by (auto simp: timer_tick_from_non_idle_def leave_thread_def spin_lock_def bind_eq_Some_conv split: if_splits)
  obtain t' where sv: "save_context stack old_rsp (current_thread_user_rsp (cores k ! c)) xsave t = Some t'"
    using save_context_total [OF st] by blast
  define v where "v = (view (threads k))(cur \<mapsto> t')"
  define w where "w = (\<lambda>j. map_option (wake clock j) (v j))"
  from tick_non_idle_spec [OF ok c lk cur(1) t sv refl, of clock la] tick obtain r tb where T:
    "tid = (if r = 0 then cur else r)"
    "table_ok (threads k')" "slots (threads k') = slots (threads k)"
    "if r = 0 then view (threads k') = w \<and> cores k' = cores k
       else \<exists>y. w r = Some y \<and> t_state y = THREAD_READY \<and> r \<noteq> cur
         \<and> view (threads k') = w(cur \<mapsto> t'\<lparr>t_state := THREAD_READY\<rparr>, r \<mapsto> y\<lparr>t_state := THREAD_RUNNING\<rparr>)
         \<and> cores k' = (cores k)[c := (cores k ! c)\<lparr>current_thread := t_tid y,
             current_thread_kernel_rsp := t_kernel_stack_addr y, current_thread_user_rsp := c_gs24 (t_context y)\<rparr>]"
    unfolding w_def v_def by auto
  have tt: "t_state t' = THREAD_RUNNING" "t_tid t' = of_nat cur"
    using save_context_same [OF sv] t tid_bound [OF ok t(1)] by auto
  have tids: "t_tid u = of_nat i \<and> i < 2 ^ 64" if "w i = Some u" for i u
    using that tid_bound [OF ok] tt(2) t(1) by (auto simp: w_def v_def split: if_splits)
  have "(\<lambda>i. map_option t_state (v i)) = (\<lambda>i. map_option t_state (view (threads k) i))"
    using t tt by (auto simp: v_def)
  moreover have "v i = None" if "length (slots (threads k)) \<le> i" for i
    using view_bound [OF that] t(1) by (auto simp: v_def)
  ultimately have W: "sched_step\<^sup>*\<^sup>* (sched_of k) (\<lambda>i. map_option t_state (w i), cs)"
    using sched_wake [of "slots (threads k)" v cs clock] by (simp add: sched_of_def w_def cs_def)
  have z: "c < length cs" "cs ! c = cur" using c cur by (simp_all add: cs_def)
  show ?thesis
  proof (cases "r = 0")
    case True
    have "kernel_ok k'" using T True tids by (intro kernel_ok_upd [OF ok]) auto
    then show ?thesis using W T True by (simp add: sched_of_def cs_def)
  next
    case False
    then obtain y where y: "w r = Some y" "t_state y = THREAD_READY" "r \<noteq> cur"
      "view (threads k') = w(cur \<mapsto> t'\<lparr>t_state := THREAD_READY\<rparr>, r \<mapsto> y\<lparr>t_state := THREAD_RUNNING\<rparr>)"
      "cores k' = (cores k)[c := (cores k ! c)\<lparr>current_thread := t_tid y,
             current_thread_kernel_rsp := t_kernel_stack_addr y, current_thread_user_rsp := c_gs24 (t_context y)\<rparr>]"
      using T(4) by auto
    have "unat (t_tid y) = r" using tids [OF y(1)] by (simp add: unat_of_nat_lt)
    then have "sched_of k' = ((\<lambda>i. map_option t_state (w i))(cur \<mapsto> THREAD_READY, r \<mapsto> THREAD_RUNNING), cs[c := r])"
      using y by (auto simp: sched_of_def map_update cs_def fun_eq_iff)
    moreover have "sched_step\<^sup>*\<^sup>* (\<lambda>i. map_option t_state (w i), cs) \<dots>"
      using sched_switch [of c cs "\<lambda>i. map_option t_state (w i)" r THREAD_READY] z y(1,2,3) False cur(2) by simp
    moreover have "kernel_ok k'" using T(2,3) y tids tt by (intro kernel_ok_upd [OF ok]) (auto split: if_splits)
    ultimately show ?thesis using W by simp
  qed
qed

text \<open>
  A thread that gives up the core has been suspended before: its state is not
  running.  The core then idles or runs another thread.
\<close>

lemma sched_tick1:
  assumes ok: "kernel_ok k" and c: "c < length (cores k)" and cur: "unat (current_thread (cores k ! c)) = cur"
    and t: "view (threads k) cur = Some t" "t_state t \<noteq> THREAD_RUNNING" "t_state t \<noteq> THREAD_ENDED_BUT_NOT_CLEANED"
    and st: "19 \<le> length stack"
    and tick: "timer_tick1 k c clock stack old_rsp xsave la = Some (tid, k')"
  shows "kernel_ok k' \<and> sched_step\<^sup>*\<^sup>* (fst (sched_of k), (snd (sched_of k))[c := 0]) (sched_of k')"
proof -
  define cs where "cs = map (\<lambda>ci. unat (current_thread ci)) (cores k)"
  have lk: "threads_info_lock k = 0"
    using tick by (auto simp: timer_tick1_def leave_thread_def spin_lock_def bind_eq_Some_conv split: if_splits)
  obtain t' where sv: "save_context stack old_rsp (current_thread_user_rsp (cores k ! c)) xsave t = Some t'"
    using save_context_total [OF st] by blast
  define v where "v = (view (threads k))(cur \<mapsto> t')"
  define w where "w = (\<lambda>j. map_option (wake clock j) (v j))"
  from leave_thread_spec [OF ok c lk cur t(1,3) sv, of clock la] obtain r tb where L:
    "leave_thread k c clock stack old_rsp xsave la =
      Some (cur, r, k\<lparr>threads := tb, threads_info_lock := 1, current_tick := current_tick k + 1\<rparr>)"
    "table_ok tb" "slots tb = slots (threads k)" "view tb = w" "nearest (length (slots tb)) (is_ready tb) cur r"
    unfolding w_def v_def by auto
  let ?k = "k\<lparr>threads := tb, threads_info_lock := 1, current_tick := current_tick k + 1\<rparr>"
  have tt: "t_state t' = t_state t" "t_tid t' = of_nat cur"
    using save_context_same [OF sv] tid_bound [OF ok t(1)] by auto
  have tids: "t_tid u = of_nat i \<and> i < 2 ^ 64" if "w i = Some u" for i u
    using that tid_bound [OF ok] tt(2) t(1) by (auto simp: w_def v_def split: if_splits)
  have "(\<lambda>i. map_option t_state (v i)) = fst (sched_of k)"
    using t tt by (auto simp: v_def sched_of_def)
  moreover have "v i = None" if "length (slots (threads k)) \<le> i" for i
    using view_bound [OF that] t(1) by (auto simp: v_def)
  ultimately have W: "sched_step\<^sup>*\<^sup>* (fst (sched_of k), (snd (sched_of k))[c := 0]) (\<lambda>i. map_option t_state (w i), cs[c := 0])"
    using sched_wake [of "slots (threads k)" v "cs[c := 0]" clock] by (simp add: sched_of_def w_def cs_def)
  have vc: "view tb cur = Some (wake clock cur t')" using L(4) by (simp add: w_def v_def)
  have kok: "kernel_ok ?k" using L tids by (intro kernel_ok_upd [OF ok]) auto
  show ?thesis
  proof (cases "r > 1")
    case False
    then have "k' = ?k\<lparr>cores := (cores k)[c := (cores k ! c)\<lparr>current_thread := 0, current_thread_kernel_rsp := 0,
        current_thread_user_rsp := 0\<rparr>]\<rparr>"
      using tick L(1) c by (auto simp: timer_tick1_def go_idle_def set_core_def nth_opt_Some)
    moreover from this have "sched_of k' = (\<lambda>i. map_option t_state (w i), cs[c := 0])"
      using L(4) by (auto simp: sched_of_def map_update cs_def)
    ultimately show ?thesis using W L tids kok by (simp add: kernel_ok_def)
  next
    case True
    with nearest_found [OF L(5)] obtain y where y: "r \<noteq> cur" "view tb r = Some y" "t_state y = THREAD_READY" by auto
    from yield_to_spec [of ?k cur "wake clock cur t'" r y c] vc y L(2) c obtain tb' where Y:
      "yield_to ?k c cur r = Some (?k\<lparr>threads := tb', cores := (cores k)[c := (cores k ! c)\<lparr>
        current_thread := t_tid y, current_thread_kernel_rsp := t_kernel_stack_addr y,
        current_thread_user_rsp := c_gs24 (t_context y)\<rparr>]\<rparr>)"
      "table_ok tb'" "slots tb' = slots tb"
      "view tb' = (view tb)(cur \<mapsto> put_down (wake clock cur t'), r \<mapsto> y\<lparr>t_state := THREAD_RUNNING\<rparr>)" by auto
    have "put_down (wake clock cur t') = wake clock cur t'" using t(2) tt(1) by (simp add: put_down_def)
    with Y(4) vc have V: "view tb' = w(r \<mapsto> y\<lparr>t_state := THREAD_RUNNING\<rparr>)" using L(4) by auto
    have k': "threads k' = tb'" "cores k' = (cores k)[c := (cores k ! c)\<lparr>current_thread := t_tid y,
        current_thread_kernel_rsp := t_kernel_stack_addr y, current_thread_user_rsp := c_gs24 (t_context y)\<rparr>]"
      using tick L(1) Y(1) True by (auto simp: timer_tick1_def)
    have "unat (t_tid y) = r" using tids [of r y] y(2) L(4) by (simp add: unat_of_nat_lt)
    then have "sched_of k' = ((\<lambda>i. map_option t_state (w i))(r \<mapsto> THREAD_RUNNING), cs[c := 0, c := r])"
      using V k' by (auto simp: sched_of_def map_update cs_def fun_eq_iff)
    moreover have "sched_step (\<lambda>i. map_option t_state (w i), cs[c := 0]) \<dots>"
      using c y True L(4) by (intro sched_step.dispatch) (auto simp: cs_def)
    moreover have "kernel_ok k'" using k' V Y(2,3) L(3,4) tids y(2) by (intro kernel_ok_upd [OF ok]) (auto split: if_splits)
    ultimately show ?thesis using W by (simp add: rtranclp.rtrancl_into_rtrancl)
  qed
qed

section \<open>Properties\<close>

text \<open>A thread is due when it is ready or its sleep is over.\<close>

definition due :: "kernel \<Rightarrow> (nat \<Rightarrow> timeval) \<Rightarrow> nat \<Rightarrow> bool" where
  "due k clock i \<longleftrightarrow> i \<noteq> 0 \<and> (\<exists>t. view (threads k) i = Some t \<and> t_state (wake clock i t) = THREAD_READY)"

lemma due_ready:
  assumes "view tb = (\<lambda>j. map_option (wake clock j) (((view (threads k))(cur \<mapsto> t')) j))" "i \<noteq> cur"
  shows "is_ready tb i \<longleftrightarrow> due k clock i"
  using assms by (auto simp: is_ready_def due_def)

lemma not_due_0: "\<not> due k clock 0"
  by (simp add: due_def)

lemma wake_upd: "(wake clock i t)\<lparr>t_state := s\<rparr> = t\<lparr>t_state := s\<rparr>"
  by (simp add: wake_def)

lemma nearest_cong: "(\<And>i. i \<noteq> a \<Longrightarrow> P i = Q i) \<Longrightarrow> nearest n P a r = nearest n Q a r"
  unfolding nearest_def by (smt (verit, best))

lemma tick_outcome:
  assumes ok: "kernel_ok k" and c: "c < length (cores k)" "threads_info_lock k = 0"
    and cur: "unat (current_thread (cores k ! c)) = cur" "cur \<noteq> 0" "view (threads k) cur = Some t" "t_state t = THREAD_RUNNING"
    and st: "19 \<le> length stack"
  obtains tid k' t' where
    "timer_tick_from_non_idle k c clock stack old_rsp xsave la = Some (tid, k')"
    "save_context stack old_rsp (current_thread_user_rsp (cores k ! c)) xsave t = Some t'"
    "nearest (length (slots (threads k))) (due k clock) cur (if tid = cur then 0 else tid)"
    "view (threads k') = (\<lambda>i. map_option (\<lambda>u. if i = tid then u\<lparr>t_state := THREAD_RUNNING\<rparr>
       else if i = cur then u\<lparr>t_state := THREAD_READY\<rparr> else wake clock i u) (((view (threads k))(cur \<mapsto> t')) i))"
    "current_thread (cores k' ! c) = of_nat tid" "tid \<noteq> 0" "threads_info_lock k' = 1" "view (threads k') tid \<noteq> None"
proof -
  obtain t' where sv: "save_context stack old_rsp (current_thread_user_rsp (cores k ! c)) xsave t = Some t'"
    using save_context_total [OF st] by blast
  define w where "w = (\<lambda>j. map_option (wake clock j) (((view (threads k))(cur \<mapsto> t')) j))"
  from tick_non_idle_spec [OF ok c cur(1,3,4) sv w_def, of la] obtain r tb k' where T:
    "timer_tick_from_non_idle k c clock stack old_rsp xsave la = Some (if r = 0 then cur else r, k')"
    "slots tb = slots (threads k)" "view tb = w" "nearest (length (slots tb)) (is_ready tb) cur r" "threads_info_lock k' = 1"
    and P: "if r = 0 then view (threads k') = w \<and> cores k' = cores k
       else \<exists>y. w r = Some y \<and> t_state y = THREAD_READY \<and> r \<noteq> cur
         \<and> view (threads k') = w(cur \<mapsto> t'\<lparr>t_state := THREAD_READY\<rparr>, r \<mapsto> y\<lparr>t_state := THREAD_RUNNING\<rparr>)
         \<and> cores k' = (cores k)[c := (cores k ! c)\<lparr>current_thread := t_tid y,
             current_thread_kernel_rsp := t_kernel_stack_addr y, current_thread_user_rsp := c_gs24 (t_context y)\<rparr>]" by blast
  have tt: "t_state t' = THREAD_RUNNING" using save_context_same [OF sv] cur(4) by simp
  then have wt: "wake clock cur t' = t'" by (simp add: wake_def)
  have N: "nearest (length (slots (threads k))) (due k clock) cur r"
    using T(2,4) nearest_cong [OF due_ready, OF T(3) [unfolded w_def]] by simp
  show thesis
  proof (cases "r = 0")
    case True
    have "view (threads k') = (\<lambda>i. map_option (\<lambda>u. if i = cur then u\<lparr>t_state := THREAD_RUNNING\<rparr>
       else if i = cur then u\<lparr>t_state := THREAD_READY\<rparr> else wake clock i u) (((view (threads k))(cur \<mapsto> t')) i))"
      using P True wt tt by (auto simp: w_def fun_eq_iff)
    then show thesis using T True N P cur sv unat_of_nat_lt by (intro that [of cur k' t']) (auto simp: word_unat_eq_iff)
  next
    case False
    with P obtain y where y: "w r = Some y" "r \<noteq> cur" "t_state y = THREAD_READY"
       "view (threads k') = w(cur \<mapsto> t'\<lparr>t_state := THREAD_READY\<rparr>, r \<mapsto> y\<lparr>t_state := THREAD_RUNNING\<rparr>)"
       "current_thread (cores k' ! c) = t_tid y" using c(1) by auto
    obtain u where u: "view (threads k) r = Some u" "y = wake clock r u" using y(1,2) by (auto simp: w_def)
    have "view (threads k') = (\<lambda>i. map_option (\<lambda>u. if i = r then u\<lparr>t_state := THREAD_RUNNING\<rparr>
       else if i = cur then u\<lparr>t_state := THREAD_READY\<rparr> else wake clock i u) (((view (threads k))(cur \<mapsto> t')) i))"
      using y u wt by (auto simp: w_def fun_eq_iff wake_upd)
    then show thesis using T False N y u sv tid_bound [OF ok u(1)] by (intro that [of r k' t']) auto
  qed
qed


text \<open>A machine with one core and two threads besides the idle one.\<close>

definition example_context :: user_thread_context where
  "example_context = \<lparr>c_r15 = 0, c_r14 = 0, c_r13 = 0, c_r12 = 0, c_r11 = 0, c_r10 = 0, c_r9 = 0, c_r8 = 0,
     c_rdi = 0, c_rsi = 0, c_rbp = 0, c_rbx = 0, c_rdx = 0, c_rcx = 0, c_rax = 0,
     c_rip = 0x1000, c_cs = 0x23, c_rflags = 0x202, c_rsp = 0x8000, c_ss = 0x1B, c_gs24 = 0,
     c_xsave_area = [], c_fs_base = 0, c_gs_base = 0\<rparr>"

definition example_thread :: "u64 \<Rightarrow> thread_state \<Rightarrow> thread_info" where
  "example_thread tid s = \<lparr>t_pid = 2, t_tid = tid, t_state = s,
     t_wakeup_time = \<lparr>tv_sec = 5, tv_microsec = 0\<rparr>, t_stack_addr = 0, t_kernel_stack_addr = 0,
     t_context = example_context, t_ptid = 0, t_signal = 0, t_signal_mask = 0, t_sleep_flag_addr = 0,
     t_context_type = CONTEXT_TYPE_ALU, t_lock_time = \<lparr>tv_sec = 0, tv_microsec = 0\<rparr>, t_return_code = 0\<rparr>"

definition example_kernel :: "thread_state \<Rightarrow> thread_state \<Rightarrow> u64 \<Rightarrow> kernel" where
  "example_kernel s1 s2 cur = \<lparr>
     threads = \<lparr>slots = [HM + 0x1000, HM + 0x2000, HM + 0x3000], heap = [HM + 0x1000 \<mapsto> example_thread 0 THREAD_IDLE,
       HM + 0x2000 \<mapsto> example_thread 1 s1, HM + 0x3000 \<mapsto> example_thread 2 s2]\<rparr>,
     processes = \<lparr>slots = [], heap = Map.empty\<rparr>,
     kvm = \<lparr>vm_frames = \<lparr>memory_map = [1, 1, 1, 1] @ replicate 26 0, total_memory_blocks_count = 10, end_kernel = HM\<rparr>, vm_mem = \<lambda>_. 0,
       processes_cr3_ptr = []\<rparr>,
     cores = [\<lparr>apic_id = 0, current_thread = cur, current_thread_kernel_rsp = 0, current_thread_user_rsp = 0, core_rsp = 0\<rparr>],
     current_tick = 0, threads_info_lock = 0, threads_info_lock1 = 0, threads_info_lock2 = 0, processes_info_lock = 0\<rparr>"

lemma view_example:
  "view (threads (example_kernel s1 s2 cur)) =
    [0 \<mapsto> example_thread 0 THREAD_IDLE, 1 \<mapsto> example_thread 1 s1, 2 \<mapsto> example_thread 2 s2]"
  by (auto simp: view_def example_kernel_def fun_eq_iff less_Suc_eq numeral_3_eq_3 HM_def)

lemma example_tid [simp]: "t_tid (example_thread i s) = i" "t_state (example_thread i s) = s"
  by (simp_all add: example_thread_def)

lemma example_kernel_ok: "kernel_ok (example_kernel s1 s2 cur)"
proof -
  have "table_ok (threads (example_kernel s1 s2 cur))"
    by (auto simp: table_ok_def example_kernel_def less_Suc_eq numeral_3_eq_3 HM_def)
  moreover have "t_tid t = of_nat i" if "view (threads (example_kernel s1 s2 cur)) i = Some t" for i t
    using that by (auto simp: view_example split: if_splits)
  ultimately show ?thesis by (simp add: kernel_ok_def example_kernel_def)
qed

lemma example_kernel_parts [simp]:
  "length (cores (example_kernel s1 s2 cur)) = 1" "cores (example_kernel s1 s2 cur) \<noteq> []" "current_thread (cores (example_kernel s1 s2 cur) ! 0) = cur"
  "threads_info_lock (example_kernel s1 s2 cur) = 0" "length (slots (threads (example_kernel s1 s2 cur))) = 3"
  by (simp_all add: example_kernel_def)


text \<open>Each tick brings the core nearer to a thread that stays ready.\<close>

lemma tick_approaches:
  assumes near: "nearest n P a r" and a: "a < n" and x: "x < n" "x \<noteq> a" "P x"
  shows "r < n \<and> ring_dist n r x < ring_dist n a x"
proof -
  have "\<exists>s<n. s \<noteq> a \<and> P s" using x by blast
  with near have r: "r < n" "r \<noteq> a" "ring_dist n a r \<le> ring_dist n a x"
    unfolding nearest_def using x by auto
  have "0 < ring_dist n a r" using ring_dist_eq_0 [OF a r(1)] r(2) by auto
  then show ?thesis using ring_dist_trans [OF a x(1) r(1,3)] r by auto
qed

lemma pushed_frame_len: "19 \<le> length (pushed_frame r)"
  by (simp add: pushed_frame_def)

lemma tick_needs_lock:
  "timer_tick_from_non_idle k c clock stack sp xs la = Some res \<Longrightarrow> threads_info_lock k = 0"
  by (auto simp: timer_tick_from_non_idle_def leave_thread_def spin_lock_def split: if_splits)

lemma tick_handler_non_idle:
  assumes "c < length (cores k)" "unat (current_thread (cores k ! c)) = cur" "cur \<noteq> 0"
  shows "tick_interrupt_handler k c clock r sp xs la = Some (r', k') \<longleftrightarrow>
    (\<exists>tid k1 t. timer_tick_from_non_idle k c clock (pushed_frame r) sp xs la = Some (tid, k1)
      \<and> view (threads k1) tid = Some t \<and> r' = restore_regs (t_context t) \<and> k' = k1\<lparr>threads_info_lock := 0\<rparr>)"
  using assms by (auto simp: tick_interrupt_handler_def current_thread_read deref_view bind_eq_Some_conv)


lemma example_tick:
  assumes "s1 = THREAD_RUNNING \<and> s2 = THREAD_READY \<and> cur = 1 \<and> nxt = 2
    \<or> s1 = THREAD_READY \<and> s2 = THREAD_RUNNING \<and> cur = 2 \<and> nxt = 1"
  shows "\<exists>r' k'. tick_interrupt_handler (example_kernel s1 s2 (of_nat cur)) 0 clock r 0 [] 0 = Some (r', k')
    \<and> nxt = unat (current_thread (cores k' ! 0))"
proof -
  let ?k = "example_kernel s1 s2 (of_nat cur)"
  have d: "due ?k clock nxt" "\<not> due ?k clock cur" "\<not> due ?k clock 0" "nxt < 3" "nxt \<noteq> cur"
    "unat (current_thread (cores ?k ! 0)) = cur" "cur \<noteq> 0"
    using assms by (auto simp: due_def view_example wake_def)
  have t: "view (threads ?k) cur = Some (example_thread (of_nat cur) THREAD_RUNNING)" using assms by (auto simp: view_example)
  obtain tid k1 t' where T: "timer_tick_from_non_idle ?k 0 clock (pushed_frame r) 0 [] 0 = Some (tid, k1)"
    "nearest (length (slots (threads ?k))) (due ?k clock) cur (if tid = cur then 0 else tid)"
    "current_thread (cores k1 ! 0) = of_nat tid" "tid \<noteq> 0" "view (threads k1) tid \<noteq> None"
    by (rule tick_outcome [OF example_kernel_ok, of 0 s1 s2 "of_nat cur" cur _ "pushed_frame r" clock 0 "[]" 0])
      (use d t pushed_frame_len in auto)
  have "\<exists>s<3. s \<noteq> cur \<and> due ?k clock s" using d by blast
  with T(2) have "tid < 3" "tid \<noteq> cur" using d(3,7) by (auto simp: nearest_def split: if_splits)
  with T(4) have "tid = nxt" using assms by auto
  then show ?thesis using T d by (auto simp: tick_interrupt_handler_def current_thread_read deref_view unat_of_nat_lt)
qed


lemma save_restore_user:
  assumes "save_context (pushed_frame r) sp g xs t = Some t'" "rg_cs r = 0x23" "rg_ss r = 0x1B"
  shows "restore_regs (t_context t') = r"
  using assms by (auto simp: save_context_def pushed_frame_def restore_regs_def context_words_def nth_opt_def
    Let_def bind_eq_Some_conv intro!: cpu_regs.equality split: if_splits)

text \<open>
  C5.  A user thread that the timer interrupts loses nothing: the context stored
  for it gives back all of its registers, the processor continues with exactly
  the registers stored for the thread that is chosen, and the stored context of
  every other thread is left alone, so that a later interrupt that chooses the
  first thread again resumes it where it was.
\<close>
theorem preempted_thread_resumes:
  assumes "kernel_ok k" "c < length (cores k)" "threads_info_lock k = 0"
    "unat (current_thread (cores k ! c)) = cur" "cur \<noteq> 0" "view (threads k) cur = Some t" "t_state t = THREAD_RUNNING"
    "rg_cs r = 0x23" "rg_ss r = 0x1B"
  shows "\<exists>r' k'. tick_interrupt_handler k c clock r sp xs la = Some (r', k')
    \<and> map_option (\<lambda>u. restore_regs (t_context u)) (view (threads k') cur) = Some r
    \<and> map_option (\<lambda>u. restore_regs (t_context u)) (view (threads k') (unat (current_thread (cores k' ! c)))) = Some r'
    \<and> (\<forall>i. i \<noteq> cur \<longrightarrow> map_option t_context (view (threads k') i) = map_option t_context (view (threads k) i))"
proof -
  obtain tid k' t' where T: "timer_tick_from_non_idle k c clock (pushed_frame r) sp xs la = Some (tid, k')"
    "save_context (pushed_frame r) sp (current_thread_user_rsp (cores k ! c)) xs t = Some t'"
    "nearest (length (slots (threads k))) (due k clock) cur (if tid = cur then 0 else tid)"
    "view (threads k') = (\<lambda>i. map_option (\<lambda>u. if i = tid then u\<lparr>t_state := THREAD_RUNNING\<rparr>
       else if i = cur then u\<lparr>t_state := THREAD_READY\<rparr> else wake clock i u) (((view (threads k))(cur \<mapsto> t')) i))"
    "current_thread (cores k' ! c) = of_nat tid" "view (threads k') tid \<noteq> None"
    by (rule tick_outcome [OF assms(1-7) pushed_frame_len, of clock r sp xs la])
  from T(6) obtain u where u: "view (threads k') tid = Some u" by auto
  have b: "tid < 2 ^ 64"
    using T(4) u tid_bound [OF assms(1), of tid] tid_bound [OF assms(1,6)] by (auto split: if_splits)
  have "tick_interrupt_handler k c clock r sp xs la = Some (restore_regs (t_context u), k'\<lparr>threads_info_lock := 0\<rparr>)"
    using tick_handler_non_idle [OF assms(2,4,5)] T(1) u by blast
  moreover have "map_option t_context (view (threads k') i) = map_option t_context (view (threads k) i)" if "i \<noteq> cur" for i
    using that T(4) by (cases "view (threads k) i") auto
  moreover have "map_option (\<lambda>u. restore_regs (t_context u)) (view (threads k') cur) = Some r"
    using save_restore_user [OF T(2) assms(8,9)] T(4) by simp
  ultimately show ?thesis using u T(5) b by (auto simp: unat_of_nat_lt)
qed

theorem preempted_thread_resumes_witness:
  "\<exists>r' k'. tick_interrupt_handler (example_kernel THREAD_RUNNING THREAD_READY 1) 0 (\<lambda>_. \<lparr>tv_sec = 6, tv_microsec = 0\<rparr>)
      ((restore_regs example_context)\<lparr>rg_rax := 42, rg_r9 := 7\<rparr>) 0 [] 0 = Some (r', k')
    \<and> map_option (\<lambda>u. restore_regs (t_context u)) (view (threads k') 1) = Some ((restore_regs example_context)\<lparr>rg_rax := 42, rg_r9 := 7\<rparr>)"
  using preempted_thread_resumes [OF example_kernel_ok, of 0 THREAD_RUNNING THREAD_READY 1 1 "example_thread 1 THREAD_RUNNING"
    "(restore_regs example_context)\<lparr>rg_rax := 42, rg_r9 := 7\<rparr>" "\<lambda>_. \<lparr>tv_sec = 6, tv_microsec = 0\<rparr>" 0 "[]" 0]
  by (auto simp: view_example restore_regs_def example_context_def context_words_def Let_def)

end
