(* ===== verification/Processes.thy ===== *)
theory Processes
  imports Threads
begin

text \<open>
  Processes: sleeping, creation and end of threads and processes of
  \<^verbatim>\<open>src/core/scheduler.h\<close>, signals (\<^verbatim>\<open>src/core/ipc/signal.h\<close> and the delivery in
  \<^verbatim>\<open>src/core/interrupt.h\<close>), futexes (\<^verbatim>\<open>src/core/ipc/sync.h\<close>) and shared memory
  (\<^verbatim>\<open>src/core/ipc/shared_mem.h\<close>).

  A call that gives up the core ends in \<^const>\<open>tick_interrupt_handler1\<close>; its
  arguments (the clock, the registers at that moment, the extended registers,
  the stack addresses) are collected in \<open>yield_env\<close>.
\<close>

section \<open>Sleeping\<close>

record yield_env =
  y_clock :: "nat \<Rightarrow> timeval"
  y_regs :: cpu_regs
  y_sp :: u64
  y_xsave :: "u8 list"
  y_local :: u64

definition scheduler_yeild :: "kernel \<Rightarrow> nat \<Rightarrow> yield_env \<Rightarrow> kernel option" where
  "scheduler_yeild k c e = map_option snd
     (tick_interrupt_handler1 k c (y_clock e) (y_regs e) (y_sp e) (y_xsave e) (y_local e))"

definition change_thread :: "kernel \<Rightarrow> nat \<Rightarrow> (thread_info \<Rightarrow> thread_info) \<Rightarrow> kernel option" where
  "change_thread k tid f = do { tb \<leftarrow> store (threads k) tid f; Some (k\<lparr>threads := tb\<rparr>) }"

definition change_process :: "kernel \<Rightarrow> nat \<Rightarrow> (process_info \<Rightarrow> process_info) \<Rightarrow> kernel option" where
  "change_process k pid f = do { tb \<leftarrow> store (processes k) pid f; Some (k\<lparr>processes := tb\<rparr>) }"

definition kernel_thread_sleep :: "kernel \<Rightarrow> nat \<Rightarrow> timeval \<Rightarrow> yield_env \<Rightarrow> u64 \<Rightarrow> kernel option" where
  "kernel_thread_sleep k c now e duration_us = do {
     tid \<leftarrow> get_current_thread_id k c;
     _ \<leftarrow> spin_lock (threads_info_lock2 k);
     k1 \<leftarrow> change_thread k tid (\<lambda>t. t\<lparr>t_wakeup_time := add_time_us now (ucast duration_us),
       t_state := THREAD_BLOCKED_OTHER\<rparr>);
     scheduler_yeild k1 c e }"

definition kernel_thread_sleep_on_network :: "kernel \<Rightarrow> nat \<Rightarrow> yield_env \<Rightarrow> u64 \<Rightarrow> kernel option" where
  "kernel_thread_sleep_on_network k c e addr = do {
     tid \<leftarrow> get_current_thread_id k c;
     k1 \<leftarrow> change_thread k tid (\<lambda>t. t\<lparr>t_state := THREAD_BLOCKED_NETWORK, t_sleep_flag_addr := addr\<rparr>);
     scheduler_yeild k1 c e }"

definition user_thread_current_sleep :: "kernel \<Rightarrow> nat \<Rightarrow> timeval \<Rightarrow> yield_env \<Rightarrow> timespec \<Rightarrow> kernel option" where
  "user_thread_current_sleep k c now e req = do {
     tid \<leftarrow> get_current_thread_id k c;
     let wake_time = add_time now \<lparr>tv_sec = ts_sec req, tv_microsec = ucast (tv_nanosec req div 1000)\<rparr>;
     k1 \<leftarrow> change_thread k tid (\<lambda>t. t\<lparr>t_state := THREAD_BLOCKED_OTHER, t_wakeup_time := wake_time\<rparr>);
     scheduler_yeild k1 c e }"

definition sleep_by_resource :: "kernel \<Rightarrow> nat \<Rightarrow> yield_env \<Rightarrow> u64 \<Rightarrow> thread_state \<Rightarrow> kernel option" where
  "sleep_by_resource k c e flag_addr s = do {
     tid \<leftarrow> get_current_thread_id k c;
     let s' = (if s = THREAD_NOT_EXIST then THREAD_BLOCKED_OTHER else s);
     k1 \<leftarrow> change_thread k tid (\<lambda>t. t\<lparr>t_sleep_flag_addr := flag_addr, t_state := s'\<rparr>);
     scheduler_yeild k1 c e }"

section \<open>Creating processes and threads\<close>

text \<open>The structures in an erased block.\<close>

definition zero_time :: timeval where
  "zero_time = \<lparr>tv_sec = 0, tv_microsec = 0\<rparr>"

definition zero_context :: user_thread_context where
  "zero_context = \<lparr>c_r15 = 0, c_r14 = 0, c_r13 = 0, c_r12 = 0, c_r11 = 0, c_r10 = 0, c_r9 = 0, c_r8 = 0,
     c_rdi = 0, c_rsi = 0, c_rbp = 0, c_rbx = 0, c_rdx = 0, c_rcx = 0, c_rax = 0,
     c_rip = 0, c_cs = 0, c_rflags = 0, c_rsp = 0, c_ss = 0, c_gs24 = 0,
     c_xsave_area = replicate 832 0, c_fs_base = 0, c_gs_base = 0\<rparr>"

definition zero_thread :: thread_info where
  "zero_thread = \<lparr>t_pid = 0, t_tid = 0, t_state = THREAD_NOT_EXIST, t_wakeup_time = zero_time, t_stack_addr = 0,
     t_kernel_stack_addr = 0, t_context = zero_context, t_ptid = 0, t_signal = 0, t_signal_mask = 0,
     t_sleep_flag_addr = 0, t_context_type = CONTEXT_TYPE_ALU, t_lock_time = zero_time, t_return_code = 0\<rparr>"

definition zero_process :: process_info where
  "zero_process = \<lparr>p_pid = 0, p_state = PROCESS_NOT_EXIST, p_main_thread_id = 0, p_signal = 0, p_threads_count = 0,
     p_pgid = 0, p_sid = 0, p_fd_addr = 0, p_parent_pid = 0, p_heap_start_addr = 0, p_heap_end_addr = 0,
     p_sig_handlers = replicate 64 0, p_uid = 0, p_gid = 0, p_euid = 0, p_egid = 0, p_reuid = 0, p_regid = 0,
     p_resuid = 0, p_resgid = 0, p_lock = 0, p_return_code = 0, p_sm = replicate 64 0,
     p_cmd_line = replicate 512 0, p_env = replicate 512 0, p_cwd = replicate 1024 0\<rparr>"

definition SIZEOF_PROCESS_INFO :: u64 where
  "SIZEOF_PROCESS_INFO = 3240"

fun erase_blocks :: "nat \<Rightarrow> u64 \<Rightarrow> mem64 \<Rightarrow> mem64" where
  "erase_blocks 0 a m = m"
| "erase_blocks (Suc n) a m = erase_blocks n (a + 4096) (erase_block m a)"

text \<open>
  A block for a structure, through the kernel's window, erased.
\<close>

definition alloc_struct :: "kernel \<Rightarrow> (u64 \<times> kernel) option" where
  "alloc_struct k = do {
     (a, fr) \<leftarrow> get_a_free_block_addr (vm_frames (kvm k));
     Some (a, k\<lparr>kvm := (kvm k)\<lparr>vm_frames := fr, vm_mem := erase_block (vm_mem (kvm k)) a\<rparr>\<rparr>) }"

definition alloc_run :: "kernel \<Rightarrow> u64 \<Rightarrow> (u64 \<times> kernel) option" where
  "alloc_run k n = do {
     (i, fr) \<leftarrow> get_continuous_free_blocks (vm_frames (kvm k)) n;
     Some (i * 4096 + HM, k\<lparr>kvm := (kvm k)\<lparr>vm_frames := fr\<rparr>\<rparr>) }"

text \<open>
  The group and session of the parent are read at \<^verbatim>\<open>process_info_ptr[parent_pid]\<close>,
  an address behind the new structure; \<open>raw\<close> is what the memory holds there.
\<close>

definition setup_process_info :: "kernel \<Rightarrow> (u64 \<Rightarrow> u64) \<Rightarrow> u64 \<Rightarrow> u64 \<Rightarrow> kernel option" where
  "setup_process_info k raw pid parent_pid = do {
     (pid_addr, k1) \<leftarrow> alloc_struct k;
     (fd_addr, k2) \<leftarrow> alloc_run k1 20;
     let ppa = pid_addr + parent_pid * SIZEOF_PROCESS_INFO;
     let proc = zero_process\<lparr>p_pid := pid, p_state := PROCESS_RUNNING, p_fd_addr := fd_addr, p_parent_pid := parent_pid,
           p_pgid := (if parent_pid = pid then pid else raw (ppa + 40)),
           p_sid := (if parent_pid = pid then pid else raw (ppa + 48))\<rparr>;
     tb \<leftarrow> install (processes k2) (unat pid) pid_addr proc;
     Some (k2\<lparr>processes := tb\<rparr>) }"

definition set_cr3 :: "kernel \<Rightarrow> nat \<Rightarrow> u64 \<Rightarrow> kernel option" where
  "set_cr3 k pid a = do {
     cr \<leftarrow> upd_opt (processes_cr3_ptr (kvm k)) pid a;
     Some (k\<lparr>kvm := (kvm k)\<lparr>processes_cr3_ptr := cr\<rparr>\<rparr>) }"

definition setup_idle_process_info :: "kernel \<Rightarrow> u64 \<Rightarrow> kernel option" where
  "setup_idle_process_info k page_table_l4 = do {
     (pid_addr, k1) \<leftarrow> alloc_struct k;
     tb \<leftarrow> install (processes k1) 0 pid_addr (zero_process\<lparr>p_state := PROCESS_IDLE\<rparr>);
     set_cr3 (k1\<lparr>processes := tb\<rparr>) 0 (page_table_l4 + HM) }"

definition register_idle_thread :: "kernel \<Rightarrow> u64 \<Rightarrow> u64 \<Rightarrow> kernel option" where
  "register_idle_thread k xsleep_top xsleep = do {
     (thread_info_addr, k1) \<leftarrow> alloc_struct k;
     tb \<leftarrow> install (threads k1) 0 thread_info_addr (zero_thread\<lparr>t_state := THREAD_IDLE,
       t_context := zero_context\<lparr>c_rsp := xsleep_top, c_rip := xsleep, c_rflags := 0x202, c_cs := 0x8, c_ss := 0x10\<rparr>\<rparr>);
     change_process (k1\<lparr>threads := tb\<rparr>) 0 (\<lambda>p. p\<lparr>p_threads_count := p_threads_count p + 1\<rparr>) }"

definition start_idle_process :: "kernel \<Rightarrow> u64 \<Rightarrow> u64 \<Rightarrow> u64 \<Rightarrow> kernel option" where
  "start_idle_process k page_table_l4 xsleep_top xsleep = do {
     k1 \<leftarrow> setup_idle_process_info k page_table_l4;
     register_idle_thread k1 xsleep_top xsleep }"

definition setup_kernel_process :: "kernel \<Rightarrow> u64 \<Rightarrow> kernel option" where
  "setup_kernel_process k page_table_l4 = do {
     k1 \<leftarrow> set_cr3 k 1 (page_table_l4 + HM);
     (proc, fr) \<leftarrow> get_a_free_block_addr (vm_frames (kvm k1));
     let k2 = k1\<lparr>kvm := (kvm k1)\<lparr>vm_frames := fr\<rparr>\<rparr>;
     tb \<leftarrow> install (processes k2) 1 proc (zero_process\<lparr>p_state := PROCESS_RUNNING\<rparr>);
     Some (k2\<lparr>processes := tb\<rparr>) }"

text \<open>
  The part the three functions that register a thread share: five erased blocks
  for the structure and the kernel stack, and a free entry of the table.
\<close>

definition place_thread :: "kernel \<Rightarrow> u64 \<Rightarrow> (u64 \<Rightarrow> u64 \<Rightarrow> thread_info) \<Rightarrow> (nat \<times> kernel) option" where
  "place_thread k start mk = do {
     (thread_info_addr, k1) \<leftarrow> alloc_run k 5;
     let k2 = k1\<lparr>kvm := (kvm k1)\<lparr>vm_mem := erase_blocks 5 thread_info_addr (vm_mem (kvm k1))\<rparr>\<rparr>;
     thread_id \<leftarrow> get_a_free_slot (slots (threads k2)) start (of_nat (length (slots (threads k2))));
     tb \<leftarrow> install (threads k2) (unat thread_id) thread_info_addr (mk thread_info_addr thread_id);
     Some (unat thread_id, k2\<lparr>threads := tb\<rparr>) }"

definition register_a_kernel_thread :: "kernel \<Rightarrow> u64 \<Rightarrow> (nat \<times> kernel) option" where
  "register_a_kernel_thread k entry_point_addr = place_thread k 1 (\<lambda>a tid.
     zero_thread\<lparr>t_pid := 1, t_state := THREAD_READY, t_tid := tid, t_stack_addr := a + 5 * 4096,
       t_context := zero_context\<lparr>c_rsp := a + 5 * 4096, c_rip := entry_point_addr, c_rflags := 0x202,
         c_cs := 0x08, c_ss := 0x10\<rparr>,
       t_kernel_stack_addr := a + 5 * 4096\<rparr>)"

text \<open>
  The two functions for user threads count the new thread through
  \<^verbatim>\<open>&processes_info_ptr[pid]\<close>, the address of the table entry and not of the
  process: the counter, the fifth word, is the table entry four further on.
\<close>

definition bump_entry :: "kernel \<Rightarrow> u64 \<Rightarrow> kernel option" where
  "bump_entry k pid = do {
     p \<leftarrow> nth_opt (slots (processes k)) (unat pid + 4);
     Some (k\<lparr>processes := (processes k)\<lparr>slots := (slots (processes k))[unat pid + 4 := p + 1]\<rparr>\<rparr>) }"

definition user_thread_at :: "u64 \<Rightarrow> thread_state \<Rightarrow> u64 \<Rightarrow> u64 \<Rightarrow> u64 \<Rightarrow> u64 \<Rightarrow> u64 \<Rightarrow> thread_info" where
  "user_thread_at pid s ptid stack_top entry_point a tid = zero_thread\<lparr>t_pid := pid, t_state := s, t_tid := tid, t_ptid := ptid,
     t_stack_addr := stack_top, t_context := zero_context\<lparr>c_rsp := stack_top, c_rip := entry_point, c_rflags := 0x202,
       c_cs := 0x23, c_ss := 0x1b\<rparr>,
     t_kernel_stack_addr := a + 5 * 4096\<rparr>"

text \<open>
  The search for a stack steps down by five pages until the page below is not
  mapped; the addresses repeat after \<open>2 ^ 52\<close> steps.
\<close>

definition find_stack_top :: "vm \<Rightarrow> u64 \<Rightarrow> u64 option" where
  "find_stack_top s pid = do {
     _ \<leftarrow> nth_opt (processes_cr3_ptr s) (unat pid);
     n \<leftarrow> first_from (2 ^ 52) 0 (\<lambda>n. is_paged s pid (HM - 4096 - of_nat n * (5 * 4096) - 4096) = Some False);
     Some (HM - 4096 - of_nat n * (5 * 4096)) }"

fun map_stack :: "nat \<Rightarrow> u64 \<Rightarrow> u64 \<Rightarrow> u64 \<Rightarrow> vm \<Rightarrow> vm option" where
  "map_stack 0 i pid stack_top s = Some s"
| "map_stack (Suc n) i pid stack_top s = do {
     (_, s') \<leftarrow> increase_paging_of_process_with_virt_addr s pid (stack_top - i * 4096 - 4096);
     map_stack n (i + 1) pid stack_top s' }"

definition register_a_thread :: "kernel \<Rightarrow> u64 \<Rightarrow> u64 \<Rightarrow> (nat \<times> kernel) option" where
  "register_a_thread k pid entry_point_addr = do {
     stack_top \<leftarrow> find_stack_top (kvm k) pid;
     s \<leftarrow> map_stack 4 0 pid stack_top (kvm k);
     (tid, k1) \<leftarrow> place_thread (k\<lparr>kvm := s\<rparr>) 2 (user_thread_at pid THREAD_NOT_EXIST 0 stack_top entry_point_addr);
     k2 \<leftarrow> bump_entry k1 pid;
     Some (tid, k2) }"

text \<open>The entry point of a further thread is the word on top of its stack.\<close>

definition register_a_sub_thread :: "kernel \<Rightarrow> (u64 \<Rightarrow> u64) \<Rightarrow> u64 \<Rightarrow> u64 \<Rightarrow> u64 \<Rightarrow> (nat \<times> kernel) option" where
  "register_a_sub_thread k raw pid stack_top_addr ptid = do {
     (tid, k1) \<leftarrow> place_thread k 1 (user_thread_at pid THREAD_READY ptid stack_top_addr (raw stack_top_addr));
     k2 \<leftarrow> bump_entry k1 pid;
     Some (tid, k2) }"

section \<open>Ending threads and processes\<close>

definition mark_process_as_ended :: "kernel \<Rightarrow> nat \<Rightarrow> kernel option" where
  "mark_process_as_ended k c = do {
     pid \<leftarrow> get_current_pid k c;
     _ \<leftarrow> spin_lock (threads_info_lock1 k);
     k1 \<leftarrow> change_process k (unat pid) (\<lambda>p. p\<lparr>p_state := PROCESS_ENDED_BUT_NOT_CLEANED\<rparr>);
     tb \<leftarrow> each_from (length (slots (threads k1))) 0
       (\<lambda>i t. if t_pid t = pid \<and> t_state t \<noteq> THREAD_NOT_EXIST \<and> t_state t \<noteq> THREAD_ENDED_BUT_NOT_CLEANED
         then t\<lparr>t_state := THREAD_ENDED_BUT_NOT_CLEANED\<rparr> else t) (threads k1);
     Some (k1\<lparr>threads := tb\<rparr>) }"

fun unmap_stack :: "nat \<Rightarrow> u64 \<Rightarrow> u64 \<Rightarrow> u64 \<Rightarrow> vm \<Rightarrow> vm option" where
  "unmap_stack 0 i pid a s = Some s"
| "unmap_stack (Suc n) i pid a s = do {
     s' \<leftarrow> decrease_paging_of_process_with_virt_addr s pid (a - i * 4096);
     unmap_stack n (i + 1) pid a s' }"

definition mark_current_thread_as_ended :: "kernel \<Rightarrow> nat \<Rightarrow> u64 \<Rightarrow> kernel option" where
  "mark_current_thread_as_ended k c return_code = do {
     tid \<leftarrow> get_current_thread_id k c;
     pid \<leftarrow> get_current_pid k c;
     _ \<leftarrow> spin_lock (threads_info_lock1 k);
     k1 \<leftarrow> change_thread k tid (\<lambda>t. t\<lparr>t_state := THREAD_ENDED_BUT_NOT_CLEANED, t_return_code := return_code\<rparr>);
     t \<leftarrow> deref (threads k1) tid;
     s \<leftarrow> unmap_stack 4 1 pid (t_stack_addr t) (kvm k1);
     k2 \<leftarrow> change_process (k1\<lparr>kvm := s\<rparr>) (unat pid) (\<lambda>p. p\<lparr>p_threads_count := p_threads_count p - 1\<rparr>);
     proc \<leftarrow> deref (processes k2) (unat pid);
     if p_threads_count proc \<le> 0 then mark_process_as_ended k2 c else Some k2 }"

definition pageline_to_low_addr :: "u64 \<Rightarrow> u64" where
  "pageline_to_low_addr page_line = page_line AND 0x000FFFFFFFFFF000"

fun free_each :: "(u64 \<Rightarrow> frames \<Rightarrow> frames option) \<Rightarrow> u64 list \<Rightarrow> frames \<Rightarrow> frames option" where
  "free_each f [] fr = Some fr"
| "free_each f (a # as) fr = do { fr' \<leftarrow> f a fr; free_each f as fr' }"

text \<open>
  The two recursive walks that free a page table of level \<open>lv\<close> and all below it.
\<close>

fun free_page :: "mem64 \<Rightarrow> nat \<Rightarrow> u64 \<Rightarrow> frames \<Rightarrow> frames option" where
  "free_page m 0 page_addr fr = None"
| "free_page m (Suc lv) page_addr fr = do {
     fr1 \<leftarrow> free_each (\<lambda>e fr. let page_entry_addr = page_line_to_addr e - HM in
         if lv > 0 then free_page m lv page_entry_addr fr else free_block fr page_entry_addr)
       (map (\<lambda>i. m (page_addr + 8 * of_nat i)) [0..<512]) fr;
     free_block fr1 page_addr }"

fun free_page_hm :: "mem64 \<Rightarrow> nat \<Rightarrow> u64 \<Rightarrow> frames \<Rightarrow> frames option" where
  "free_page_hm m 0 page_addr fr = None"
| "free_page_hm m (Suc lv) page_addr fr = do {
     let max_pageline = (if Suc lv = 4 then unat (drop_bit 39 HM) else 512);
     fr1 \<leftarrow> free_each (\<lambda>e fr. let page_entry_addr = pageline_to_low_addr e in
         if page_entry_addr = 0 then Some fr
         else if lv > 0 then free_page_hm m lv (page_entry_addr + HM) fr else free_block fr (page_entry_addr + HM))
       (map (\<lambda>i. m (page_addr + 8 * of_nat i)) [0..<max_pageline]) fr;
     free_block fr1 page_addr }"

text \<open>
  \<^verbatim>\<open>stop_process\<close> skips the entries that are not null and reads through the others.
\<close>

definition stop_process :: "kernel \<Rightarrow> u64 \<Rightarrow> kernel option" where
  "stop_process k pid = (if list_all (\<lambda>p. p \<noteq> 0) (slots (threads k)) then Some k else None)"

text \<open>The three loops of \<^verbatim>\<open>end_process\<close>.\<close>

definition adopt_children :: "u64 \<Rightarrow> process_info table \<Rightarrow> process_info table option" where
  "adopt_children pid tb = each_from (length (slots tb)) 0
     (\<lambda>i p. if p_parent_pid p = pid then p\<lparr>p_parent_pid := 1\<rparr> else p) tb"

definition running_child :: "u64 \<Rightarrow> process_info \<Rightarrow> bool" where
  "running_child pid p \<longleftrightarrow> p_parent_pid p = pid \<and> p_state p \<noteq> PROCESS_STOPPED
     \<and> p_state p \<noteq> PROCESS_ENDED_BUT_NOT_CLEANED \<and> p_state p \<noteq> PROCESS_NOT_EXIST"

fun count_children_from :: "nat \<Rightarrow> nat \<Rightarrow> u64 \<Rightarrow> process_info table \<Rightarrow> u64 option" where
  "count_children_from 0 i pid tb = Some 0"
| "count_children_from (Suc n) i pid tb = do {
     p \<leftarrow> nth_opt (slots tb) i;
     r \<leftarrow> count_children_from n (Suc i) pid tb;
     if p = 0 then Some r
     else do { proc \<leftarrow> heap tb p; Some (if running_child pid proc then r + 1 else r) } }"

definition P_LOCK_OFFSET :: u64 where
  "P_LOCK_OFFSET = 664"

definition wake_waiter :: "u64 \<Rightarrow> u64 \<Rightarrow> u64 \<Rightarrow> thread_info \<Rightarrow> thread_info" where
  "wake_waiter parent_pid count lock_addr t =
     (if t_pid t \<noteq> parent_pid \<or> t_state t \<noteq> THREAD_BLOCKED_PID then t
      else let t1 = (if t_sleep_flag_addr t = -1 \<and> count = 0
               then t\<lparr>t_state := THREAD_READY, t_sleep_flag_addr := 0\<rparr> else t)
           in if t_sleep_flag_addr t1 = lock_addr then t1\<lparr>t_state := THREAD_READY, t_sleep_flag_addr := 0\<rparr> else t1)"

definition end_process :: "kernel \<Rightarrow> u64 \<Rightarrow> u8 \<Rightarrow> kernel option" where
  "end_process k pid return_code = do {
     c3_ptr \<leftarrow> nth_opt (processes_cr3_ptr (kvm k)) (unat pid);
     fr \<leftarrow> free_page_hm (vm_mem (kvm k)) 4 c3_ptr (vm_frames (kvm k));
     proc_addr \<leftarrow> nth_opt (slots (processes k)) (unat pid);
     k1 \<leftarrow> change_process k (unat pid) (\<lambda>p. p\<lparr>p_state := PROCESS_STOPPED\<rparr>);
     proc \<leftarrow> deref (processes k1) (unat pid);
     fr1 \<leftarrow> set_memory_block_used_when_boot fr (p_fd_addr proc div 4096) False;
     fr2 \<leftarrow> set_memory_block_used_when_boot fr1 (p_fd_addr proc div 4096 + 1) False;
     ps \<leftarrow> adopt_children pid (processes k1);
     let k2 = k1\<lparr>processes := ps, kvm := (kvm k1)\<lparr>vm_frames := fr2\<rparr>\<rparr>;
     k3 \<leftarrow> change_process k2 (unat pid) (\<lambda>p. p\<lparr>p_fd_addr := 0, p_return_code := ucast return_code\<rparr>);
     count_children_running \<leftarrow> count_children_from (length (slots (processes k3))) 0 pid (processes k3);
     proc' \<leftarrow> deref (processes k3) (unat pid);
     tb \<leftarrow> each_from (length (slots (threads k3))) 0
       (\<lambda>i. wake_waiter (p_parent_pid proc') count_children_running (proc_addr + P_LOCK_OFFSET)) (threads k3);
     Some (k3\<lparr>threads := tb\<rparr>) }"

section \<open>Signals\<close>

definition mask_a_signal :: "u64 \<Rightarrow> u8 \<Rightarrow> u64" where
  "mask_a_signal m signal_num = (if signal_num > 63 then m else m OR push_bit (unat signal_num) 1)"

definition unmask_a_signal :: "u64 \<Rightarrow> u8 \<Rightarrow> u64" where
  "unmask_a_signal m signal_num = (if signal_num > 63 then m else m AND NOT (push_bit (unat signal_num) 1))"

definition do_mask_a_signal :: "u64 \<Rightarrow> u8 \<Rightarrow> bool \<Rightarrow> u64" where
  "do_mask_a_signal m signal_num action = (if action then mask_a_signal m signal_num else unmask_a_signal m signal_num)"

text \<open>The processor takes the shift distance modulo 64.\<close>

definition is_signal_masked :: "u8 \<Rightarrow> u64 \<Rightarrow> bool" where
  "is_signal_masked signal_num signal_mask \<longleftrightarrow> signal_mask AND push_bit (unat signal_num mod 64) 1 \<noteq> 0"

abbreviation SIGKILL :: u64 where "SIGKILL \<equiv> 9"
abbreviation SIGSTOP :: u64 where "SIGSTOP \<equiv> 19"

text \<open>
  The start of a handler that both delivery functions share.
\<close>

definition start_handler :: "kernel \<Rightarrow> u64 \<Rightarrow> nat \<Rightarrow> (nat \<times> kernel) option" where
  "start_handler k pid sig = do {
     proc \<leftarrow> deref (processes k) (unat pid);
     _ \<leftarrow> spin_lock (processes_info_lock k);
     entry_point \<leftarrow> nth_opt (p_sig_handlers proc) sig;
     (handler_tid, k1) \<leftarrow> register_a_thread k pid entry_point;
     k2 \<leftarrow> change_thread k1 handler_tid (\<lambda>t. t\<lparr>t_state := THREAD_READY\<rparr>);
     k3 \<leftarrow> change_process k2 (unat pid) (\<lambda>p. p\<lparr>p_state := PROCESS_HANDLING_SIGNAL\<rparr>);
     Some (handler_tid, k3) }"

definition handle_signal_process :: "kernel \<Rightarrow> u64 \<Rightarrow> (nat \<times> kernel) option" where
  "handle_signal_process k pid = do {
     proc \<leftarrow> deref (processes k) (unat pid);
     if p_state proc = PROCESS_HANDLING_SIGNAL then Some (0, k)
     else if p_signal proc = SIGKILL then do { k1 \<leftarrow> end_process k pid (-1); Some (0, k1) }
     else if p_signal proc = SIGSTOP then do { k1 \<leftarrow> stop_process k pid; Some (0, k1) }
     else do {
       (handler_tid, k1) \<leftarrow> start_handler k pid (unat (ucast (p_signal proc) :: u8));
       tb \<leftarrow> each_from (length (slots (threads k1))) 0
         (\<lambda>i t. if t_pid t = pid \<and> handler_tid \<noteq> i then t\<lparr>t_state := THREAD_WAITING_SIGNAL\<rparr> else t) (threads k1);
       Some (handler_tid, k1\<lparr>threads := tb\<rparr>) } }"

text \<open>
  The loop for a single thread reads through every entry, null ones included, and
  does not spare the handler.
\<close>

definition handle_signal_thread :: "kernel \<Rightarrow> nat \<Rightarrow> (nat \<times> kernel) option" where
  "handle_signal_thread k tid = do {
     thread \<leftarrow> deref (threads k) tid;
     if t_signal thread = 0 then Some (0, k)
     else do {
       (handler_tid, k1) \<leftarrow> start_handler k (t_pid thread) (unat (t_signal thread));
       if list_all (\<lambda>p. p \<noteq> 0) (slots (threads k1)) then do {
         tb \<leftarrow> each_from (length (slots (threads k1))) 0
           (\<lambda>i t. if t_pid t = t_pid thread then t\<lparr>t_state := THREAD_WAITING_SIGNAL\<rparr> else t) (threads k1);
         Some (handler_tid, k1\<lparr>threads := tb\<rparr>) }
       else None } }"

fun find_receiver :: "nat \<Rightarrow> nat \<Rightarrow> u64 \<Rightarrow> u8 \<Rightarrow> thread_info table \<Rightarrow> nat option option" where
  "find_receiver 0 i pid sig tb = Some None"
| "find_receiver (Suc n) i pid sig tb = do {
     t \<leftarrow> deref tb i;
     if t_pid t \<noteq> pid \<or> is_signal_masked sig (t_signal_mask t) then find_receiver n (Suc i) pid sig tb
     else Some (Some i) }"

text \<open>Only the check of the number returns a value; otherwise the result is not set.\<close>

definition send_signal_to_process :: "kernel \<Rightarrow> u64 \<Rightarrow> u8 \<Rightarrow> (u64 option \<times> kernel) option" where
  "send_signal_to_process k pid sig =
     (if sig > 63 then Some (Some (- EINVAL), k)
      else do {
        receiver \<leftarrow> find_receiver (length (slots (threads k))) 0 pid sig (threads k);
        case receiver of
          None \<Rightarrow> do { k1 \<leftarrow> end_process k pid 9; Some (None, k1) }
        | Some i \<Rightarrow> do {
            k1 \<leftarrow> change_thread k i (\<lambda>t. t\<lparr>t_signal := sig\<rparr>);
            k2 \<leftarrow> change_process k1 (unat pid) (\<lambda>p. p\<lparr>p_signal := ucast sig\<rparr>);
            (_, k3) \<leftarrow> handle_signal_process k2 pid;
            Some (None, k3) } })"

definition send_signal_to_thread :: "kernel \<Rightarrow> u64 \<Rightarrow> nat \<Rightarrow> u8 \<Rightarrow> (u64 \<times> kernel) option" where
  "send_signal_to_thread k pid tid sig =
     (if sig > 63 then Some (- EINVAL, k)
      else do {
        p \<leftarrow> nth_opt (slots (threads k)) tid;
        if p = 0 then Some (- ESRCH, k)
        else do {
          t \<leftarrow> heap (threads k) p;
          if t_pid t \<noteq> pid then Some (- ESRCH, k)
          else if is_signal_masked sig (t_signal_mask t) then Some (- EACCES, k)
          else do {
            k1 \<leftarrow> change_thread k tid (\<lambda>t. t\<lparr>t_signal := sig\<rparr>);
            (_, k2) \<leftarrow> handle_signal_thread k1 tid;
            Some (0, k2) } } })"

section \<open>Futexes\<close>

text \<open>
  \<open>user32\<close> is the memory of the calling process as 32-bit words.  The futex
  functions read the clock once each.
\<close>

definition pause_thread_futex :: "kernel \<Rightarrow> nat \<Rightarrow> timeval \<Rightarrow> yield_env \<Rightarrow> (u64 \<Rightarrow> u32) \<Rightarrow> nat \<Rightarrow> u64 \<Rightarrow> u32 \<Rightarrow> timespec option
    \<Rightarrow> (u64 \<times> kernel) option" where
  "pause_thread_futex k c now e user32 tid futex_ptr expected_val timeout = do {
     thread \<leftarrow> deref (threads k) tid;
     b1 \<leftarrow> is_paged (kvm k) (t_pid thread) futex_ptr;
     b2 \<leftarrow> (if b1 then is_paged (kvm k) (t_pid thread) (futex_ptr + 4) else Some False);
     if \<not> b2 then Some (- EFAULT, k)
     else if user32 futex_ptr \<noteq> expected_val then Some (- EAGAIN, k)
     else do {
       k1 \<leftarrow> change_thread k tid (\<lambda>t. case timeout of
           None \<Rightarrow> t\<lparr>t_state := THREAD_BLOCKED_FUTEX, t_sleep_flag_addr := futex_ptr\<rparr>
         | Some ts \<Rightarrow> t\<lparr>t_state := THREAD_BLOCKED_FUTEX, t_wakeup_time := add_time now (timespec_to_timeval ts),
             t_lock_time := now, t_sleep_flag_addr := futex_ptr\<rparr>);
       k2 \<leftarrow> scheduler_yeild k1 c e;
       Some (0, k2) } }"

definition waits_on :: "u64 \<Rightarrow> u64 \<Rightarrow> thread_info \<Rightarrow> bool" where
  "waits_on pid futex_ptr t \<longleftrightarrow> t_pid t = pid \<and> t_state t = THREAD_BLOCKED_FUTEX \<and> t_sleep_flag_addr t = futex_ptr"

text \<open>
  The scan keeps whether a waiter was found, the earliest one so far, if any was
  earlier than now, and its time.
\<close>

fun futex_scan :: "nat \<Rightarrow> nat \<Rightarrow> u64 \<Rightarrow> u64 \<Rightarrow> thread_info table \<Rightarrow> bool \<Rightarrow> nat option \<Rightarrow> timeval
    \<Rightarrow> (bool \<times> nat option) option" where
  "futex_scan 0 i pid futex_ptr tb found resume_tid earliest = Some (found, resume_tid)"
| "futex_scan (Suc n) i pid futex_ptr tb found resume_tid earliest = do {
     p \<leftarrow> nth_opt (slots tb) i;
     if p = 0 then futex_scan n (Suc i) pid futex_ptr tb found resume_tid earliest
     else do {
       t \<leftarrow> heap tb p;
       if waits_on pid futex_ptr t then
         if earlier (t_lock_time t) earliest
         then futex_scan n (Suc i) pid futex_ptr tb True (Some i) (t_lock_time t)
         else futex_scan n (Suc i) pid futex_ptr tb True resume_tid earliest
       else futex_scan n (Suc i) pid futex_ptr tb found resume_tid earliest } }"

definition resume_thread_futex :: "kernel \<Rightarrow> nat \<Rightarrow> timeval \<Rightarrow> u64 \<Rightarrow> (u64 \<times> kernel) option" where
  "resume_thread_futex k c now futex_ptr = do {
     pid \<leftarrow> get_current_pid k c;
     (found_thread, resume_tid) \<leftarrow> futex_scan (length (slots (threads k))) 0 pid futex_ptr (threads k) False None now;
     if \<not> found_thread then Some (- EINVAL, k)
     else do {
       tid \<leftarrow> resume_tid;
       k1 \<leftarrow> change_thread k tid (\<lambda>t. t\<lparr>t_state := THREAD_READY, t_sleep_flag_addr := 0,
         t_wakeup_time := zero_time, t_lock_time := zero_time\<rparr>);
       Some (0, k1) } }"

fun move_waiters :: "nat \<Rightarrow> nat \<Rightarrow> u64 \<Rightarrow> u64 \<Rightarrow> u64 \<Rightarrow> thread_info table \<Rightarrow> u64 \<Rightarrow> (u64 \<times> thread_info table) option" where
  "move_waiters 0 i pid uaddr uaddr2 tb count = Some (count, tb)"
| "move_waiters (Suc n) i pid uaddr uaddr2 tb count = do {
     t \<leftarrow> deref tb i;
     if waits_on pid uaddr t then do {
       tb' \<leftarrow> store tb i (\<lambda>t. t\<lparr>t_sleep_flag_addr := uaddr2\<rparr>);
       move_waiters n (Suc i) pid uaddr uaddr2 tb' (count + 1) }
     else move_waiters n (Suc i) pid uaddr uaddr2 tb count }"

definition move_futex :: "kernel \<Rightarrow> nat \<Rightarrow> timeval \<Rightarrow> (u64 \<Rightarrow> u32) \<Rightarrow> u64 \<Rightarrow> u64 \<Rightarrow> u32 \<Rightarrow> (u64 \<times> kernel) option" where
  "move_futex k c now user32 uaddr uaddr2 val3 = do {
     pid \<leftarrow> get_current_pid k c;
     b1 \<leftarrow> is_paged (kvm k) pid uaddr;
     b2 \<leftarrow> (if b1 then is_paged (kvm k) pid (uaddr + 4) else Some False);
     if \<not> b2 then Some (- EFAULT, k)
     else do {
       (count, tb) \<leftarrow> move_waiters (length (slots (threads k))) 0 pid uaddr uaddr2 (threads k) 0;
       let k1 = k\<lparr>threads := tb\<rparr>;
       if user32 uaddr2 = val3 then do { (_, k2) \<leftarrow> resume_thread_futex k1 c now uaddr2; Some (count, k2) }
       else Some (count, k1) } }"

section \<open>Shared memory\<close>

record shared_mem =
  sm_id :: u64
  sm_virt_addr :: u64
  sm_size :: u64
  sm_ref_count :: u64
  sm_owner_pid :: u64
  sm_flags :: u64

fun map_region :: "nat \<Rightarrow> u64 \<Rightarrow> u64 \<Rightarrow> u64 \<Rightarrow> vm \<Rightarrow> vm option" where
  "map_region 0 i pid virt_addr s = Some s"
| "map_region (Suc n) i pid virt_addr s = do {
     (_, s') \<leftarrow> increase_paging_of_process_with_virt_addr s pid (virt_addr + i * 4096);
     map_region n (i + 1) pid virt_addr s' }"

definition create_sm :: "kernel \<Rightarrow> nat \<Rightarrow> shared_mem table \<Rightarrow> u64 \<Rightarrow> u64 \<Rightarrow> u64 \<Rightarrow> (u64 \<times> kernel \<times> shared_mem table) option" where
  "create_sm k c sm_global virt_addr sz flags = do {
     pid \<leftarrow> get_current_pid k c;
     b \<leftarrow> is_paged (kvm k) pid virt_addr;
     if b then Some (- EINVAL, k, sm_global)
     else do {
       blocks_count \<leftarrow> div_ceil sz 4096;
       smid \<leftarrow> get_a_free_slot (slots sm_global) 0 (of_nat (length (slots sm_global)));
       (newsm, fr) \<leftarrow> get_a_free_block_addr (vm_frames (kvm k));
       g \<leftarrow> install sm_global (unat smid) newsm \<lparr>sm_id = smid, sm_virt_addr = virt_addr, sm_size = sz, sm_ref_count = 1,
         sm_owner_pid = pid, sm_flags = flags\<rparr>;
       s \<leftarrow> map_region (unat blocks_count) 0 pid virt_addr ((kvm k)\<lparr>vm_frames := fr\<rparr>);
       proc \<leftarrow> deref (processes k) (unat pid);
       sm_slot_id \<leftarrow> get_a_free_slot (p_sm proc) 0 64;
       k1 \<leftarrow> change_process (k\<lparr>kvm := s\<rparr>) (unat pid) (\<lambda>p. p\<lparr>p_sm := (p_sm p)[unat sm_slot_id := newsm]\<rparr>);
       Some (smid, k1, g) } }"

definition fork_sm :: "kernel \<Rightarrow> nat \<Rightarrow> shared_mem table \<Rightarrow> u64 \<Rightarrow> (u64 \<times> shared_mem table) option" where
  "fork_sm k c sm_global smid = do {
     _ \<leftarrow> get_current_pid k c;
     g \<leftarrow> store sm_global (unat smid) (\<lambda>sm. sm\<lparr>sm_ref_count := sm_ref_count sm + 1\<rparr>);
     sm \<leftarrow> deref g (unat smid);
     Some (sm_ref_count sm, g) }"

fun unmap_region :: "nat \<Rightarrow> u64 \<Rightarrow> u64 \<Rightarrow> u64 \<Rightarrow> vm \<Rightarrow> vm option" where
  "unmap_region 0 i pid virt_addr s = Some s"
| "unmap_region (Suc n) i pid virt_addr s = do {
     s' \<leftarrow> decrease_paging_of_process_with_virt_addr s pid (virt_addr + i * 4096);
     unmap_region n (i + 1) pid virt_addr s' }"

text \<open>The address of the structure, not the number of its block, is passed to the block map.\<close>

definition remove_sm :: "kernel \<Rightarrow> nat \<Rightarrow> shared_mem table \<Rightarrow> u64 \<Rightarrow> (u64 \<times> kernel \<times> shared_mem table) option" where
  "remove_sm k c sm_global smid = do {
     pid \<leftarrow> get_current_pid k c;
     sm_addr \<leftarrow> nth_opt (slots sm_global) (unat smid);
     g \<leftarrow> store sm_global (unat smid) (\<lambda>sm. sm\<lparr>sm_ref_count := sm_ref_count sm - 1\<rparr>);
     sm \<leftarrow> deref g (unat smid);
     blocks_count \<leftarrow> div_ceil (sm_size sm) 4096;
     s \<leftarrow> unmap_region (unat blocks_count) 0 pid (sm_virt_addr sm) (kvm k);
     k1 \<leftarrow> change_process (k\<lparr>kvm := s\<rparr>) (unat pid)
       (\<lambda>p. p\<lparr>p_sm := map (\<lambda>a. if a = sm_addr then 0 else a) (p_sm p)\<rparr>);
     if sm_ref_count sm = 0 then do {
       fr \<leftarrow> set_memory_block_used_when_boot (vm_frames (kvm k1)) sm_addr False;
       g' \<leftarrow> clear_slot g (unat smid);
       Some (0, k1\<lparr>kvm := (kvm k1)\<lparr>vm_frames := fr\<rparr>\<rparr>, g') }
     else Some (0, k1, g) }"

section \<open>Placing a thread\<close>

text \<open>
  Every thread structure lies in a block that is marked used; the block map has
  room for the runs that are searched behind its last block.
\<close>

definition mem_ok :: "kernel \<Rightarrow> bool" where
  "mem_ok k \<longleftrightarrow> pool_ok (vm_frames (kvm k))
     \<and> unat (total_memory_blocks_count (vm_frames (kvm k))) + 20 \<le> length (memory_map (vm_frames (kvm k)))
     \<and> (\<forall>p\<in>set (slots (threads k)). p \<noteq> 0 \<longrightarrow>
         (\<exists>b<unat (total_memory_blocks_count (vm_frames (kvm k))). p = blk b \<and> used (vm_frames (kvm k)) b))"

lemma free_slot_from_empty:
  "free_slot_from n i t = Some j \<Longrightarrow> unat j < length t \<and> t ! unat j = 0"
  by (induction n i t rule: free_slot_from.induct) (auto simp: bind_eq_Some_conv nth_opt_eq_Some split: if_splits)

lemma blk_nonzero: "b < 2 ^ 35 \<Longrightarrow> blk b \<noteq> 0"
  using unat_blk_word [of b 0] by (auto simp: blk_def)

lemma set_update_subset: "p \<in> set (xs[i := x]) \<Longrightarrow> p = x \<or> p \<in> set xs"
  using set_update_subset_insert [of xs i x] by auto

lemma alloc_run_spec:
  assumes "mem_ok k" "alloc_run k n = Some (a, k1)" "unat n \<le> 20" "0 < unat n"
  obtains b fr where "a = blk b" "b < unat (total_memory_blocks_count (vm_frames (kvm k)))"
    "\<not> used (vm_frames (kvm k)) b" "k1 = k\<lparr>kvm := (kvm k)\<lparr>vm_frames := fr\<rparr>\<rparr>"
    "used fr b" "\<forall>j. used (vm_frames (kvm k)) j \<longrightarrow> used fr j" "pool_ok fr"
    "length (memory_map fr) = length (memory_map (vm_frames (kvm k)))"
    "total_memory_blocks_count fr = total_memory_blocks_count (vm_frames (kvm k))"
proof -
  let ?fr = "vm_frames (kvm k)"
  let ?k = "unat (total_memory_blocks_count ?fr) - unat (first_block ?fr)"
  from assms(2) obtain i fr where i: "get_continuous_free_blocks ?fr n = Some (i, fr)" "a = i * 4096 + HM"
    "k1 = k\<lparr>kvm := (kvm k)\<lparr>vm_frames := fr\<rparr>\<rparr>" by (auto simp: alloc_run_def bind_eq_Some_conv)
  have T: "unat (total_memory_blocks_count ?fr) \<le> 2 ^ 35" "unat (total_memory_blocks_count ?fr) + 20 \<le> length (memory_map ?fr)"
    using assms(1) by (auto simp: mem_ok_def pool_ok_def)
  have "?k \<noteq> 0" using i(1) by (cases ?k) (auto simp: get_continuous_free_blocks_def)
  then have f: "unat (first_block ?fr) + ?k = unat (total_memory_blocks_count ?fr)" by simp
  have C: "unat (first_block ?fr) \<le> unat i \<and> unat i < unat (first_block ?fr) + ?k \<and> (\<forall>j<unat n. \<not> used ?fr (unat i + j))
    \<and> (\<forall>j. used fr j = (unat i \<le> j \<and> j < unat i + unat n \<or> used ?fr j))
    \<and> length (memory_map fr) = length (memory_map ?fr)
    \<and> total_memory_blocks_count fr = total_memory_blocks_count ?fr \<and> end_kernel fr = end_kernel ?fr"
    using i(1) f T assms(3) by (intro continuous_from_Some) (auto simp: get_continuous_free_blocks_def)
  have "a = blk (unat i)" using i(2) by (simp add: blk_def)
  moreover have "\<not> used ?fr (unat i)" using C assms(4) by force
  ultimately show thesis using C f i T assms(4)
    by (intro that [of "unat i" fr]) (auto simp: pool_ok_def frames_ok_def)
qed

lemma place_thread_spec:
  assumes ok: "kernel_ok k" "mem_ok k" and p: "place_thread k start mk = Some (tid, k')"
    and mk: "\<And>a t. t_tid (mk a t) = t"
  shows "\<exists>a. view (threads k) tid = None \<and> tid < length (slots (threads k))
    \<and> view (threads k') = (view (threads k))(tid \<mapsto> mk a (of_nat tid))
    \<and> kernel_ok k' \<and> mem_ok k' \<and> cores k' = cores k"
proof -
  from p obtain a k1 i tb where 1: "alloc_run k 5 = Some (a, k1)"
    "get_a_free_slot (slots (threads k1)) start (of_nat (length (slots (threads k1)))) = Some i"
    "install (threads k1) (unat i) a (mk a i) = Some tb" "tid = unat i"
    "k' = k1\<lparr>kvm := (kvm k1)\<lparr>vm_mem := erase_blocks 5 a (vm_mem (kvm k1))\<rparr>, threads := tb\<rparr>"
    by (auto simp: place_thread_def bind_eq_Some_conv Let_def)
  have n5: "unat (5 :: u64) \<le> 20" "0 < unat (5 :: u64)" by simp_all
  obtain b fr where 2: "a = blk b" "b < unat (total_memory_blocks_count (vm_frames (kvm k)))"
    "\<not> used (vm_frames (kvm k)) b" "k1 = k\<lparr>kvm := (kvm k)\<lparr>vm_frames := fr\<rparr>\<rparr>"
    "used fr b" "\<forall>j. used (vm_frames (kvm k)) j \<longrightarrow> used fr j" "pool_ok fr"
    "length (memory_map fr) = length (memory_map (vm_frames (kvm k)))"
    "total_memory_blocks_count fr = total_memory_blocks_count (vm_frames (kvm k))"
    by (rule alloc_run_spec [OF ok(2) 1(1) n5])
  have b35: "b < 2 ^ 35" using 2(2) ok(2) by (auto simp: mem_ok_def pool_ok_def)
  have e: "unat i < length (slots (threads k))" "slots (threads k) ! unat i = 0"
    using free_slot_from_empty 1(2) 2(4) by (auto simp: get_a_free_slot_def)
  have "a \<notin> set (slots (threads k))"
  proof
    assume "a \<in> set (slots (threads k))"
    with ok(2) 2(1) blk_nonzero [OF b35] obtain b' where "b' < unat (total_memory_blocks_count (vm_frames (kvm k)))"
      "blk b = blk b'" "used (vm_frames (kvm k)) b'" by (auto simp: mem_ok_def)
    then show False using blk_inj [OF b35, of b'] 2(3) ok(2) by (auto simp: mem_ok_def pool_ok_def)
  qed
  from install_view [of "threads k" "unat i" a "mk a i", OF _ e(1) _ this] ok(1) 1(3) 2(1,4) blk_nonzero [OF b35]
  have 3: "view tb = (view (threads k))(unat i \<mapsto> mk a i)" "table_ok tb" "slots tb = (slots (threads k))[unat i := a]"
    by (auto simp: kernel_ok_def)
  have "kernel_ok k'" using ok(1) 1(5) 2(4) 3 mk by (auto simp: kernel_ok_def split: if_splits)
  moreover have "mem_ok k'" unfolding mem_ok_def
  proof (intro conjI ballI impI)
    fix q assume q: "q \<in> set (slots (threads k'))" "q \<noteq> 0"
    then have "q = a \<or> q \<in> set (slots (threads k))" using 1(5) 3(3) set_update_subset [of q "slots (threads k)" "unat i" a] by simp
    then show "\<exists>b<unat (total_memory_blocks_count (vm_frames (kvm k'))). q = blk b \<and> used (vm_frames (kvm k')) b"
      using q(2) ok(2) 1(5) 2 by (fastforce simp: mem_ok_def)
  qed (use ok(2) 1(5) 2 in \<open>auto simp: mem_ok_def\<close>)
  ultimately show ?thesis using 1(4,5) 2(4) 3(1) e by (intro exI [of _ a]) (auto simp: view_def)
qed

section \<open>Steps of the kernel\<close>

text \<open>
  The steps the cores take, each handler as a whole: timer interrupts, threads
  that put themselves to sleep, futexes, and the creation of kernel threads.
\<close>

inductive kstep :: "kernel \<Rightarrow> kernel \<Rightarrow> bool" where
  tick: "tick_interrupt_handler k c clock r sp xs la = Some (r', k') \<Longrightarrow> kstep k k'"
| sleep: "\<lbrakk>get_current_thread_id k c = Some tid; tid \<noteq> 0; kernel_thread_sleep k c now e us = Some k'\<rbrakk> \<Longrightarrow> kstep k k'"
| sleep_network: "\<lbrakk>get_current_thread_id k c = Some tid; tid \<noteq> 0;
    kernel_thread_sleep_on_network k c e addr = Some k'\<rbrakk> \<Longrightarrow> kstep k k'"
| sleep_user: "\<lbrakk>get_current_thread_id k c = Some tid; tid \<noteq> 0;
    user_thread_current_sleep k c now e req = Some k'\<rbrakk> \<Longrightarrow> kstep k k'"
| sleep_resource: "\<lbrakk>get_current_thread_id k c = Some tid; tid \<noteq> 0; s \<noteq> THREAD_RUNNING; s \<noteq> THREAD_ENDED_BUT_NOT_CLEANED;
    sleep_by_resource k c e addr s = Some k'\<rbrakk> \<Longrightarrow> kstep k k'"
| futex_wait: "\<lbrakk>get_current_thread_id k c = Some tid; tid \<noteq> 0;
    pause_thread_futex k c now e user32 tid addr v timeout = Some (res, k')\<rbrakk> \<Longrightarrow> kstep k k'"
| futex_wake: "resume_thread_futex k c now addr = Some (res, k') \<Longrightarrow> kstep k k'"
| spawn: "register_a_kernel_thread k entry_point = Some (tid, k') \<Longrightarrow> kstep k k'"

definition kernel_safe :: "kernel \<Rightarrow> bool" where
  "kernel_safe k \<longleftrightarrow> kernel_ok k \<and> mem_ok k \<and> sched_ok (sched_of k)"

lemma store_slots: "store tb i f = Some tb' \<Longrightarrow> slots tb' = slots tb"
  by (auto simp: store_def bind_eq_Some_conv)

lemma each_from_slots: "each_from n i f tb = Some tb' \<Longrightarrow> slots tb' = slots tb"
  by (induction n i f tb rule: each_from.induct)
    (auto simp: bind_eq_Some_conv dest: store_slots split: if_splits)

lemma run_thread_keeps: "run_thread k c y b = Some k' \<Longrightarrow> kvm k' = kvm k \<and> slots (threads k') = slots (threads k)"
  by (auto simp: run_thread_def set_core_def bind_eq_Some_conv dest: store_slots)

lemma yield_to_keeps: "yield_to k c x y = Some k' \<Longrightarrow> kvm k' = kvm k \<and> slots (threads k') = slots (threads k)"
  by (auto simp: yield_to_def bind_eq_Some_conv dest!: run_thread_keeps store_slots)

lemma go_idle_keeps: "go_idle k c = Some k' \<Longrightarrow> kvm k' = kvm k \<and> threads k' = threads k"
  by (auto simp: go_idle_def set_core_def bind_eq_Some_conv)

lemma tick_idle_keeps:
  "timer_tick_from_idle k c clock = Some (tid, k') \<Longrightarrow> kvm k' = kvm k \<and> slots (threads k') = slots (threads k)"
  by (auto simp: timer_tick_from_idle_def handle_slepping_thread_def set_core_def bind_eq_Some_conv Let_def
    dest!: run_thread_keeps each_from_slots split: if_splits)

lemma leave_thread_keeps:
  assumes "kernel_ok k" "c < length (cores k)" "unat (current_thread (cores k ! c)) = cur" "view (threads k) cur = Some t"
    "t_state t \<noteq> THREAD_ENDED_BUT_NOT_CLEANED" "leave_thread k c clock stack sp xs la = Some (x, y, k1)"
  shows "kvm k1 = kvm k \<and> slots (threads k1) = slots (threads k)"
proof -
  from assms(2,3,4,6) obtain t' where sv: "save_context stack sp (current_thread_user_rsp (cores k ! c)) xs t = Some t'"
    by (auto simp: leave_thread_def current_thread_read deref_view nth_opt_Some bind_eq_Some_conv)
  have "threads_info_lock k = 0"
    using assms(6) by (auto simp: leave_thread_def spin_lock_def split: if_splits)
  from leave_thread_spec [OF assms(1,2) this assms(3-5) sv, of clock la] assms(6) show ?thesis by auto
qed

lemma mem_ok_keeps: "\<lbrakk>mem_ok k; kvm k' = kvm k; slots (threads k') = slots (threads k)\<rbrakk> \<Longrightarrow> mem_ok k'"
  by (simp add: mem_ok_def)

lemma sched_current:
  assumes "sched_ok (sched_of k)" "c < length (cores k)" "unat (current_thread (cores k ! c)) = cur" "cur \<noteq> 0"
  shows "\<exists>t. view (threads k) cur = Some t \<and> t_state t = THREAD_RUNNING"
  using assms by (auto simp: sched_ok_def sched_of_def)

lemma kernel_safe_unlock:
  "kernel_safe (k\<lparr>threads_info_lock := x\<rparr>) \<longleftrightarrow> kernel_safe k"
  by (simp add: kernel_safe_def kernel_ok_def mem_ok_def sched_of_def)

lemma tick_safe:
  assumes safe: "kernel_safe k" and tick: "tick_interrupt_handler k c clock r sp xs la = Some (r', k')"
  shows "kernel_safe k'"
proof -
  have S: "kernel_ok k" "mem_ok k" "sched_ok (sched_of k)" using safe by (auto simp: kernel_safe_def)
  have c: "c < length (cores k)"
    using tick by (auto simp: tick_interrupt_handler_def get_current_thread_id_def bind_eq_Some_conv nth_opt_eq_Some)
  define cur where "cur = unat (current_thread (cores k ! c))"
  obtain tid k1 where k1: "(if cur = 0 then timer_tick_from_idle k c clock
      else timer_tick_from_non_idle k c clock (pushed_frame r) sp xs la) = Some (tid, k1)"
    "k' = k1\<lparr>threads_info_lock := 0\<rparr>"
    using tick c by (auto simp: tick_interrupt_handler_def current_thread_read cur_def bind_eq_Some_conv)
  have "kernel_safe k1"
  proof (cases "cur = 0")
    case True
    with k1 have t: "timer_tick_from_idle k c clock = Some (tid, k1)" by simp
    have "current_thread (cores k ! c) = 0" using True by (simp add: cur_def unat_eq_0)
    from sched_tick_idle [OF S(1) c this t] tick_idle_keeps [OF t] S show ?thesis
      by (auto simp: kernel_safe_def intro: sched_ok_steps mem_ok_keeps)
  next
    case False
    with k1 have t: "timer_tick_from_non_idle k c clock (pushed_frame r) sp xs la = Some (tid, k1)" by simp
    obtain u where u: "view (threads k) cur = Some u" "t_state u = THREAD_RUNNING"
      using sched_current [OF S(3) c _ False] by (auto simp: cur_def)
    from t obtain x y k2 where l: "leave_thread k c clock (pushed_frame r) sp xs la = Some (x, y, k2)"
      "kvm k1 = kvm k2 \<and> slots (threads k1) = slots (threads k2)"
      by (auto simp: timer_tick_from_non_idle_def bind_eq_Some_conv dest!: yield_to_keeps go_idle_keeps split: if_splits)
    have "kvm k1 = kvm k \<and> slots (threads k1) = slots (threads k)"
      using leave_thread_keeps [OF S(1) c _ u(1) _ l(1)] l(2) u(2) by (simp add: cur_def)
    with sched_tick_non_idle [OF S(1) c _ False u pushed_frame_len t] S show ?thesis
      by (auto simp: kernel_safe_def cur_def intro: sched_ok_steps mem_ok_keeps)
  qed
  then show ?thesis using k1(2) kernel_safe_unlock by simp
qed

text \<open>A thread that suspends itself and gives up the core.\<close>

lemma suspend_safe:
  assumes safe: "kernel_safe k" and cur: "get_current_thread_id k c = Some cur" "cur \<noteq> 0"
    and ch: "change_thread k cur f = Some k1" and f: "\<And>t. t_state (f t) = s \<and> t_tid (f t) = t_tid t"
    and s: "s \<noteq> THREAD_RUNNING" "s \<noteq> THREAD_ENDED_BUT_NOT_CLEANED" and y: "scheduler_yeild k1 c e = Some k'"
  shows "kernel_safe k'"
proof -
  have S: "kernel_ok k" "mem_ok k" "sched_ok (sched_of k)" using safe by (auto simp: kernel_safe_def)
  have c: "c < length (cores k)" "unat (current_thread (cores k ! c)) = cur"
    using cur(1) by (auto simp: get_current_thread_id_def bind_eq_Some_conv nth_opt_eq_Some)
  obtain u where u: "view (threads k) cur = Some u" "t_state u = THREAD_RUNNING" using sched_current [OF S(3) c cur(2)] by blast
  from ch obtain tb where tb: "store (threads k) cur f = Some tb" "k1 = k\<lparr>threads := tb\<rparr>"
    by (auto simp: change_thread_def bind_eq_Some_conv)
  from store_ok [OF _ u(1), of f] S(1) tb have V: "view tb = (view (threads k))(cur \<mapsto> f u)" "table_ok tb" "slots tb = slots (threads k)"
    by (auto simp: kernel_ok_def)
  have ok1: "kernel_ok k1" using S(1) V tb(2) f u(1) by (auto simp: kernel_ok_def split: if_splits)
  from y obtain tid k2 where t: "timer_tick1 k1 c (y_clock e) (pushed_frame (y_regs e)) (y_sp e) (y_xsave e) (y_local e) = Some (tid, k2)"
    "k' = k2\<lparr>threads_info_lock := 0\<rparr>"
    by (auto simp: scheduler_yeild_def tick_interrupt_handler1_def bind_eq_Some_conv)
  have c1: "c < length (cores k1)" "unat (current_thread (cores k1 ! c)) = cur" "view (threads k1) cur = Some (f u)"
    "t_state (f u) \<noteq> THREAD_RUNNING" "t_state (f u) \<noteq> THREAD_ENDED_BUT_NOT_CLEANED"
    using c tb(2) V(1) f s by auto
  from t(1) obtain x z k3 where l: "leave_thread k1 c (y_clock e) (pushed_frame (y_regs e)) (y_sp e) (y_xsave e) (y_local e) = Some (x, z, k3)"
    "kvm k2 = kvm k3 \<and> slots (threads k2) = slots (threads k3)"
    by (auto simp: timer_tick1_def bind_eq_Some_conv dest!: yield_to_keeps go_idle_keeps split: if_splits)
  have K: "kvm k2 = kvm k" "slots (threads k2) = slots (threads k)"
    using leave_thread_keeps [OF ok1 c1(1,2,3,5) l(1)] l(2) tb(2) V(3) by auto
  have "sched_step (sched_of k) (fst (sched_of k1), (snd (sched_of k1))[c := 0])"
  proof -
    let ?cs = "map (\<lambda>ci. unat (current_thread ci)) (cores k)"
    have "sched_step (\<lambda>i. map_option t_state (view (threads k) i), ?cs)
        ((\<lambda>i. map_option t_state (view (threads k) i))(?cs ! c \<mapsto> s), ?cs[c := 0])"
      using c cur(2) s(1) by (intro sched_step.suspend) auto
    moreover have "(\<lambda>i. map_option t_state (view (threads k) i))(?cs ! c \<mapsto> s) = (\<lambda>i. map_option t_state (view tb i))"
      using c V(1) f by (auto simp: fun_eq_iff)
    ultimately show ?thesis using tb(2) by (simp add: sched_of_def)
  qed
  with sched_tick1 [OF ok1 c1 pushed_frame_len t(1)] have "kernel_ok k2" "sched_step\<^sup>*\<^sup>* (sched_of k) (sched_of k2)"
    by auto
  then have "kernel_safe k2" using S K by (auto simp: kernel_safe_def intro: sched_ok_steps mem_ok_keeps)
  then show ?thesis using t(2) kernel_safe_unlock by simp
qed

section \<open>Futex lemmas\<close>

lemma earlier_order:
  "\<not> earlier a a" "earlier a b \<Longrightarrow> earlier b d \<Longrightarrow> earlier a d" "earlier a b \<Longrightarrow> earlier a d \<or> earlier d b"
  by (auto simp: earlier_def split: if_splits)

definition waiter :: "thread_info table \<Rightarrow> u64 \<Rightarrow> u64 \<Rightarrow> nat \<Rightarrow> thread_info \<Rightarrow> bool" where
  "waiter tb pid a i t \<longleftrightarrow> view tb i = Some t \<and> waits_on pid a t"

text \<open>Among the waiters of the range, the first one that no other precedes.\<close>

definition earliest_in :: "thread_info table \<Rightarrow> u64 \<Rightarrow> u64 \<Rightarrow> nat \<Rightarrow> nat \<Rightarrow> timeval \<Rightarrow> nat \<Rightarrow> bool" where
  "earliest_in tb pid a i n now j \<longleftrightarrow> i \<le> j \<and> j < i + n
     \<and> (\<exists>t. waiter tb pid a j t \<and> earlier (t_lock_time t) now
       \<and> (\<forall>m u. i \<le> m \<and> m < i + n \<and> waiter tb pid a m u \<longrightarrow> \<not> earlier (t_lock_time u) (t_lock_time t)))"

lemma earliest_in_tail:
  assumes "earliest_in tb pid a (Suc i) n d j" "earlier d now \<or> d = now"
    "\<And>t. waiter tb pid a i t \<Longrightarrow> \<not> earlier (t_lock_time t) d"
  shows "earliest_in tb pid a i (Suc n) now j"
proof -
  from assms(1) obtain t where t: "Suc i \<le> j" "j < Suc i + n" "waiter tb pid a j t" "earlier (t_lock_time t) d"
    "\<And>m u. Suc i \<le> m \<Longrightarrow> m < Suc i + n \<Longrightarrow> waiter tb pid a m u \<Longrightarrow> \<not> earlier (t_lock_time u) (t_lock_time t)"
    by (auto simp: earliest_in_def)
  have "\<not> earlier (t_lock_time u) (t_lock_time t)" if "i \<le> m" "m < i + Suc n" "waiter tb pid a m u" for m u
  proof (cases "m = i")
    case True
    then show ?thesis using assms(3) that(3) earlier_order(2) [OF _ t(4)] by blast
  next
    case False
    then show ?thesis using t(5) [of m u] that by simp
  qed
  moreover have "earlier (t_lock_time t) now" using assms(2) t(4) earlier_order(2) by blast
  ultimately show ?thesis using t(1-3) unfolding earliest_in_def by (intro conjI exI [of _ t]) auto
qed

lemma earliest_in_here:
  assumes "waiter tb pid a i t" "earlier (t_lock_time t) now"
    "\<And>m u. Suc i \<le> m \<Longrightarrow> m < Suc i + n \<Longrightarrow> waiter tb pid a m u \<Longrightarrow> \<not> earlier (t_lock_time u) (t_lock_time t)"
  shows "earliest_in tb pid a i (Suc n) now i"
proof -
  have "\<not> earlier (t_lock_time u) (t_lock_time t)" if "i \<le> m" "m < i + Suc n" "waiter tb pid a m u" for m u
  proof (cases "m = i")
    case True
    then show ?thesis using that(3) assms(1) earlier_order(1) by (simp add: waiter_def)
  next
    case False
    then show ?thesis using assms(3) [of m u] that by simp
  qed
  then show ?thesis using assms(1,2) by (auto simp: earliest_in_def)
qed

lemma futex_scan_spec:
  assumes "table_ok tb" "i + n \<le> length (slots tb)"
  shows "\<exists>r'. futex_scan n i pid a tb found r now = Some (found \<or> (\<exists>j t. i \<le> j \<and> j < i + n \<and> waiter tb pid a j t), r')
    \<and> (r' = r \<and> (\<forall>j t. i \<le> j \<and> j < i + n \<and> waiter tb pid a j t \<longrightarrow> \<not> earlier (t_lock_time t) now)
       \<or> (\<exists>j. r' = Some j \<and> earliest_in tb pid a i n now j))"
  using assms(2)
proof (induction n arbitrary: i found r now)
  case (Suc n)
  have n: "nth_opt (slots tb) i = Some (slots tb ! i)" using Suc.prems by (simp add: nth_opt_Some)
  have range: "(i \<le> j \<and> j < i + Suc n \<and> Q) \<longleftrightarrow> (j = i \<and> Q \<or> Suc i \<le> j \<and> j < Suc i + n \<and> Q)" for j Q by auto
  have split: "(\<exists>j t. i \<le> j \<and> j < i + Suc n \<and> waiter tb pid a j t)
      \<longleftrightarrow> (\<exists>t. waiter tb pid a i t) \<or> (\<exists>j t. Suc i \<le> j \<and> j < Suc i + n \<and> waiter tb pid a j t)"
    unfolding range by blast
  have all: "(\<forall>j t. i \<le> j \<and> j < i + Suc n \<and> waiter tb pid a j t \<longrightarrow> P t)
      \<longleftrightarrow> (\<forall>t. waiter tb pid a i t \<longrightarrow> P t) \<and> (\<forall>j t. Suc i \<le> j \<and> j < Suc i + n \<and> waiter tb pid a j t \<longrightarrow> P t)" for P
    unfolding range by blast
  show ?case
  proof (cases "\<exists>t. waiter tb pid a i t")
    case False
    have "futex_scan (Suc n) i pid a tb found r now = futex_scan n (Suc i) pid a tb found r now"
    proof (cases "slots tb ! i = 0")
      case nz: False
      moreover have "i < length (slots tb)" using Suc.prems by simp
      ultimately obtain t where "view tb i = Some t" "heap tb (slots tb ! i) = Some t"
        using view_None_iff [OF assms(1), of i] by (fastforce simp: view_def)
      then show ?thesis using n nz False by (auto simp: waiter_def)
    qed (use n in simp)
    then show ?thesis using Suc.IH [of "Suc i" found r now] Suc.prems False earliest_in_tail [of tb pid a i n now _ now]
      unfolding split all by auto
  next
    case True
    then obtain t where t: "waiter tb pid a i t" by blast
    then have h: "slots tb ! i \<noteq> 0" "heap tb (slots tb ! i) = Some t" "waits_on pid a t"
      by (auto simp: waiter_def view_def split: if_splits)
    have u: "waiter tb pid a i u \<Longrightarrow> u = t" for u using t by (simp add: waiter_def)
    show ?thesis
    proof (cases "earlier (t_lock_time t) now")
      case e: True
      then have "futex_scan (Suc n) i pid a tb found r now = futex_scan n (Suc i) pid a tb True (Some i) (t_lock_time t)"
        using n h by simp
      moreover have "earliest_in tb pid a i (Suc n) now j" if "earliest_in tb pid a (Suc i) n (t_lock_time t) j" for j
        using that e u earlier_order(1) by (intro earliest_in_tail) auto
      moreover note earliest_in_here [OF t e, of n]
      ultimately show ?thesis using Suc.IH [of "Suc i" True "Some i" "t_lock_time t"] Suc.prems t unfolding split by auto
    next
      case e: False
      then have "futex_scan (Suc n) i pid a tb found r now = futex_scan n (Suc i) pid a tb True r now"
        using n h by simp
      moreover have "earliest_in tb pid a i (Suc n) now j" if "earliest_in tb pid a (Suc i) n now j" for j
        using that e u by (intro earliest_in_tail) blast+
      moreover have "\<forall>t'. waiter tb pid a i t' \<longrightarrow> \<not> earlier (t_lock_time t') now" using u e by blast
      ultimately show ?thesis using Suc.IH [of "Suc i" True r now] Suc.prems t unfolding split all by auto
    qed
  qed
qed auto

lemma resume_spec:
  assumes "kernel_ok k" "get_current_pid k c = Some pid"
  shows "if \<exists>j t. waiter (threads k) pid a j t then
      resume_thread_futex k c now a = None \<and> (\<forall>j t. waiter (threads k) pid a j t \<longrightarrow> \<not> earlier (t_lock_time t) now) \<or>
      (\<exists>j t k'. earliest_in (threads k) pid a 0 (length (slots (threads k))) now j \<and> waiter (threads k) pid a j t
        \<and> resume_thread_futex k c now a = Some (0, k') \<and> (\<exists>tb. k' = k\<lparr>threads := tb\<rparr>)
        \<and> table_ok (threads k') \<and> slots (threads k') = slots (threads k)
        \<and> view (threads k') = (view (threads k))(j \<mapsto> t\<lparr>t_state := THREAD_READY, t_sleep_flag_addr := 0,
            t_wakeup_time := zero_time, t_lock_time := zero_time\<rparr>))
    else resume_thread_futex k c now a = Some (- EINVAL, k)"
proof -
  have tok: "table_ok (threads k)" using assms(1) by (simp add: kernel_ok_def)
  have b: "j < length (slots (threads k))" if "waiter (threads k) pid a j t" for j t
    using that by (auto simp: waiter_def view_def split: if_splits)
  have rng: "(\<exists>j t. 0 \<le> j \<and> j < 0 + length (slots (threads k)) \<and> waiter (threads k) pid a j t) \<longleftrightarrow> (\<exists>j t. waiter (threads k) pid a j t)"
    by (auto simp: waiter_def view_def)
  have rng': "(\<forall>j t. 0 \<le> j \<and> j < 0 + length (slots (threads k)) \<and> waiter (threads k) pid a j t \<longrightarrow> P t)
      \<longleftrightarrow> (\<forall>j t. waiter (threads k) pid a j t \<longrightarrow> P t)" for P using b by auto
  obtain r where r: "futex_scan (length (slots (threads k))) 0 pid a (threads k) False None now = Some (\<exists>j t. waiter (threads k) pid a j t, r)"
    "r = None \<and> (\<forall>j t. waiter (threads k) pid a j t \<longrightarrow> \<not> earlier (t_lock_time t) now) \<or> (\<exists>j. r = Some j \<and> earliest_in (threads k) pid a 0 (length (slots (threads k))) now j)"
    using futex_scan_spec [OF tok, of 0 "length (slots (threads k))" pid a False None now] unfolding rng rng' by auto
  show ?thesis
  proof (cases "\<exists>j t. waiter (threads k) pid a j t")
    case False
    then show ?thesis using r assms(2) by (auto simp: resume_thread_futex_def)
  next
    case True
    show ?thesis
    proof (cases r)
      case None
      then show ?thesis using True r assms(2) by (auto simp: resume_thread_futex_def)
    next
      case (Some j)
      then have e: "earliest_in (threads k) pid a 0 (length (slots (threads k))) now j" using r(2) by auto
      then obtain t where t: "waiter (threads k) pid a j t" by (auto simp: earliest_in_def)
      let ?f = "\<lambda>t. t\<lparr>t_state := THREAD_READY, t_sleep_flag_addr := 0, t_wakeup_time := zero_time, t_lock_time := zero_time\<rparr>"
      from store_ok [OF tok, of j t ?f] t obtain tb where "store (threads k) j ?f = Some tb"
        "view tb = (view (threads k))(j \<mapsto> ?f t)" "table_ok tb" "slots tb = slots (threads k)" by (auto simp: waiter_def)
      then show ?thesis using True r(1) Some assms(2) e t
        by (auto simp: resume_thread_futex_def change_thread_def intro!: exI [of _ j] exI [of _ t])
    qed
  qed
qed

lemma resume_safe:
  assumes safe: "kernel_safe k" and res: "resume_thread_futex k c now a = Some (v, k')"
  shows "kernel_safe k'"
proof -
  have S: "kernel_ok k" "mem_ok k" "sched_ok (sched_of k)" using safe by (auto simp: kernel_safe_def)
  obtain pid where pid: "get_current_pid k c = Some pid" using res by (auto simp: resume_thread_futex_def bind_eq_Some_conv)
  show ?thesis
  proof (cases "\<exists>j t. waiter (threads k) pid a j t")
    case False
    then show ?thesis using resume_spec [OF S(1) pid, of a now] res safe by simp
  next
    case True
    with resume_spec [OF S(1) pid, of a now] res obtain j t where R: "waiter (threads k) pid a j t"
      "kvm k' = kvm k" "cores k' = cores k" "table_ok (threads k')" "slots (threads k') = slots (threads k)"
      "view (threads k') = (view (threads k))(j \<mapsto> t\<lparr>t_state := THREAD_READY, t_sleep_flag_addr := 0,
            t_wakeup_time := zero_time, t_lock_time := zero_time\<rparr>)" by auto
    have "kernel_ok k'" using S(1) R by (intro kernel_ok_upd [OF S(1)]) (auto simp: kernel_ok_def waiter_def split: if_splits)
    moreover have "sched_step (sched_of k) (sched_of k')"
    proof -
      have "sched_step (fst (sched_of k), snd (sched_of k)) ((fst (sched_of k))(j \<mapsto> THREAD_READY), snd (sched_of k))"
        using R(1) by (intro sched_step.restate [of _ _ THREAD_BLOCKED_FUTEX]) (auto simp: sched_of_def waiter_def waits_on_def)
      moreover have "sched_of k' = ((fst (sched_of k))(j \<mapsto> THREAD_READY), snd (sched_of k))"
        using R by (auto simp: sched_of_def fun_eq_iff)
      ultimately show ?thesis by simp
    qed
    ultimately show ?thesis using S R sched_ok_step mem_ok_keeps by (auto simp: kernel_safe_def)
  qed
qed

lemma spawn_safe:
  assumes safe: "kernel_safe k" and sp: "register_a_kernel_thread k entry_point = Some (tid, k')"
  shows "kernel_safe k'"
proof -
  have S: "kernel_ok k" "mem_ok k" "sched_ok (sched_of k)" using safe by (auto simp: kernel_safe_def)
  from place_thread_spec [OF S(1,2) sp [unfolded register_a_kernel_thread_def]] obtain t where P:
    "view (threads k) tid = None" "view (threads k') = (view (threads k))(tid \<mapsto> t)" "t_state t = THREAD_READY"
    "kernel_ok k'" "mem_ok k'" "cores k' = cores k" by auto
  have "sched_step (fst (sched_of k), snd (sched_of k)) ((fst (sched_of k))(tid \<mapsto> THREAD_READY), snd (sched_of k))"
    using P(1) by (intro sched_step.create) (auto simp: sched_of_def)
  moreover have "sched_of k' = ((fst (sched_of k))(tid \<mapsto> THREAD_READY), snd (sched_of k))"
    using P by (auto simp: sched_of_def fun_eq_iff)
  ultimately show ?thesis using S P sched_ok_step by (auto simp: kernel_safe_def)
qed

lemma futex_wait_safe:
  assumes safe: "kernel_safe k" and cur: "get_current_thread_id k c = Some cur" "cur \<noteq> 0"
    and w: "pause_thread_futex k c now e user32 cur a v timeout = Some (res, k')"
  shows "kernel_safe k'"
proof (cases "k' = k")
  case False
  define f where "f = (\<lambda>t :: thread_info. case timeout of
           None \<Rightarrow> t\<lparr>t_state := THREAD_BLOCKED_FUTEX, t_sleep_flag_addr := a\<rparr>
         | Some ts \<Rightarrow> t\<lparr>t_state := THREAD_BLOCKED_FUTEX, t_wakeup_time := add_time now (timespec_to_timeval ts),
             t_lock_time := now, t_sleep_flag_addr := a\<rparr>)"
  obtain k1 where "change_thread k cur f = Some k1" "scheduler_yeild k1 c e = Some k'"
    using w False by (auto simp: pause_thread_futex_def bind_eq_Some_conv f_def split: if_splits)
  moreover have "t_state (f t) = THREAD_BLOCKED_FUTEX \<and> t_tid (f t) = t_tid t" for t
    by (auto simp: f_def split: option.splits)
  ultimately show ?thesis using suspend_safe [OF safe cur, of f k1 THREAD_BLOCKED_FUTEX] by simp
qed (use safe in simp)

lemma kstep_safe: "\<lbrakk>kstep k k'; kernel_safe k\<rbrakk> \<Longrightarrow> kernel_safe k'"
proof (induction rule: kstep.induct)
  case (sleep k c tid now e us k')
  then obtain k1 where "change_thread k tid (\<lambda>t. t\<lparr>t_wakeup_time := add_time_us now (ucast us), t_state := THREAD_BLOCKED_OTHER\<rparr>) = Some k1"
    "scheduler_yeild k1 c e = Some k'" by (auto simp: kernel_thread_sleep_def bind_eq_Some_conv)
  then show ?case using suspend_safe [OF sleep.prems sleep.hyps(1,2)] by fastforce
next
  case (sleep_network k c tid e addr k')
  then obtain k1 where "change_thread k tid (\<lambda>t. t\<lparr>t_state := THREAD_BLOCKED_NETWORK, t_sleep_flag_addr := addr\<rparr>) = Some k1"
    "scheduler_yeild k1 c e = Some k'" by (auto simp: kernel_thread_sleep_on_network_def bind_eq_Some_conv)
  then show ?case using suspend_safe [OF sleep_network.prems sleep_network.hyps(1,2)] by fastforce
next
  case (sleep_user k c tid now e req k')
  then obtain wt k1 where "change_thread k tid (\<lambda>t. t\<lparr>t_state := THREAD_BLOCKED_OTHER, t_wakeup_time := wt\<rparr>) = Some k1"
    "scheduler_yeild k1 c e = Some k'" by (auto simp: user_thread_current_sleep_def bind_eq_Some_conv Let_def)
  then show ?case using suspend_safe [OF sleep_user.prems sleep_user.hyps(1,2)] by fastforce
next
  case (sleep_resource k c tid s e addr k')
  let ?s = "if s = THREAD_NOT_EXIST then THREAD_BLOCKED_OTHER else s"
  from sleep_resource obtain k1 where "change_thread k tid (\<lambda>t. t\<lparr>t_sleep_flag_addr := addr, t_state := ?s\<rparr>) = Some k1"
    "scheduler_yeild k1 c e = Some k'" by (auto simp: sleep_by_resource_def bind_eq_Some_conv Let_def)
  then show ?case using suspend_safe [OF sleep_resource.prems sleep_resource.hyps(1,2), of _ k1 ?s e] sleep_resource.hyps(3,4) by auto
qed (auto intro: tick_safe futex_wait_safe resume_safe spawn_safe)

lemma ksteps_safe: "\<lbrakk>kstep\<^sup>*\<^sup>* k k'; kernel_safe k\<rbrakk> \<Longrightarrow> kernel_safe k'"
  by (induction rule: rtranclp_induct) (auto intro: kstep_safe)

section \<open>Properties\<close>

text \<open>
  C1.  No thread runs on two cores: whatever sequence of timer interrupts, sleeps,
  futex calls and thread creations the cores go through, each core's thread is
  marked running, two cores never have the same thread, every thread knows its
  entry of the table, no two entries share a structure, and every structure lies
  in a block marked used.
\<close>
theorem one_core_per_thread:
  assumes "kernel_safe k" "kstep\<^sup>*\<^sup>* k k'"
  shows "(\<forall>c d. c < length (cores k') \<and> d < length (cores k')
      \<and> current_thread (cores k' ! c) = current_thread (cores k' ! d) \<and> current_thread (cores k' ! c) \<noteq> 0 \<longrightarrow> c = d)
    \<and> (\<forall>c. c < length (cores k') \<and> current_thread (cores k' ! c) \<noteq> 0 \<longrightarrow>
      (\<exists>t. view (threads k') (unat (current_thread (cores k' ! c))) = Some t \<and> t_state t = THREAD_RUNNING))
    \<and> kernel_ok k' \<and> mem_ok k'"
proof -
  have S: "kernel_ok k'" "mem_ok k'" "sched_ok (sched_of k')"
    using ksteps_safe [OF assms(2,1)] by (auto simp: kernel_safe_def)
  have "c = d" if "c < length (cores k')" "d < length (cores k')" "current_thread (cores k' ! c) = current_thread (cores k' ! d)"
    "current_thread (cores k' ! c) \<noteq> 0" for c d
    using S(3) that by (auto simp: sched_ok_def sched_of_def unat_eq_0)
  moreover have "\<exists>t. view (threads k') (unat (current_thread (cores k' ! c))) = Some t \<and> t_state t = THREAD_RUNNING"
    if "c < length (cores k')" "current_thread (cores k' ! c) \<noteq> 0" for c
    using sched_current [OF S(3) that(1) refl] that(2) by (simp add: unat_eq_0)
  ultimately show ?thesis using S by blast
qed

lemma example_kernel_safe: "kernel_safe (example_kernel THREAD_RUNNING THREAD_READY 1)"
proof -
  have "used (vm_frames (kvm (example_kernel THREAD_RUNNING THREAD_READY 1))) b" if "b < 4" for b
    using that by (auto simp: example_kernel_def used_def less_Suc_eq numeral_eq_Suc)
  then have "\<exists>b'<10. blk b = blk b' \<and> used (vm_frames (kvm (example_kernel THREAD_RUNNING THREAD_READY 1))) b'" if "b < 4" for b
    using that by (intro exI [of _ b]) simp
  from this [of 1] this [of 2] this [of 3]
  have "\<forall>p\<in>{blk 1, blk 2, blk 3}. \<exists>b'<10. p = blk b' \<and> used (vm_frames (kvm (example_kernel THREAD_RUNNING THREAD_READY 1))) b'" by simp
  moreover have "HM + 0x1000 = blk 1" "HM + 0x2000 = blk 2" "HM + 0x3000 = blk 3" by (simp_all add: blk_def)
  ultimately have "mem_ok (example_kernel THREAD_RUNNING THREAD_READY 1)"
    by (simp add: mem_ok_def pool_ok_def frames_ok_def example_kernel_def)
  moreover have "sched_ok (sched_of (example_kernel THREAD_RUNNING THREAD_READY 1))"
    by (auto simp: sched_ok_def sched_of_def view_example)
  ultimately show ?thesis by (simp add: kernel_safe_def example_kernel_ok)
qed

theorem one_core_per_thread_witness:
  "\<exists>k'. kstep (example_kernel THREAD_RUNNING THREAD_READY 1) k' \<and> current_thread (cores k' ! 0) = 2
    \<and> kernel_ok k' \<and> mem_ok k'"
proof -
  obtain r' k' where T: "tick_interrupt_handler (example_kernel THREAD_RUNNING THREAD_READY 1) 0
      (\<lambda>_. zero_time) (restore_regs example_context) 0 [] 0 = Some (r', k')" "2 = unat (current_thread (cores k' ! 0))"
    using example_tick [of THREAD_RUNNING THREAD_READY 1 2 "\<lambda>_. zero_time" "restore_regs example_context"] by auto
  then have s: "kstep (example_kernel THREAD_RUNNING THREAD_READY 1) k'" by (blast intro: kstep.tick)
  have "current_thread (cores k' ! 0) = 2" using T(2) by (simp add: word_unat_eq_iff)
  then show ?thesis using one_core_per_thread [OF example_kernel_safe r_into_rtranclp [of kstep, OF s]] s by blast
qed



text \<open>
  Signal masks are sets of signal numbers: after masking or unmasking a
  number, exactly that number's membership is as asked for; numbers above 63 are
  ignored.
\<close>
theorem signal_mask_set:
  assumes "s \<le> 63"
  shows "is_signal_masked s (do_mask_a_signal m x action) =
    (if x \<le> 63 \<and> s = x then action else is_signal_masked s m)"
proof -
  have lt: "unat y < 64" if "y \<le> 63" for y :: u8 using that by (simp add: word_le_nat_alt)
  have B: "is_signal_masked s w \<longleftrightarrow> bit w (unat s)" for w :: u64
    using lt [OF assms] by (auto simp: is_signal_masked_def bit_iff_and_push_bit_not_eq_0)
  show ?thesis
  proof (cases "x \<le> 63")
    case True
    have "s = x \<longleftrightarrow> unat s = unat x" by (simp add: word_unat_eq_iff)
    then show ?thesis using True lt [OF assms] lt [OF True] unfolding B
      by (auto simp: do_mask_a_signal_def mask_a_signal_def unmask_a_signal_def not_less bit_simps)
  next
    case False
    then show ?thesis by (auto simp: do_mask_a_signal_def mask_a_signal_def unmask_a_signal_def not_le)
  qed
qed

theorem signal_mask_set_witness:
  "is_signal_masked 9 (do_mask_a_signal 0 9 True) \<and> \<not> is_signal_masked 10 (do_mask_a_signal 0 9 True)"
  using signal_mask_set [of 9 0 9 True] signal_mask_set [of 10 0 9 True] by (simp add: is_signal_masked_def)

text \<open>
  C26.  The inter-process calls that report an error change nothing: waiting on a
  futex, waking one, and signalling a thread.
\<close>
theorem ipc_errors_change_nothing:
  "(pause_thread_futex k c now e user32 tid a v timeout = Some (r, k') \<longrightarrow> r \<noteq> 0 \<longrightarrow> k' = k)
   \<and> (resume_thread_futex k c now a = Some (r, k') \<longrightarrow> r \<noteq> 0 \<longrightarrow> k' = k)
   \<and> (send_signal_to_thread k pid tid sig = Some (r, k') \<longrightarrow> r \<noteq> 0 \<longrightarrow> k' = k)"
  by (auto simp: pause_thread_futex_def resume_thread_futex_def send_signal_to_thread_def bind_eq_Some_conv split: if_splits)

theorem ipc_errors_change_nothing_witness:
  "send_signal_to_thread (example_kernel THREAD_RUNNING THREAD_READY 1) 7 1 9 = Some (- ESRCH, example_kernel THREAD_RUNNING THREAD_READY 1)"
proof -
  let ?k = "example_kernel THREAD_RUNNING THREAD_READY 1"
  obtain k' where "send_signal_to_thread ?k 7 1 9 = Some (- ESRCH, k')"
    by (simp add: send_signal_to_thread_def nth_opt_def example_kernel_def HM_def example_thread_def)
  then show ?thesis using ipc_errors_change_nothing [where k = ?k and pid = 7 and tid = 1 and sig = 9 and r = "- ESRCH" and k' = k'] by simp
qed

lemma count_children_none:
  assumes "table_ok tb" "i + n \<le> length (slots tb)" "\<And>j p. view tb j = Some p \<Longrightarrow> \<not> running_child pid p"
  shows "count_children_from n i pid tb = Some 0"
  using assms(2)
proof (induction n arbitrary: i)
  case (Suc n)
  have n: "nth_opt (slots tb) i = Some (slots tb ! i)" using Suc.prems by (simp add: nth_opt_Some)
  show ?case
  proof (cases "slots tb ! i = 0")
    case False
    moreover have "i < length (slots tb)" using Suc.prems by simp
    ultimately obtain p where "view tb i = Some p" "heap tb (slots tb ! i) = Some p"
      using view_None_iff [OF assms(1), of i] by (fastforce simp: view_def)
    then show ?thesis using n Suc.IH [of "Suc i"] Suc.prems assms(3) False by auto
  qed (use n Suc.IH [of "Suc i"] Suc.prems in simp)
qed simp

lemma change_process_view:
  assumes "table_ok (processes k)" "change_process k i f = Some k'"
  shows "view (processes k') = (view (processes k))(i := map_option f (view (processes k) i))
    \<and> table_ok (processes k') \<and> slots (processes k') = slots (processes k) \<and> threads k' = threads k"
  using assms(2) store_view [OF assms(1), of i f] by (auto simp: change_process_def bind_eq_Some_conv)

text \<open>What becomes of a process, and of a thread, when process \<open>pid\<close> ends.\<close>

definition orphaned :: "u64 \<Rightarrow> process_info \<Rightarrow> process_info" where
  "orphaned pid p = (if p_parent_pid p = pid then p\<lparr>p_parent_pid := 1\<rparr> else p)"

lemma orphaned_parent: "pid \<noteq> 1 \<Longrightarrow> p_parent_pid (orphaned pid p) \<noteq> pid"
  by (simp add: orphaned_def)


text \<open>A parent that waits for any child, and its child.\<close>

definition example_family :: kernel where
  "example_family = (example_kernel THREAD_BLOCKED_PID THREAD_READY 2)\<lparr>
     threads := \<lparr>slots = [0, HM + 0x1000], heap = [HM + 0x1000 \<mapsto>
       (example_thread 1 THREAD_BLOCKED_PID)\<lparr>t_sleep_flag_addr := -1\<rparr>]\<rparr>,
     processes := \<lparr>slots = [0, 0, HM + 0x2000, HM + 0x3000], heap = [HM + 0x2000 \<mapsto> zero_process\<lparr>p_pid := 2\<rparr>,
       HM + 0x3000 \<mapsto> zero_process\<lparr>p_pid := 3, p_parent_pid := 2, p_fd_addr := 0x5000\<rparr>]\<rparr>,
     kvm := \<lparr>vm_frames = \<lparr>memory_map = replicate 8 1, total_memory_blocks_count = 8, end_kernel = HM\<rparr>,
       vm_mem = \<lambda>_. 0, processes_cr3_ptr = [0, 0, 0x1000, 0x1000]\<rparr>\<rparr>"

lemma end_process_example: "end_process example_family 3 7 \<noteq> None"
  by code_simp


end
