(* ===== verification/Paths.thy ===== *)
theory Paths
  imports Objects Cstring Frames
begin

text \<open>
  Paths and mount points: the fields of a path or a line, levels of a path,
  8.3 names of \<^verbatim>\<open>src/core/filesytem/filesystem.h\<close> and \<^verbatim>\<open>special_file.h\<close>, the mount table
  of \<^verbatim>\<open>src/core/filesytem/vfs.h\<close>, and the file operations that look up the mount point
  and call the driver of its partition.

  A path is the array that holds it.  The driver's functions are arguments of the
  operations that call them.
\<close>

section \<open>Fields\<close>

text \<open>The character 47 is the slash, 58 the colon.\<close>

fun field_start :: "u8 \<Rightarrow> u8 list \<Rightarrow> nat \<Rightarrow> nat \<Rightarrow> nat \<Rightarrow> nat option" where
  "field_start sep [] i count level = None"
| "field_start sep (c # cs) i count level =
     (let count' = (if c = sep then Suc count else count)
      in if count' \<ge> level then Some i else field_start sep cs (Suc i) count' level)"

definition field_at :: "u8 \<Rightarrow> u8 list \<Rightarrow> nat \<Rightarrow> u8 list \<Rightarrow> (bool \<times> u8 list) option" where
  "field_at sep path level buf = do {
     len \<leftarrow> strlen path;
     case field_start sep (take (unat len) path) 0 0 level of
       None \<Rightarrow> Some (False, buf)
     | Some start_pos \<Rightarrow> do {
         let stop_pos = (case first_from (unat len - Suc start_pos) (Suc start_pos) (\<lambda>i. path ! i = sep) of
           None \<Rightarrow> unat len | Some j \<Rightarrow> j);
         b \<leftarrow> put_all buf 0 (slice (Suc start_pos) (stop_pos - start_pos - 1) path);
         b' \<leftarrow> upd_opt b (stop_pos - start_pos - 1) 0;
         Some (True, b') } }"

definition get_path_at_lv :: "u8 list \<Rightarrow> nat \<Rightarrow> u8 list \<Rightarrow> (bool \<times> u8 list) option" where
  "get_path_at_lv path level buf = field_at 47 path level buf"

definition get_str_at_lv :: "u8 list \<Rightarrow> nat \<Rightarrow> u8 list \<Rightarrow> (bool \<times> u8 list) option" where
  "get_str_at_lv path level buf = field_at 58 path level buf"

text \<open>
  The bound \<^verbatim>\<open>strlen(path) - 1\<close> wraps for the empty path, where the loop then runs
  through memory until it faults.
\<close>

definition count_path_level :: "u8 list \<Rightarrow> nat option" where
  "count_path_level path = do {
     len \<leftarrow> strlen path;
     if len = 0 then None else Some (count_list (take (unat len - 1) path) 47) }"

section \<open>Copies and names\<close>

fun strncpy_loop :: "u8 list \<Rightarrow> u8 list \<Rightarrow> nat \<Rightarrow> nat \<Rightarrow> (nat \<times> u8 list) option" where
  "strncpy_loop [] dst i n = None"
| "strncpy_loop (c # src) dst i n =
     (if c \<noteq> 0 \<and> i < n then do { dst' \<leftarrow> upd_opt dst i c; strncpy_loop src dst' (Suc i) n }
      else do { dst' \<leftarrow> upd_opt dst i 0; Some (i, dst') })"

definition strncpy :: "u8 list \<Rightarrow> u8 list \<Rightarrow> nat \<Rightarrow> (nat \<times> u8 list) option" where
  "strncpy dst src max_len = (if max_len = 0 then Some (0, dst) else strncpy_loop src dst 0 (max_len - 1))"

fun split_loop :: "u8 list \<Rightarrow> u8 \<Rightarrow> nat \<Rightarrow> nat \<Rightarrow> nat \<Rightarrow> nat \<Rightarrow> u8 list \<Rightarrow> (bool \<times> u8 list) option" where
  "split_loop [] delim index result_size count_delim j result = None"
| "split_loop (c # str) delim index result_size count_delim j result =
     (if c = 0 \<or> c = delim \<and> Suc count_delim > index then
        (if (if c = 0 then count_delim else Suc count_delim) < index
         then do { r \<leftarrow> upd_opt result 0 0; Some (False, r) }
         else do { r \<leftarrow> upd_opt result j 0; Some (True, r) })
      else if c = delim then split_loop str delim index result_size (Suc count_delim) j result
      else if count_delim = index then
        (if j + 1 \<ge> result_size then Some (False, result)
         else do { r \<leftarrow> upd_opt result j c; split_loop str delim index result_size count_delim (Suc j) r })
      else split_loop str delim index result_size count_delim j result)"

definition split_n :: "u8 list \<Rightarrow> u8 \<Rightarrow> nat \<Rightarrow> u8 list \<Rightarrow> nat \<Rightarrow> (bool \<times> u8 list) option" where
  "split_n str delim index result result_size = split_loop str delim index result_size 0 0 result"

definition toupper :: "u8 \<Rightarrow> u8" where
  "toupper c = (if 97 \<le> c \<and> c \<le> 122 then c - (97 - 65) else c)"

text \<open>
  \<^verbatim>\<open>match_name\<close>: the base name fills the first eight places, the extension the
  last three.  The first loop advances both of its indices together.
\<close>

fun name_base :: "nat \<Rightarrow> u8 list \<Rightarrow> nat \<Rightarrow> u8 list \<Rightarrow> (nat \<times> u8 list) option" where
  "name_base 0 path_name i formatted = Some (i, formatted)"
| "name_base (Suc n) path_name i formatted = do {
     c \<leftarrow> nth_opt path_name i;
     if c \<noteq> 0 \<and> c \<noteq> 46 then name_base n path_name (Suc i) (formatted[i := toupper c])
     else Some (i, formatted) }"

fun name_ext :: "nat \<Rightarrow> u8 list \<Rightarrow> nat \<Rightarrow> nat \<Rightarrow> u8 list \<Rightarrow> u8 list option" where
  "name_ext 0 path_name i j formatted = do { _ \<leftarrow> nth_opt path_name j; Some formatted }"
| "name_ext (Suc n) path_name i j formatted = do {
     c \<leftarrow> nth_opt path_name j;
     if c \<noteq> 0 then name_ext n path_name (Suc i) (Suc j) (formatted[i := toupper c])
     else Some formatted }"

definition match_name :: "u8 list \<Rightarrow> u8 list \<Rightarrow> bool option" where
  "match_name path_name dir_entry_name = do {
     (i, formatted) \<leftarrow> name_base 8 path_name 0 (replicate 11 32);
     c \<leftarrow> nth_opt path_name i;
     formatted' \<leftarrow> (if c = 46 then name_ext 3 path_name 8 (Suc i) formatted else Some formatted);
     if length dir_entry_name < 11 then None else Some (take 11 dir_entry_name = formatted') }"

section \<open>Levels of a path\<close>

text \<open>The scan from the end; it never stops below the first character, which is out of the array.\<close>

fun parent_scan :: "u8 list \<Rightarrow> nat \<Rightarrow> nat \<Rightarrow> u64 \<Rightarrow> nat option" where
  "parent_scan path 0 count need = do {
     c \<leftarrow> nth_opt path 0;
     if of_nat (if c = 47 then Suc count else count) \<ge> need then Some 0 else None }"
| "parent_scan path (Suc i) count need = do {
     c \<leftarrow> nth_opt path (Suc i);
     let count' = (if c = 47 then Suc count else count);
     if of_nat count' \<ge> need then Some (Suc i) else parent_scan path i count' need }"

definition get_parent_path_at_level :: "u64 \<Rightarrow> u8 list \<Rightarrow> u8 list \<Rightarrow> u8 list option" where
  "get_parent_path_at_level level absolute_path out_path = do {
     str_len \<leftarrow> strlen absolute_path;
     let count_all_seperator = of_nat (count_list (take (unat str_len) absolute_path) 47);
     i \<leftarrow> parent_scan absolute_path (unat str_len) 0 (count_all_seperator - level);
     if i > 0 then do {
       out' \<leftarrow> put_all out_path 0 (take i absolute_path);
       upd_opt out' (i + 1) 0 }
     else strcpy out_path [47, 0] }"

fun child_scan :: "u8 list \<Rightarrow> nat \<Rightarrow> nat \<Rightarrow> u64 \<Rightarrow> nat" where
  "child_scan [] i count level = i"
| "child_scan (c # cs) i count level =
     (let count' = (if c = 47 then Suc count else count)
      in if of_nat count' = level + 1 then i else child_scan cs (Suc i) count' level)"

definition get_child_path_at_level :: "u64 \<Rightarrow> u8 list \<Rightarrow> u8 list \<Rightarrow> u8 list option" where
  "get_child_path_at_level level absolute_path out_path = do {
     str_len \<leftarrow> strlen absolute_path;
     let i = child_scan (take (unat str_len) absolute_path) 0 0 level;
     out' \<leftarrow> put_all out_path 0 (slice i (unat str_len - i) absolute_path);
     upd_opt out' (unat str_len - i + 1) 0 }"

section \<open>Mount points\<close>

record mount_point =
  m_src :: "u8 list"
  m_dest :: "u8 list"
  m_flags :: u32
  m_part :: u64

record vfs_partition =
  part_path :: "u8 list"
  part_identifier :: "u8 list"
  part_driver :: u64
  part_device :: u64

text \<open>\<^verbatim>\<open>strcmp\<close> answers 0 on different strings, so this finds a partition of another name.\<close>

fun part_scan :: "nat \<Rightarrow> nat \<Rightarrow> vfs_partition table \<Rightarrow> u8 list \<Rightarrow> nat option option" where
  "part_scan 0 i parts name = Some None"
| "part_scan (Suc n) i parts name = do {
     p \<leftarrow> nth_opt (slots parts) i;
     if p = 0 then part_scan n (Suc i) parts name
     else do {
       part \<leftarrow> heap parts p;
       r \<leftarrow> strcmp (part_path part) name;
       if r = 0 then Some (Some i) else part_scan n (Suc i) parts name } }"

definition find_part_by_name :: "vfs_partition table \<Rightarrow> u8 list \<Rightarrow> nat option option" where
  "find_part_by_name parts name = part_scan (length (slots parts)) 0 parts name"

text \<open>The first loop of \<^verbatim>\<open>mount\<close> reads through every entry it passes.\<close>

fun mount_device :: "nat \<Rightarrow> nat \<Rightarrow> vfs_partition table \<Rightarrow> u8 list \<Rightarrow> unit option" where
  "mount_device 0 i parts src = Some ()"
| "mount_device (Suc n) i parts src = do {
     part \<leftarrow> deref parts i;
     r \<leftarrow> strcmp (part_path part) src;
     if r = 0 then Some () else mount_device n (Suc i) parts src }"

text \<open>
  \<open>old\<close> is what the fresh block holds; it is not erased.  A full table makes
  \<^verbatim>\<open>get_a_free_slot\<close> look at the word behind it.
\<close>

definition mount :: "frames \<Rightarrow> mount_point table \<Rightarrow> vfs_partition table \<Rightarrow> mount_point \<Rightarrow> u8 list \<Rightarrow> u8 list \<Rightarrow> u32
    \<Rightarrow> (nat \<times> frames \<times> mount_point table) option" where
  "mount fr mounts parts old src dest flags = do {
     mid \<leftarrow> get_a_free_slot (slots mounts) 0 (of_nat (length (slots mounts)));
     _ \<leftarrow> mount_device (length (slots parts)) 0 parts src;
     (mp, fr') \<leftarrow> get_a_free_block_addr fr;
     s \<leftarrow> strcpy (m_src old) src;
     d \<leftarrow> strcpy (m_dest old) dest;
     found \<leftarrow> find_part_by_name parts s;
     part_id \<leftarrow> found;
     p \<leftarrow> nth_opt (slots parts) part_id;
     tb \<leftarrow> install mounts (unat mid) mp \<lparr>m_src = s, m_dest = d, m_flags = flags, m_part = p\<rparr>;
     Some (unat mid, fr', tb) }"

fun mount_scan :: "nat \<Rightarrow> mount_point table \<Rightarrow> u8 list \<Rightarrow> nat option option" where
  "mount_scan 0 mounts tmp_path = Some None"
| "mount_scan (Suc j) mounts tmp_path = do {
     p \<leftarrow> nth_opt (slots mounts) j;
     if p = 0 then mount_scan j mounts tmp_path
     else do {
       mp \<leftarrow> heap mounts p;
       r \<leftarrow> strcmp (m_dest mp) tmp_path;
       if r \<noteq> 0 then Some (Some j) else mount_scan j mounts tmp_path } }"

text \<open>
  Below level 0 the level wraps around, and \<^verbatim>\<open>get_parent_path_at_level\<close> leaves the
  path.
\<close>

fun mount_levels :: "nat \<Rightarrow> mount_point table \<Rightarrow> u8 list \<Rightarrow> nat option" where
  "mount_levels lv mounts path = do {
     tmp_path \<leftarrow> get_parent_path_at_level (of_nat lv) path (replicate 1024 0);
     r \<leftarrow> mount_scan (length (slots mounts)) mounts tmp_path;
     case r of Some j \<Rightarrow> Some j
     | None \<Rightarrow> (case lv of 0 \<Rightarrow> None | Suc lv' \<Rightarrow> mount_levels lv' mounts path) }"

declare mount_levels.simps [simp del]

definition find_mount_by_path :: "mount_point table \<Rightarrow> u8 list \<Rightarrow> nat option" where
  "find_mount_by_path mounts absolute_path = do {
     len \<leftarrow> strlen absolute_path;
     mount_levels (count_list (take (unat len) absolute_path) 47) mounts absolute_path }"

definition get_mount_deep_level :: "mount_point table \<Rightarrow> nat \<Rightarrow> u64 option" where
  "get_mount_deep_level mounts mount_id = do {
     p \<leftarrow> nth_opt (slots mounts) mount_id;
     if p = 0 then Some (- 1)
     else do {
       mp \<leftarrow> heap mounts p;
       len \<leftarrow> strlen (m_dest mp);
       Some (of_nat (count_list (take (unat len) (m_dest mp)) 47) - 1) } }"

definition get_child_path_from_mount_point :: "mount_point table \<Rightarrow> nat \<Rightarrow> u8 list \<Rightarrow> u8 list \<Rightarrow> u8 list option" where
  "get_child_path_from_mount_point mounts mount_id absolute_path out_path = do {
     mp \<leftarrow> deref mounts mount_id;
     dest_len \<leftarrow> strlen (m_dest mp);
     r \<leftarrow> strcmp (m_dest mp) [47, 0];
     if r = 0 then strcpy out_path absolute_path
     else if unat dest_len \<le> length absolute_path then strcpy out_path (drop (unat dest_len) absolute_path) else None }"

section \<open>File operations\<close>

datatype path_type = PATH_NOT_FOUND | PATH_FILE | PATH_DIRECTORY

text \<open>
  What the operations share: find the mount point and the path below it.  The
  local array \<open>child\<close> is not initialised.  The search never gives -1, so the test
  for it never succeeds.
\<close>

definition with_mount :: "mount_point table \<Rightarrow> u8 list \<Rightarrow> u8 list \<Rightarrow> (mount_point \<Rightarrow> u8 list \<Rightarrow> 'r option) \<Rightarrow> 'r option" where
  "with_mount mounts child path f = do {
     mount_id \<leftarrow> find_mount_by_path mounts path;
     mount_lv \<leftarrow> get_mount_deep_level mounts mount_id;
     child_path \<leftarrow> get_child_path_at_level mount_lv path child;
     mp \<leftarrow> deref mounts mount_id;
     f mp child_path }"

definition mkfile :: "(u64 \<Rightarrow> u8 list \<Rightarrow> bool \<Rightarrow> 'd \<Rightarrow> (u64 \<times> 'd) option) \<Rightarrow> mount_point table \<Rightarrow> u8 list \<Rightarrow> u8 list \<Rightarrow> 'd \<Rightarrow> (u64 \<times> 'd) option" where
  "mkfile create mounts child path d = with_mount mounts child path (\<lambda>mp child_path. create (m_part mp) child_path False d)"

definition mkdir :: "(u64 \<Rightarrow> u8 list \<Rightarrow> bool \<Rightarrow> 'd \<Rightarrow> (u64 \<times> 'd) option) \<Rightarrow> mount_point table \<Rightarrow> u8 list \<Rightarrow> u8 list \<Rightarrow> 'd \<Rightarrow> (u64 \<times> 'd) option" where
  "mkdir create mounts child path d = with_mount mounts child path (\<lambda>mp child_path. create (m_part mp) child_path True d)"

definition stat_dirent :: "(u64 \<Rightarrow> u8 list \<Rightarrow> 's option) \<Rightarrow> mount_point table \<Rightarrow> u8 list \<Rightarrow> u8 list \<Rightarrow> 's option" where
  "stat_dirent stat mounts child path = with_mount mounts child path (\<lambda>mp child_path. stat (m_part mp) child_path)"

definition delete_dirent :: "(u64 \<Rightarrow> u8 list \<Rightarrow> path_type option) \<Rightarrow> (u64 \<Rightarrow> u8 list \<Rightarrow> bool \<Rightarrow> 'd \<Rightarrow> (bool \<times> 'd) option)
    \<Rightarrow> mount_point table \<Rightarrow> u8 list \<Rightarrow> u8 list \<Rightarrow> 'd \<Rightarrow> (bool \<times> 'd) option" where
  "delete_dirent stat del mounts child path d = with_mount mounts child path (\<lambda>mp child_path. do {
     ty \<leftarrow> stat_dirent stat mounts child path;
     if ty = PATH_FILE then del (m_part mp) child_path False d
     else if ty = PATH_DIRECTORY then del (m_part mp) child_path True d
     else Some (False, d) })"

definition rename_dirent :: "(u64 \<Rightarrow> u8 list \<Rightarrow> path_type option) \<Rightarrow> (u64 \<Rightarrow> u8 list \<Rightarrow> u8 list \<Rightarrow> bool \<Rightarrow> 'd \<Rightarrow> (bool \<times> 'd) option)
    \<Rightarrow> mount_point table \<Rightarrow> u8 list \<Rightarrow> u8 list \<Rightarrow> u8 list \<Rightarrow> 'd \<Rightarrow> (bool \<times> 'd) option" where
  "rename_dirent stat ren mounts child path_src path_des d = do {
     src_mnt_id \<leftarrow> find_mount_by_path mounts path_src;
     dst_mnt_id \<leftarrow> find_mount_by_path mounts path_des;
     if src_mnt_id \<noteq> dst_mnt_id then Some (False, d)
     else do {
       mount_lv \<leftarrow> get_mount_deep_level mounts src_mnt_id;
       src_child_path \<leftarrow> get_child_path_at_level mount_lv path_src child;
       dst_child_path \<leftarrow> get_child_path_at_level mount_lv path_des child;
       ty \<leftarrow> stat_dirent stat mounts child path_src;
       mp \<leftarrow> deref mounts src_mnt_id;
       if ty = PATH_FILE then ren (m_part mp) src_child_path dst_child_path False d
       else if ty = PATH_DIRECTORY then ren (m_part mp) src_child_path dst_child_path True d
       else Some (False, d) } }"

definition is_dir :: "(u64 \<Rightarrow> u8 list \<Rightarrow> path_type option) \<Rightarrow> mount_point table \<Rightarrow> u8 list \<Rightarrow> u8 list \<Rightarrow> bool option" where
  "is_dir stat mounts child path = map_option (\<lambda>ty. ty = PATH_DIRECTORY) (stat_dirent stat mounts child path)"

definition path_exists :: "(u64 \<Rightarrow> u8 list \<Rightarrow> path_type option) \<Rightarrow> mount_point table \<Rightarrow> u8 list \<Rightarrow> u8 list \<Rightarrow> bool option" where
  "path_exists stat mounts child path = map_option (\<lambda>ty. ty \<noteq> PATH_NOT_FOUND) (stat_dirent stat mounts child path)"

text \<open>The driver fills the buffer and its count is dropped: success is always 0.\<close>

definition read_file :: "(u64 \<Rightarrow> u8 list \<Rightarrow> u8 list \<Rightarrow> u64 \<Rightarrow> u64 \<Rightarrow> u8 list option) \<Rightarrow> mount_point table \<Rightarrow> u8 list \<Rightarrow> u8 list
    \<Rightarrow> u8 list option \<Rightarrow> u64 \<Rightarrow> u64 \<Rightarrow> (int \<times> u8 list option) option" where
  "read_file rd mounts child path buf start count = (case buf of
     None \<Rightarrow> Some (- EINVAL, None)
   | Some b \<Rightarrow> if count = 0 then Some (- EINVAL, buf)
       else with_mount mounts child path (\<lambda>mp child_path. do {
         b' \<leftarrow> rd (m_part mp) child_path b start count;
         Some (0, Some b') }))"

definition write_file :: "(u64 \<Rightarrow> u8 list \<Rightarrow> u8 list \<Rightarrow> u64 \<Rightarrow> u64 \<Rightarrow> 'd \<Rightarrow> 'd option) \<Rightarrow> mount_point table \<Rightarrow> u8 list \<Rightarrow> u8 list
    \<Rightarrow> u8 list option \<Rightarrow> u64 \<Rightarrow> u64 \<Rightarrow> 'd \<Rightarrow> (int \<times> 'd) option" where
  "write_file wr mounts child path buf start count d = (case buf of
     None \<Rightarrow> Some (0, d)
   | Some b \<Rightarrow> if count = 0 then Some (0, d)
       else with_mount mounts child path (\<lambda>mp child_path. do {
         d' \<leftarrow> wr (m_part mp) child_path b start count d;
         Some (0, d') }))"

definition erase_file :: "(u64 \<Rightarrow> u8 list \<Rightarrow> 'd \<Rightarrow> (u64 \<times> 'd) option) \<Rightarrow> mount_point table \<Rightarrow> u8 list \<Rightarrow> u8 list \<Rightarrow> 'd
    \<Rightarrow> (bool \<times> 'd) option" where
  "erase_file trunc mounts child path d = with_mount mounts child path (\<lambda>mp child_path. do {
     (r, d') \<leftarrow> trunc (m_part mp) child_path d;
     Some (r = 0, d') })"

section \<open>Fields of a string\<close>

text \<open>The fields between the separators.\<close>

fun split_on :: "u8 \<Rightarrow> u8 list \<Rightarrow> u8 list list" where
  "split_on sep [] = [[]]"
| "split_on sep (c # cs) = (if c = sep then [] # split_on sep cs
     else (c # hd (split_on sep cs)) # tl (split_on sep cs))"

lemma split_on_nonempty [simp]: "split_on sep s \<noteq> []"
  by (cases s) auto

lemma length_split_on: "length (split_on sep s) = Suc (count_list s sep)"
  by (induction s) auto

lemma split_on_append: "split_on sep (pre @ sep # post) = split_on sep pre @ split_on sep post"
  by (induction pre) (auto simp: tl_append split: list.splits)

lemma hd_split_on: "hd (split_on sep s) = takeWhile (\<lambda>c. c \<noteq> sep) s"
  by (induction s) auto

lemma field_start_spec:
  assumes "count < level"
  shows "case field_start sep s i count level of
      None \<Rightarrow> count_list s sep < level - count
    | Some j \<Rightarrow> \<exists>pre post. s = pre @ sep # post \<and> j = i + length pre \<and> count_list pre sep = level - count - 1"
  using assms
proof (induction s arbitrary: i count)
  case (Cons c cs)
  show ?case
  proof (cases "c = sep \<and> Suc count = level")
    case True
    then have "c # cs = [] @ sep # cs \<and> i = i + length [] \<and> count_list [] sep = level - count - 1" by auto
    moreover have "field_start sep (c # cs) i count level = Some i" using True by simp
    ultimately show ?thesis by (simp only: option.case) blast
  next
    case False
    let ?c = "if c = sep then Suc count else count"
    have lt: "?c < level" using False Cons.prems by auto
    have f: "field_start sep (c # cs) i count level = field_start sep cs (Suc i) ?c level" using lt by simp
    show ?thesis
    proof (cases "field_start sep cs (Suc i) ?c level")
      case None
      then show ?thesis using Cons.IH [OF lt, of "Suc i"] f by (auto split: if_splits)
    next
      case (Some j)
      with Cons.IH [OF lt, of "Suc i"] obtain pre post where
        "cs = pre @ sep # post" "j = Suc i + length pre" "count_list pre sep = level - ?c - 1" by auto
      then have "c # cs = (c # pre) @ sep # post \<and> j = i + length (c # pre) \<and> count_list (c # pre) sep = level - count - 1"
        using lt by (auto split: if_splits)
      then show ?thesis unfolding f Some option.case by blast
    qed
  qed
qed simp

lemma first_sep_in:
  assumes "path = s @ 0 # t" "s = pre @ sep # post" "sep \<noteq> 0"
  shows "(case first_from (length s - Suc (length pre)) (Suc (length pre)) (\<lambda>i. path ! i = sep) of
      None \<Rightarrow> length s | Some j \<Rightarrow> j) = Suc (length pre) + length (takeWhile (\<lambda>c. c \<noteq> sep) post)"
proof -
  let ?w = "takeWhile (\<lambda>c. c \<noteq> sep) post"
  have at: "path ! (Suc (length pre) + j) = post ! j" if "j < length post" for j
    using that assms by (simp add: nth_append)
  have ne: "path ! i \<noteq> sep" if "Suc (length pre) \<le> i" "i < Suc (length pre) + length ?w" for i
  proof -
    have "i - Suc (length pre) < length ?w" using that by simp
    from nth_mem [OF this] have "?w ! (i - Suc (length pre)) \<noteq> sep" by (auto dest: set_takeWhileD)
    then show ?thesis using at [of "i - Suc (length pre)"] that length_takeWhile_le [of "\<lambda>c. c \<noteq> sep" post]
      takeWhile_nth [of "i - Suc (length pre)" "\<lambda>c. c \<noteq> sep" post] by auto
  qed
  have len: "length s - Suc (length pre) = length post" "length s = Suc (length pre) + length post" using assms by auto
  show ?thesis
  proof (cases "length ?w = length post")
    case True
    then have "first_from (length post) (Suc (length pre)) (\<lambda>i. path ! i = sep) = None"
      using ne by (auto simp: first_from_None)
    then show ?thesis using True len by simp
  next
    case False
    then have lt: "length ?w < length post" using length_takeWhile_le [of "\<lambda>c. c \<noteq> sep" post] by simp
    have "path ! (Suc (length pre) + length ?w) = sep" using at [OF lt] nth_length_takeWhile [OF lt] by simp
    then have "first_from (length post) (Suc (length pre)) (\<lambda>i. path ! i = sep) = Some (Suc (length pre) + length ?w)"
      using ne lt by (auto simp: first_from_eq_Some)
    then show ?thesis using len by simp
  qed
qed

lemma field_at_spec:
  assumes "terminated path" "sep \<noteq> 0" "0 < level" "length (cstring path) < 2 ^ 64"
  shows "field_at sep path level buf =
    (if level < length (split_on sep (cstring path))
     then map_option (\<lambda>b. (True, b)) (put_all buf 0 (split_on sep (cstring path) ! level @ [0]))
     else Some (False, buf))"
proof -
  define s where "s = cstring path"
  obtain t where p: "path = s @ 0 # t" using assms(1) unfolding s_def terminated_split by blast
  have len: "strlen path = Some (of_nat (length s))" "unat (of_nat (length s) :: u64) = length s"
    using assms(1,4) by (simp_all add: strlen_spec s_def unat_of_nat_lt)
  have tk: "take (length s) path = s" using p by simp
  show ?thesis
  proof (cases "field_start sep s 0 0 level")
    case None
    then show ?thesis using field_start_spec [OF assms(3), where sep = sep and s = s and i = 0] len tk
      by (simp add: field_at_def s_def [symmetric] length_split_on)
  next
    case (Some j)
    with field_start_spec [OF assms(3), where sep = sep and s = s and i = 0] obtain pre post where
      sp: "s = pre @ sep # post" "j = length pre" "count_list pre sep = level - 1" by auto
    let ?w = "takeWhile (\<lambda>c. c \<noteq> sep) post"
    have f: "split_on sep s ! level = ?w" "level < length (split_on sep s)"
      using sp assms(3) length_split_on [of sep pre] hd_split_on [of sep post]
      by (auto simp: split_on_append nth_append hd_conv_nth length_split_on)
    have "slice (Suc j) (length ?w) path = ?w"
      using p sp takeWhile_eq_take [of "\<lambda>c. c \<noteq> sep" post] length_takeWhile_le [of "\<lambda>c. c \<noteq> sep" post] by (simp add: slice_def)
    moreover have "(case first_from (unat (of_nat (length s) :: u64) - Suc j) (Suc j) (\<lambda>i. path ! i = sep) of
        None \<Rightarrow> unat (of_nat (length s) :: u64) | Some j \<Rightarrow> j) = Suc j + length ?w"
      unfolding len(2) sp(2) by (rule first_sep_in [OF p sp(1) assms(2)])
    ultimately have "field_at sep path level buf =
        put_all buf 0 ?w \<bind> (\<lambda>b. upd_opt b (length ?w) 0 \<bind> (\<lambda>b'. Some (True, b')))"
      using Some len tk by (simp add: field_at_def Let_def)
    moreover have "put_all buf 0 (?w @ [0]) = put_all buf 0 ?w \<bind> (\<lambda>b. upd_opt b (length ?w) 0)"
      by (simp add: put_all_append)
    ultimately show ?thesis using f by (simp add: s_def [symmetric] map_option_bind map_conv_bind_option comp_def)
  qed
qed

section \<open>Parents of a path\<close>

text \<open>The characters before separator number \<open>lv\<close>, counted from 0; all of them if there are fewer.\<close>

fun before_sep :: "nat \<Rightarrow> u8 list \<Rightarrow> u8 list" where
  "before_sep lv [] = []"
| "before_sep lv (c # cs) = (if c = 47 then (case lv of 0 \<Rightarrow> [] | Suc l \<Rightarrow> c # before_sep l cs) else c # before_sep lv cs)"

definition ancestor :: "nat \<Rightarrow> u8 list \<Rightarrow> u8 list" where
  "ancestor lv s = (if before_sep lv s = [] then [47] else before_sep lv s)"

lemma before_sep_split: "count_list p 47 = lv \<Longrightarrow> before_sep lv (p @ 47 # r) = p"
  by (induction p arbitrary: lv) auto

lemma before_sep_all: "count_list s 47 \<le> lv \<Longrightarrow> before_sep lv s = s"
  by (induction s arbitrary: lv) (auto split: nat.splits if_splits)

lemma count_list_take_Suc: "i < length xs \<Longrightarrow> count_list (take (Suc i) xs) x = count_list (take i xs) x + (if xs ! i = x then 1 else 0)"
  by (simp add: take_Suc_conv_app_nth)

lemma parent_scan_spec:
  assumes "i < length path" "length path < 2 ^ 64" "unat need \<le> count + count_list (take (Suc i) path) 47" "count + i < 2 ^ 63"
  shows "\<exists>j\<le>i. parent_scan path i count need = Some j
    \<and> unat need \<le> count + count_list (take (Suc i) path) 47 - count_list (take j path) 47
    \<and> (j < i \<longrightarrow> count + count_list (take (Suc i) path) 47 - count_list (take (Suc j) path) 47 < unat need)"
  using assms
proof (induction i arbitrary: count)
  case 0
  let ?c = "if path ! 0 = 47 then Suc count else count"
  have "unat (of_nat ?c :: u64) = ?c" using 0 by (intro unat_of_nat_lt) auto
  then show ?case using 0 by (auto simp: nth_opt_Some word_le_nat_alt count_list_take_Suc)
next
  case (Suc i)
  define d where "d = (if path ! Suc i = 47 then Suc count else count)"
  have b: "d + i < 2 ^ 63" using Suc.prems(4) by (auto simp: d_def)
  then have u: "unat (of_nat d :: u64) = d" by (intro unat_of_nat_lt) auto
  have cnt: "count + count_list (take (Suc (Suc i)) path) 47 = d + count_list (take (Suc i) path) 47"
    using Suc.prems(1) by (simp add: count_list_take_Suc [of "Suc i"] d_def)
  show ?case
  proof (cases "unat need \<le> d")
    case True
    then have "parent_scan path (Suc i) count need = Some (Suc i)"
      using Suc.prems(1) u by (simp add: nth_opt_Some word_le_nat_alt Let_def d_def [symmetric])
    then show ?thesis using True unfolding cnt by (intro exI [of _ "Suc i"]) simp
  next
    case False
    then have "parent_scan path (Suc i) count need = parent_scan path i d need"
      using Suc.prems(1) u by (simp add: nth_opt_Some word_le_nat_alt Let_def d_def [symmetric])
    moreover obtain j where "j \<le> i" "parent_scan path i d need = Some j"
      "unat need \<le> d + count_list (take (Suc i) path) 47 - count_list (take j path) 47"
      "j < i \<longrightarrow> d + count_list (take (Suc i) path) 47 - count_list (take (Suc j) path) 47 < unat need"
      using Suc.IH [of d] Suc.prems b cnt by auto
    ultimately show ?thesis using False unfolding cnt
      by (intro exI [of _ j]) (cases "j < i", auto)
  qed
qed

lemma count_take_mono: "i \<le> j \<Longrightarrow> count_list (take i xs) x \<le> count_list (take j xs) x"
proof -
  assume "i \<le> j"
  then have "take j xs = take i xs @ take (j - i) (drop i xs)" by (metis le_add_diff_inverse take_add)
  then show ?thesis by simp
qed

lemma replicate_update: "(replicate n x)[i := x] = replicate n x"
  by (induction n arbitrary: i) (auto split: nat.splits)

lemma parent_path_spec:
  assumes path: "path = s @ 0 # t" "0 \<notin> set s" and s: "s = 47 # s'" "length s < 1023" and lv: "lv \<le> count_list s 47"
    and small: "length path < 2 ^ 62"
  shows "\<exists>out. get_parent_path_at_level (of_nat lv) path (replicate 1024 0) = Some out
    \<and> terminated out \<and> cstring out = ancestor lv s"
proof -
  define n where "n = length s"
  let ?all = "count_list s 47" and ?need = "of_nat (count_list s 47) - of_nat lv :: u64"
  have len: "strlen path = Some (of_nat n)" "unat (of_nat n :: u64) = n"
    using path small by (simp_all add: strlen_spec terminated_append cstring_append n_def unat_of_nat_lt terminated_def)
  have tk: "take n path = s" "n < length path" "path ! n = 0" using path by (simp_all add: n_def)
  have need: "unat ?need = ?all - lv"
    using lv small count_le_length [of s 47] path by (simp add: of_nat_diff [symmetric] unat_of_nat_lt del: of_nat_diff)
  have all: "count_list (take (Suc n) path) 47 = ?all" using tk by (simp add: count_list_take_Suc)
  obtain j where j: "j \<le> n" "parent_scan path n 0 ?need = Some j" "?all - lv \<le> ?all - count_list (take j path) 47"
    "j < n \<longrightarrow> ?all - count_list (take (Suc j) path) 47 < ?all - lv"
    using parent_scan_spec [of n path ?need 0] tk small need all by auto
  have jl: "count_list (take j path) 47 \<le> lv"
    using j(3) lv count_take_mono [of j n path 47] j(1) tk(1) by simp
  have pre: "take j s = before_sep lv s"
  proof (cases "j = n")
    case True
    then have "lv = ?all" using jl tk lv by simp
    then show ?thesis using True before_sep_all [of s lv] by (simp add: n_def)
  next
    case False
    then have jn: "j < n" using j(1) by simp
    then have "lv < count_list (take (Suc j) path) 47" using j(4) lv by linarith
    then have "count_list (take j path) 47 = lv" "path ! j = 47"
      using jl tk(2) jn by (auto simp: count_list_take_Suc split: if_splits)
    moreover have "take j path = take j s" "path ! j = s ! j" using path jn by (auto simp: n_def nth_append)
    ultimately have "count_list (take j s) 47 = lv" "s = take j s @ 47 # drop (Suc j) s"
      using jn id_take_nth_drop [of j s] by (auto simp: n_def)
    then show ?thesis using before_sep_split by metis
  qed
  have tj: "take j path = take j s" using j(1) path by (simp add: n_def)
  show ?thesis
  proof (cases "j = 0")
    case True
    have "strcpy (replicate 1024 0) [47, 0] = Some ([47, 0] @ replicate 1022 0)"
      by (simp add: strcpy_def upd_opt_def numeral_eq_Suc)
    then show ?thesis using True pre len tk j(2)
      by (auto simp: get_parent_path_at_level_def ancestor_def terminated_def cstring_def)
  next
    case False
    have l: "length (take j s) = j" using j(1) by (simp add: n_def)
    have "put_all (replicate 1024 0) 0 (take j path) = Some (take j s @ replicate (1024 - j) 0)"
      using l s(2) j(1) tj by (simp add: put_all_0 n_def)
    moreover have "(take j s @ replicate (1024 - j) 0)[Suc j := 0] = take j s @ replicate (1024 - j) 0"
      using l by (simp add: list_update_append replicate_update)
    moreover have "Suc j < 1024" using s(2) j(1) by (simp add: n_def)
    ultimately have "get_parent_path_at_level (of_nat lv) path (replicate 1024 0) = Some (take j s @ replicate (1024 - j) 0)"
      using False len tk j(2) l by (simp add: get_parent_path_at_level_def upd_opt_def)
    moreover have "1024 - j = Suc (1023 - j)" using s(2) j(1) by (simp add: n_def)
    moreover have "0 \<notin> set (take j s)" using path(2) by (meson in_set_takeD)
    moreover have "take j s \<noteq> []" using False s(1) by simp
    ultimately show ?thesis using pre
      by (auto simp: terminated_append cstring_append ancestor_def)
  qed
qed

section \<open>The mount point of a path\<close>

text \<open>The mount points that stand for a directory.\<close>

definition mounted_at :: "mount_point table \<Rightarrow> nat \<Rightarrow> u8 list \<Rightarrow> bool" where
  "mounted_at mounts j d \<longleftrightarrow> (\<exists>mp. view mounts j = Some mp \<and> cstring (m_dest mp) = d)"

definition mounts_ok :: "mount_point table \<Rightarrow> bool" where
  "mounts_ok mounts \<longleftrightarrow> table_ok mounts \<and> (\<forall>j mp. view mounts j = Some mp \<longrightarrow> terminated (m_dest mp))"

lemma mount_scan_spec:
  assumes ok: "mounts_ok mounts" and t: "terminated tmp" and n: "n \<le> length (slots mounts)"
  shows "case mount_scan n mounts tmp of None \<Rightarrow> False
    | Some None \<Rightarrow> \<forall>j<n. \<not> mounted_at mounts j (cstring tmp)
    | Some (Some j) \<Rightarrow> j < n \<and> mounted_at mounts j (cstring tmp) \<and> (\<forall>i. j < i \<and> i < n \<longrightarrow> \<not> mounted_at mounts i (cstring tmp))"
  using n
proof (induction n)
  case (Suc n)
  have nn: "nth_opt (slots mounts) n = Some (slots mounts ! n)" using Suc.prems by (simp add: nth_opt_Some)
  show ?case
  proof (cases "slots mounts ! n = 0")
    case True
    then have "\<not> mounted_at mounts n (cstring tmp)" by (simp add: mounted_at_def view_def)
    moreover have "mount_scan (Suc n) mounts tmp = mount_scan n mounts tmp" using True nn by simp
    ultimately show ?thesis using Suc.IH Suc.prems by (auto simp: less_Suc_eq split: option.splits)
  next
    case False
    moreover have "n < length (slots mounts)" using Suc.prems by simp
    ultimately obtain mp where mp: "view mounts n = Some mp" "heap mounts (slots mounts ! n) = Some mp"
      using view_None_iff [of mounts n] ok by (fastforce simp: view_def mounts_ok_def)
    have st: "strcmp (m_dest mp) tmp = Some (if cstring (m_dest mp) = cstring tmp then 1 else 0)"
      using ok mp(1) t by (intro strcmp_spec) (auto simp: mounts_ok_def)
    show ?thesis
    proof (cases "cstring (m_dest mp) = cstring tmp")
      case True
      then have "mount_scan (Suc n) mounts tmp = Some (Some n)" using False nn mp st by simp
      then show ?thesis using True mp by (auto simp: mounted_at_def)
    next
      case ne: False
      then have "mount_scan (Suc n) mounts tmp = mount_scan n mounts tmp" using False nn mp st by simp
      moreover have "\<not> mounted_at mounts n (cstring tmp)" using ne mp by (simp add: mounted_at_def)
      ultimately show ?thesis using Suc.IH Suc.prems by (auto simp: less_Suc_eq split: option.splits)
    qed
  qed
qed simp

lemma mounted_bound: "mounted_at mounts j d \<Longrightarrow> j < length (slots mounts)"
  by (auto simp: mounted_at_def view_def split: if_splits)

lemma mount_levels_spec:
  assumes ok: "mounts_ok mounts" and path: "path = s @ 0 # t" "0 \<notin> set s" and s: "s = 47 # s'" "length s < 1023"
    and small: "length path < 2 ^ 62" and lv: "lv \<le> count_list s 47"
  shows "case mount_levels lv mounts path of
      None \<Rightarrow> \<forall>l\<le>lv. \<forall>j. \<not> mounted_at mounts j (ancestor l s)
    | Some j \<Rightarrow> \<exists>l\<le>lv. mounted_at mounts j (ancestor l s) \<and> (\<forall>i>j. \<not> mounted_at mounts i (ancestor l s))
        \<and> (\<forall>m. l < m \<and> m \<le> lv \<longrightarrow> (\<forall>i. \<not> mounted_at mounts i (ancestor m s)))"
  using lv
proof (induction lv)
  case 0
  obtain out where out: "get_parent_path_at_level (of_nat 0) path (replicate 1024 0) = Some out" "terminated out"
    "cstring out = ancestor 0 s" using parent_path_spec [OF path s 0 small] by blast
  have M: "mount_levels 0 mounts path = (mount_scan (length (slots mounts)) mounts out \<bind>
      (\<lambda>r. case r of Some j \<Rightarrow> Some j | None \<Rightarrow> None))"
    using out(1) by (subst mount_levels.simps) simp
  show ?case using mount_scan_spec [OF ok out(2) order_refl] mounted_bound out(3) unfolding M
    by (auto split: option.splits)
next
  case (Suc lv)
  obtain out where out: "get_parent_path_at_level (of_nat (Suc lv)) path (replicate 1024 0) = Some out" "terminated out"
    "cstring out = ancestor (Suc lv) s" using parent_path_spec [OF path s Suc.prems small] by blast
  have M: "mount_levels (Suc lv) mounts path = (mount_scan (length (slots mounts)) mounts out \<bind>
      (\<lambda>r. case r of Some j \<Rightarrow> Some j | None \<Rightarrow> mount_levels lv mounts path))"
    using out(1) by (subst mount_levels.simps) (simp cong: option.case_cong)
  note sc = mount_scan_spec [OF ok out(2) order_refl, unfolded out(3)]
  show ?case
  proof (cases "mount_scan (length (slots mounts)) mounts out")
    case None
    then show ?thesis using sc by simp
  next
    case (Some r)
    show ?thesis
    proof (cases r)
      case (Some j)
      then show ?thesis using sc \<open>mount_scan _ _ _ = Some r\<close> mounted_bound unfolding M
        by (auto intro!: exI [of _ "Suc lv"])
    next
      case None
      then have no: "\<not> mounted_at mounts j (ancestor (Suc lv) s)" for j
        using sc \<open>mount_scan _ _ _ = Some r\<close> mounted_bound [of mounts j] by auto
      have "mount_levels (Suc lv) mounts path = mount_levels lv mounts path"
        using None \<open>mount_scan _ _ _ = Some r\<close> unfolding M by simp
      then show ?thesis using Suc no by (auto simp: le_Suc_eq split: option.splits)
    qed
  qed
qed

section \<open>Properties\<close>

text \<open>
  C8.  \<^verbatim>\<open>find_mount_by_path\<close> finds the mount point that is nearest above an
  absolute path: the one returned is mounted at an ancestor of the path, nothing
  is mounted at a deeper ancestor, and of several mounts at the same place the
  last one wins.  It fails to return only when nothing is mounted above the path,
  not even the root.
\<close>
theorem nearest_mount_found:
  assumes "mounts_ok mounts" "path = s @ 0 # t" "0 \<notin> set s" "s = 47 # s'" "length s < 1023" "length path < 2 ^ 62"
  shows "case find_mount_by_path mounts path of
      None \<Rightarrow> \<forall>l\<le>count_list s 47. \<forall>j. \<not> mounted_at mounts j (ancestor l s)
    | Some j \<Rightarrow> \<exists>l\<le>count_list s 47. mounted_at mounts j (ancestor l s) \<and> (\<forall>i>j. \<not> mounted_at mounts i (ancestor l s))
        \<and> (\<forall>m. l < m \<and> m \<le> count_list s 47 \<longrightarrow> (\<forall>i. \<not> mounted_at mounts i (ancestor m s)))"
proof -
  have "strlen path = Some (of_nat (length s))" "unat (of_nat (length s) :: u64) = length s"
    using assms(2,3,5) by (simp_all add: strlen_spec terminated_append cstring_append unat_of_nat_lt terminated_def)
  then have "find_mount_by_path mounts path = mount_levels (count_list s 47) mounts path"
    using assms(2) by (simp add: find_mount_by_path_def)
  then show ?thesis using mount_levels_spec [OF assms order_refl] by (simp only:)
qed

text \<open>The root is entry 0 and \<^verbatim>\<open>/a\<close> is entry 1.\<close>

definition example_mounts :: "mount_point table" where
  "example_mounts = \<lparr>slots = [0x1000, 0x2000, 0],
     heap = [0x1000 \<mapsto> \<lparr>m_src = [0], m_dest = [47, 0], m_flags = 0, m_part = 0\<rparr>,
       0x2000 \<mapsto> \<lparr>m_src = [0], m_dest = [47, 97, 0], m_flags = 0, m_part = 0\<rparr>]\<rparr>"

lemma view_example_mounts:
  "view example_mounts = [0 \<mapsto> \<lparr>m_src = [0], m_dest = [47, 0], m_flags = 0, m_part = 0\<rparr>,
     1 \<mapsto> \<lparr>m_src = [0], m_dest = [47, 97, 0], m_flags = 0, m_part = 0\<rparr>]"
  by (auto simp: view_def example_mounts_def fun_eq_iff less_Suc_eq numeral_3_eq_3)

theorem nearest_mount_found_witness:
  "find_mount_by_path example_mounts [47, 97, 47, 98, 0] = Some 1 \<and> mounted_at example_mounts 1 (ancestor 1 [47, 97, 47, 98])"
proof -
  have "table_ok example_mounts" by code_simp
  then have ok: "mounts_ok example_mounts" by (auto simp: mounts_ok_def view_example_mounts terminated_def split: if_splits)
  have m: "mounted_at example_mounts 1 (ancestor 1 [47, 97, 47, 98])"
    by (simp add: mounted_at_def view_example_mounts cstring_def ancestor_def)
  have cnt: "count_list [47, 97, 47, 98 :: u8] 47 = 2" by code_simp
  obtain j l where J: "find_mount_by_path example_mounts [47, 97, 47, 98, 0] = Some j" "l \<le> 2"
    "mounted_at example_mounts j (ancestor l [47, 97, 47, 98])"
    "\<forall>m. l < m \<and> m \<le> 2 \<longrightarrow> (\<forall>i. \<not> mounted_at example_mounts i (ancestor m [47, 97, 47, 98]))"
    using nearest_mount_found [OF ok, of "[47, 97, 47, 98, 0]" "[47, 97, 47, 98]" "[]" "[97, 47, 98]"] m cnt
    by (auto split: option.splits simp del: One_nat_def)
  have "l \<noteq> 0" using J(4) m by (auto dest!: spec [of _ 1])
  moreover have "ancestor 2 [47, 97, 47, 98] = [47, 97, 47, 98]" by code_simp
  then have "l \<noteq> 2" using J(3) by (auto simp: mounted_at_def view_example_mounts cstring_def split: if_splits)
  ultimately have "l = 1" using J(2) by simp
  then have "j = 1" using J(3) by (auto simp: mounted_at_def view_example_mounts cstring_def ancestor_def split: if_splits)
  then show ?thesis using J(1) m by simp
qed

text \<open>
  The part of the path below the mount point keeps the mount point's own name:
  \<^verbatim>\<open>/a/b\<close> below the mount at \<^verbatim>\<open>/a\<close> stays \<^verbatim>\<open>/a/b\<close>, and the terminator is written one
  place too far.
\<close>
lemma child_path_keeps_mount_name:
  "get_mount_deep_level example_mounts 1 = Some 0"
  "get_child_path_at_level 0 [47, 97, 47, 98, 0] (replicate 8 120) = Some [47, 97, 47, 98, 120, 0, 120, 120]"
  by code_simp+

text \<open>
  C35.  \<^verbatim>\<open>get_path_at_lv\<close> returns the component of a path with the given number:
  the text between two slashes or up to the end, with its terminator, in a
  buffer that is otherwise unchanged; it answers false exactly when the path has
  no such component.
\<close>
theorem path_component:
  assumes "terminated path" "0 < level" "length (cstring path) < 2 ^ 64"
    "level < length (split_on 47 (cstring path)) \<longrightarrow> length (split_on 47 (cstring path) ! level) < length buf"
  shows "get_path_at_lv path level buf =
    (if level < length (split_on 47 (cstring path))
     then Some (True, split_on 47 (cstring path) ! level @ 0 # drop (Suc (length (split_on 47 (cstring path) ! level))) buf)
     else Some (False, buf))"
  using assms field_at_spec [OF assms(1) _ assms(2,3), of 47 buf]
  by (auto simp: get_path_at_lv_def put_all_0)

theorem path_component_witness:
  "get_path_at_lv [47, 112, 47, 55, 47, 109, 0] 2 [1, 1, 1, 1] = Some (True, [55, 0, 1, 1])"
  using path_component [of "[47, 112, 47, 55, 47, 109, 0]" 2 "[1, 1, 1, 1]"]
  by (simp add: terminated_def cstring_def)

end
