(* ===== verification/Users.thy ===== *)
theory Users
  imports Processes Paths
begin

text \<open>
  Users of \<^verbatim>\<open>src/core/user/user.h\<close>: the identities of the current process, the
  lines of the user file, and the permission checks.
\<close>

section \<open>Identities of the current process\<close>

definition get_id :: "(process_info \<Rightarrow> u64) \<Rightarrow> kernel \<Rightarrow> nat \<Rightarrow> u64 option" where
  "get_id f k c = do {
     pid \<leftarrow> get_current_pid k c;
     p \<leftarrow> nth_opt (slots (processes k)) (unat pid);
     if p = 0 then Some (- 1) else do { proc \<leftarrow> heap (processes k) p; Some (f proc) } }"

definition set_id :: "(process_info \<Rightarrow> process_info) \<Rightarrow> kernel \<Rightarrow> nat \<Rightarrow> (u64 \<times> kernel) option" where
  "set_id f k c = do {
     pid \<leftarrow> get_current_pid k c;
     p \<leftarrow> nth_opt (slots (processes k)) (unat pid);
     if p = 0 then Some (- 1, k) else do { k' \<leftarrow> change_process k (unat pid) f; Some (0, k') } }"

definition sys_getuid :: "kernel \<Rightarrow> nat \<Rightarrow> u64 option" where "sys_getuid = get_id p_uid"
definition sys_getgid :: "kernel \<Rightarrow> nat \<Rightarrow> u64 option" where "sys_getgid = get_id p_gid"
definition sys_setuid :: "kernel \<Rightarrow> nat \<Rightarrow> u64 \<Rightarrow> (u64 \<times> kernel) option" where
  "sys_setuid k c uid = set_id (\<lambda>p. p\<lparr>p_uid := uid\<rparr>) k c"
definition sys_setgid :: "kernel \<Rightarrow> nat \<Rightarrow> u64 \<Rightarrow> (u64 \<times> kernel) option" where
  "sys_setgid k c gid = set_id (\<lambda>p. p\<lparr>p_uid := gid\<rparr>) k c"
definition sys_geteuid :: "kernel \<Rightarrow> nat \<Rightarrow> u64 option" where "sys_geteuid = get_id p_euid"
definition sys_getegid :: "kernel \<Rightarrow> nat \<Rightarrow> u64 option" where "sys_getegid = get_id p_egid"
definition sys_seteuid :: "kernel \<Rightarrow> nat \<Rightarrow> u64 \<Rightarrow> (u64 \<times> kernel) option" where
  "sys_seteuid k c euid = set_id (\<lambda>p. p\<lparr>p_euid := euid\<rparr>) k c"
definition sys_setegid :: "kernel \<Rightarrow> nat \<Rightarrow> u64 \<Rightarrow> (u64 \<times> kernel) option" where
  "sys_setegid k c egid = set_id (\<lambda>p. p\<lparr>p_egid := egid\<rparr>) k c"
definition sys_getreuid :: "kernel \<Rightarrow> nat \<Rightarrow> u64 option" where "sys_getreuid = get_id p_reuid"
definition sys_getregid :: "kernel \<Rightarrow> nat \<Rightarrow> u64 option" where "sys_getregid = get_id p_regid"
definition sys_setreuid :: "kernel \<Rightarrow> nat \<Rightarrow> u64 \<Rightarrow> (u64 \<times> kernel) option" where
  "sys_setreuid k c reuid = set_id (\<lambda>p. p\<lparr>p_reuid := reuid\<rparr>) k c"
definition sys_setregid :: "kernel \<Rightarrow> nat \<Rightarrow> u64 \<Rightarrow> (u64 \<times> kernel) option" where
  "sys_setregid k c regid = set_id (\<lambda>p. p\<lparr>p_regid := regid\<rparr>) k c"
definition sys_getresuid :: "kernel \<Rightarrow> nat \<Rightarrow> u64 option" where "sys_getresuid = get_id p_resuid"
definition sys_getresgid :: "kernel \<Rightarrow> nat \<Rightarrow> u64 option" where "sys_getresgid = get_id p_resgid"
definition sys_setresuid :: "kernel \<Rightarrow> nat \<Rightarrow> u64 \<Rightarrow> (u64 \<times> kernel) option" where
  "sys_setresuid k c resuid = set_id (\<lambda>p. p\<lparr>p_resuid := resuid\<rparr>) k c"
definition sys_setresgid :: "kernel \<Rightarrow> nat \<Rightarrow> u64 \<Rightarrow> (u64 \<times> kernel) option" where
  "sys_setresgid k c resgid = set_id (\<lambda>p. p\<lparr>p_resgid := resgid\<rparr>) k c"

section \<open>The user file\<close>

text \<open>
  The 32 byte buffer of the two readers is a local array.  When the line has no
  such field its contents are whatever was on the stack, and the value read from
  it is not determined: \<^const>\<open>None\<close>.
\<close>

definition number_field :: "nat \<Rightarrow> u8 list \<Rightarrow> int option" where
  "number_field level user_line = do {
     (found, out) \<leftarrow> get_str_at_lv user_line level (replicate 32 0);
     if found then str_to_int out else None }"

definition get_uid_from_user_line :: "u8 list \<Rightarrow> int option" where
  "get_uid_from_user_line user_line = number_field 2 user_line"

definition get_gid_from_user_line :: "u8 list \<Rightarrow> int option" where
  "get_gid_from_user_line user_line = number_field 3 user_line"

text \<open>The table \<^verbatim>\<open>user_global\<close>; an index outside it is a stray write.\<close>

record user =
  u_uid :: u64
  u_gid :: u64

function user_lines :: "u8 list \<Rightarrow> nat \<Rightarrow> nat \<Rightarrow> user list \<Rightarrow> user list option" where
  "user_lines user_file pos file_size users =
     (if pos < file_size then do {
        uid \<leftarrow> get_uid_from_user_line (drop pos user_file);
        gid \<leftarrow> get_gid_from_user_line (drop pos user_file);
        users' \<leftarrow> (if 0 \<le> uid then upd_opt users (nat uid) \<lparr>u_uid = of_int uid, u_gid = of_int gid\<rparr> else None);
        len \<leftarrow> strlen (drop pos user_file);
        user_lines user_file (pos + unat len + 1) file_size users' }
      else Some users)"
  by pat_completeness auto
termination by (relation "measure (\<lambda>(_, pos, n, _). n - pos)") auto

declare user_lines.simps [simp del]

definition end_lines :: "u8 list \<Rightarrow> nat \<Rightarrow> u8 list" where
  "end_lines user_file file_size =
     map (\<lambda>c. if c = 10 then 0 else c) (take file_size user_file) @ drop file_size user_file"

definition load_users :: "u8 list \<Rightarrow> user list \<Rightarrow> user list option" where
  "load_users user_file users = do {
     file_size \<leftarrow> strlen user_file;
     user_lines (end_lines user_file (unat file_size)) 0 (unat file_size) users }"

text \<open>\<open>user_file\<close> and \<open>child\<close> are the initial contents of local arrays.\<close>

definition init_user :: "(u64 \<Rightarrow> u8 list \<Rightarrow> u8 list \<Rightarrow> u64 \<Rightarrow> u64 \<Rightarrow> u8 list option) \<Rightarrow> mount_point table \<Rightarrow> u8 list
    \<Rightarrow> u8 list \<Rightarrow> user list \<Rightarrow> user list option" where
  "init_user rd mounts child user_file users = do {
     (r, buf) \<leftarrow> read_file rd mounts child [47, 101, 116, 99, 47, 112, 97, 115, 115, 119, 100, 0] (Some user_file) 0 2048;
     if r \<le> 0 then Some users else buf \<bind> (\<lambda>b. load_users b users) }"

section \<open>Permissions\<close>

definition get_owner_file :: "u8 list \<Rightarrow> u64" where "get_owner_file path = 0"
definition get_owner_group_file :: "u8 list \<Rightarrow> u64" where "get_owner_group_file path = 0"
definition get_mode_file :: "u8 list \<Rightarrow> u32" where "get_mode_file path = 511"

text \<open>
  In \<^verbatim>\<open>file_mode & (MODE >> 6) > 0\<close> the comparison binds more tightly than the
  conjunction: the mode is combined with the truth value.
\<close>

definition mode_test :: "u32 \<Rightarrow> u32 \<Rightarrow> bool" where
  "mode_test file_mode bits \<longleftrightarrow> file_mode AND (if bits > 0 then 1 else 0) \<noteq> 0"

definition allow_path :: "u32 \<Rightarrow> kernel \<Rightarrow> nat \<Rightarrow> u8 list \<Rightarrow> bool option" where
  "allow_path mode k c path = do {
     euid \<leftarrow> sys_geteuid k c;
     egid \<leftarrow> sys_getegid k c;
     let file_mode = get_mode_file path;
     Some (if euid = 0 then True
       else if euid = get_owner_file path \<and> mode_test file_mode (drop_bit 6 mode) then True
       else if egid = get_owner_group_file path \<and> mode_test file_mode (drop_bit 3 mode) then True
       else mode_test file_mode mode) }"

definition allow_read_path :: "kernel \<Rightarrow> nat \<Rightarrow> u8 list \<Rightarrow> bool option" where "allow_read_path = allow_path 4"
definition allow_write_path :: "kernel \<Rightarrow> nat \<Rightarrow> u8 list \<Rightarrow> bool option" where "allow_write_path = allow_path 2"
definition allow_exec_path :: "kernel \<Rightarrow> nat \<Rightarrow> u8 list \<Rightarrow> bool option" where "allow_exec_path = allow_path 1"

definition allow_root :: "kernel \<Rightarrow> nat \<Rightarrow> bool option" where
  "allow_root k c = map_option (\<lambda>e. e = 0) (sys_getegid k c)"

section \<open>Lines of fields\<close>

fun join_fields :: "u8 \<Rightarrow> u8 list list \<Rightarrow> u8 list" where
  "join_fields sep [] = []"
| "join_fields sep [f] = f"
| "join_fields sep (f # fs) = f @ sep # join_fields sep fs"

lemma split_on_plain: "sep \<notin> set f \<Longrightarrow> split_on sep f = [f]"
  by (induction f) auto

lemma split_join: "\<lbrakk>fs \<noteq> []; \<forall>f\<in>set fs. sep \<notin> set f\<rbrakk> \<Longrightarrow> split_on sep (join_fields sep fs) = fs"
  by (induction sep fs rule: join_fields.induct) (auto simp: split_on_plain split_on_append)

lemma set_join: "set (join_fields sep fs) \<subseteq> \<Union> (set ` set fs) \<union> {sep}"
  by (induction sep fs rule: join_fields.induct) auto

section \<open>Reading back\<close>

lemma get_id_view:
  assumes "get_current_pid k c = Some pid" "view (processes k) (unat pid) = Some p"
  shows "get_id f k c = Some (f p)"
  using assms by (auto simp: get_id_def view_def nth_opt_def split: if_splits)

lemma set_id_view:
  assumes "table_ok (processes k)" "get_current_pid k c = Some pid" "view (processes k) (unat pid) = Some p"
  shows "\<exists>k'. set_id f k c = Some (0, k') \<and> view (processes k') = (view (processes k))(unat pid \<mapsto> f p)
    \<and> threads k' = threads k \<and> get_current_pid k' c = Some pid"
proof -
  obtain tb where tb: "store (processes k) (unat pid) f = Some tb"
    "view tb = (view (processes k))(unat pid \<mapsto> f p)"
    using store_ok [OF assms(1,3), of f] by blast
  have "get_current_pid (k\<lparr>processes := tb\<rparr>) c = Some pid"
    using assms(2) by (simp add: get_current_pid_def get_current_thread_id_def)
  with tb assms(2,3) show ?thesis
    by (auto simp: set_id_def change_process_def view_def nth_opt_def split: if_splits)
qed

lemma set_id_get_id:
  assumes "table_ok (processes k)" "get_current_pid k c = Some pid" "view (processes k) (unat pid) = Some p"
  shows "\<exists>k'. set_id f k c = Some (0, k') \<and> view (processes k') = (view (processes k))(unat pid \<mapsto> f p)
    \<and> threads k' = threads k \<and> get_id g k' c = Some (g (f p))"
proof -
  from set_id_view [OF assms, of f] obtain k' where k': "set_id f k c = Some (0, k')"
    "view (processes k') = (view (processes k))(unat pid \<mapsto> f p)" "threads k' = threads k"
    "get_current_pid k' c = Some pid" by blast
  from get_id_view [OF k'(4), of "f p" g] k'(2) have "get_id g k' c = Some (g (f p))" by simp
  with k' show ?thesis by blast
qed

lemmas identity_defs = sys_getuid_def sys_getgid_def sys_setuid_def sys_setgid_def sys_geteuid_def sys_getegid_def
  sys_seteuid_def sys_setegid_def sys_getreuid_def sys_getregid_def sys_setreuid_def sys_setregid_def
  sys_getresuid_def sys_getresgid_def sys_setresuid_def sys_setresgid_def

definition sets_field :: "(kernel \<Rightarrow> nat \<Rightarrow> u64 \<Rightarrow> (u64 \<times> kernel) option) \<Rightarrow> (kernel \<Rightarrow> nat \<Rightarrow> u64 option)
    \<Rightarrow> (process_info \<Rightarrow> process_info) \<Rightarrow> kernel \<Rightarrow> nat \<Rightarrow> nat \<Rightarrow> process_info \<Rightarrow> u64 \<Rightarrow> bool" where
  "sets_field setter getter upd k c pid p v \<longleftrightarrow> (\<exists>k'. setter k c v = Some (0, k')
     \<and> view (processes k') = (view (processes k))(pid \<mapsto> upd p) \<and> threads k' = threads k \<and> getter k' c = Some v)"

text \<open>
  C28.  Each of the calls that sets an identity of the current process, except the one
  for the group, succeeds, changes that field of that process and nothing else in
  the process and thread tables, and the matching query then returns the new value.
  The call for the group instead changes the user id, so that the query for the user
  id returns the group that was given and the group keeps its old value.
\<close>

theorem identities_read_back:
  assumes "table_ok (processes k)" "get_current_pid k c = Some pid" "view (processes k) (unat pid) = Some p"
  shows "sets_field sys_setuid sys_getuid (p_uid_update (\<lambda>_. v)) k c (unat pid) p v
    \<and> sets_field sys_seteuid sys_geteuid (p_euid_update (\<lambda>_. v)) k c (unat pid) p v
    \<and> sets_field sys_setegid sys_getegid (p_egid_update (\<lambda>_. v)) k c (unat pid) p v
    \<and> sets_field sys_setreuid sys_getreuid (p_reuid_update (\<lambda>_. v)) k c (unat pid) p v
    \<and> sets_field sys_setregid sys_getregid (p_regid_update (\<lambda>_. v)) k c (unat pid) p v
    \<and> sets_field sys_setresuid sys_getresuid (p_resuid_update (\<lambda>_. v)) k c (unat pid) p v
    \<and> sets_field sys_setresgid sys_getresgid (p_resgid_update (\<lambda>_. v)) k c (unat pid) p v
    \<and> sets_field sys_setgid sys_getuid (p_uid_update (\<lambda>_. v)) k c (unat pid) p v
    \<and> (\<exists>k'. sys_setgid k c v = Some (0, k') \<and> sys_getgid k' c = Some (p_gid p))"
proof -
  note set_id_get_id [OF assms]
  from this [of "p_uid_update (\<lambda>_. v)" p_gid]
  have "\<exists>k'. sys_setgid k c v = Some (0, k') \<and> sys_getgid k' c = Some (p_gid p)" by (auto simp: identity_defs)
  moreover note set_id_get_id [OF assms, of "p_uid_update (\<lambda>_. v)" p_uid] set_id_get_id [OF assms, of "p_euid_update (\<lambda>_. v)" p_euid]
    set_id_get_id [OF assms, of "p_egid_update (\<lambda>_. v)" p_egid] set_id_get_id [OF assms, of "p_reuid_update (\<lambda>_. v)" p_reuid]
    set_id_get_id [OF assms, of "p_regid_update (\<lambda>_. v)" p_regid] set_id_get_id [OF assms, of "p_resuid_update (\<lambda>_. v)" p_resuid]
    set_id_get_id [OF assms, of "p_resgid_update (\<lambda>_. v)" p_resgid]
  ultimately show ?thesis by (simp add: sets_field_def identity_defs)
qed

definition example_user_kernel :: kernel where
  "example_user_kernel = (example_kernel THREAD_READY THREAD_RUNNING 2)
     \<lparr>processes := \<lparr>slots = [0, 0, HM + 0x9000], heap = [HM + 0x9000 \<mapsto> zero_process\<lparr>p_gid := 100\<rparr>]\<rparr>\<rparr>"

theorem identities_read_back_witness:
  "sets_field sys_setuid sys_getuid (p_uid_update (\<lambda>_. 1000)) example_user_kernel 0 2 (zero_process\<lparr>p_gid := 100\<rparr>) 1000
    \<and> (\<exists>k'. sys_setgid example_user_kernel 0 1000 = Some (0, k') \<and> sys_getgid k' 0 = Some 100)"
proof -
  have a: "table_ok (processes example_user_kernel)" by code_simp
  have b: "get_current_pid example_user_kernel 0 = Some 2" by code_simp
  have c: "view (processes example_user_kernel) (unat (2 :: u64)) = Some (zero_process\<lparr>p_gid := 100\<rparr>)"
    by (simp add: view_def example_user_kernel_def HM_def)
  from identities_read_back [OF a b c, of 1000] show ?thesis by simp
qed

text \<open>
  A line of the user file whose third and fourth fields are the decimal numbers
  of a user and a group is read as these two numbers.
\<close>

theorem user_line_numbers:
  assumes "\<forall>f\<in>set fs. 58 \<notin> set f \<and> 0 \<notin> set f" "3 < length fs" "length (join_fields 58 fs) < 2 ^ 64"
    "fs ! 2 = decimal uid" "fs ! 3 = decimal gid" "0 \<le> uid" "uid < 2 ^ 63" "0 \<le> gid" "gid < 2 ^ 63"
  shows "get_uid_from_user_line (join_fields 58 fs @ 0 # rest) = Some uid
    \<and> get_gid_from_user_line (join_fields 58 fs @ 0 # rest) = Some gid"
proof -
  let ?l = "join_fields 58 fs @ 0 # rest"
  have z: "0 \<notin> set (join_fields 58 fs)" using set_join [of 58 fs] assms(1) by auto
  have c: "cstring ?l = join_fields 58 fs" using z by (simp add: cstring_append)
  have sp: "split_on 58 (join_fields 58 fs) = fs" using assms(1,2) by (intro split_join) auto
  have "number_field i ?l = Some n"
    if "0 < i" "i < length fs" "fs ! i = decimal n" "0 \<le> n" "n < 2 ^ 63" for i n
  proof -
    have "get_str_at_lv ?l i (replicate 32 0) = Some (True, decimal n @ 0 # drop (Suc (length (decimal n))) (replicate 32 0))"
      using that assms(3) length_decimal [OF that(5)] put_all_0 [of "decimal n @ [0]" "replicate 32 0"]
      by (simp add: get_str_at_lv_def field_at_spec c sp terminated_def)
    then show ?thesis by (simp add: number_field_def str_to_int_decimal [OF that(4,5)])
  qed
  then show ?thesis using assms by (simp add: get_uid_from_user_line_def get_gid_from_user_line_def)
qed

text \<open>The line \<^verbatim>\<open>ann:x:1000:27:\<close>.\<close>

theorem user_line_numbers_witness:
  "get_uid_from_user_line [97, 110, 110, 58, 120, 58, 49, 48, 48, 48, 58, 50, 55, 58, 0] = Some 1000
    \<and> get_gid_from_user_line [97, 110, 110, 58, 120, 58, 49, 48, 48, 48, 58, 50, 55, 58, 0] = Some 27"
proof -
  have d: "decimal 1000 = [49, 48, 48, 48]" "decimal 27 = [50, 55]" by code_simp+
  show ?thesis
    using user_line_numbers [of "[[97, 110, 110], [120], decimal 1000, decimal 27, []]" 1000 27 "[]"]
    by (simp add: d)
qed

section \<open>Users that are never loaded\<close>

text \<open>
  Reading a file gives 0 or a negative error code, so that \<^const>\<open>init_user\<close> always
  stops before it looks at the lines: the table keeps its contents.
\<close>

lemma read_file_never_positive:
  "read_file rd mounts child path buf start count = Some (r, b) \<Longrightarrow> r \<le> 0"
  by (auto simp: read_file_def with_mount_def bind_eq_Some_conv split: option.splits if_splits)

lemma init_user_loads_nothing:
  "init_user rd mounts child user_file users = Some users' \<Longrightarrow> users' = users"
  by (auto simp: init_user_def bind_eq_Some_conv split: if_splits dest: read_file_never_positive)

section \<open>Permissions that are never refused\<close>

lemma mode_test_positive: "bits > 0 \<Longrightarrow> mode_test (get_mode_file path) bits"
  by (simp add: mode_test_def get_mode_file_def)

lemma access_never_refused:
  assumes "sys_geteuid k c = Some euid" "sys_getegid k c = Some egid"
  shows "allow_read_path k c path = Some True \<and> allow_write_path k c path = Some True \<and> allow_exec_path k c path = Some True"
  using assms mode_test_positive
  by (simp add: allow_read_path_def allow_write_path_def allow_exec_path_def allow_path_def Let_def)

end
