(* ===== verification/Inet.thy ===== *)
theory Inet
  imports Objects Memlib Cstring Timekeeping Frames
begin

text \<open>
  The internet layer of \<^verbatim>\<open>src/core/network/network.h\<close> and
  \<^verbatim>\<open>src/core/network/af_inet/af_inet.h\<close>: addresses and masks, the checksum, the cache of
  hardware addresses, routes, ports, and the handlers of ARP requests and echo
  requests.

  A frame is the list of its bytes.  The handlers send at most one frame, as their last
  action, and return it.  The clock is read as one value \<open>now\<close> per call.
\<close>

section \<open>Structures\<close>

datatype ip_status = IP_NOT_EXISTS | IP_PENDING | IP_ASSIGNED

record ip_t =
  addr_h :: u64
  addr_l :: u64
  ip_ver :: u8
  masklen :: u8
  ip_state :: ip_status
  init_time :: timeval

record nic_t =
  nic_type :: u16
  nic_mac :: "u8 list"
  nic_ip :: "ip_t list"
  nic_gateway :: u32
  mmio_base :: u64

datatype net_state_t = NET_STATE_CLOSED | NET_STATE_LISTEN | NET_STATE_SYN_SENT | NET_STATE_SYN_RECEIVED
  | NET_STATE_ESTABLISHED | NET_STATE_FIN_WAIT_1 | NET_STATE_FIN_WAIT_2 | NET_STATE_CLOSE_WAIT
  | NET_STATE_CLOSING | NET_STATE_LAST_ACK | NET_STATE_TIME_WAIT

record net_tuple =
  local_ip_h :: u64
  local_ip_l :: u64
  remote_ip_h :: u64
  remote_ip_l :: u64
  local_port :: u32
  remote_port :: u32
  protocol :: u16
  nt_version :: u8
  nt_state :: net_state_t
  last_updated_time_us :: timeval
  xid :: u32
  recv_wait_flag :: u64
  nt_head :: u64
  nt_tail :: u64
  receive_blocking :: bool

record mac_cache_v4_entry =
  mc_ip :: u32
  mc_mac :: "u8 list"
  mc_nic_id :: u64
  mc_timestamp :: u64

record route_entry =
  r_dest :: u32
  r_netmask :: u32
  r_gateway :: u32
  r_nic_id :: u64

record inet =
  nic_global :: "nic_t table"
  mac_cache_v4 :: "mac_cache_v4_entry list"
  route_table_v4 :: "route_entry list"
  next_ephemeral_port :: u16

section \<open>Connections\<close>

text \<open>\<open>same\<close> says that the two arguments are the same pointer; a null pointer is \<^const>\<open>None\<close>.\<close>

definition net_tuple_match_v4 :: "bool \<Rightarrow> net_tuple option \<Rightarrow> net_tuple option \<Rightarrow> bool" where
  "net_tuple_match_v4 same src target = (if same then True else (case (src, target) of
     (Some s, Some t) \<Rightarrow>
       if protocol s \<noteq> protocol t then False
       else if local_ip_l s \<noteq> local_ip_l t \<and> local_ip_l t \<noteq> 0 then False
       else if local_port s \<noteq> local_port t then False
       else if remote_ip_l s \<noteq> remote_ip_l t \<and> remote_ip_l t \<noteq> 0 then False
       else if remote_port s \<noteq> remote_port t \<and> remote_port t \<noteq> 0 then False
       else if nt_version s \<noteq> nt_version t then False
       else True
   | _ \<Rightarrow> False))"

definition net_tuple_equal_v4 :: "bool \<Rightarrow> net_tuple option \<Rightarrow> net_tuple option \<Rightarrow> bool" where
  "net_tuple_equal_v4 same src target = (if same then True else (case (src, target) of
     (Some s, Some t) \<Rightarrow>
       if nt_state s = NET_STATE_LISTEN then False
       else if protocol s \<noteq> protocol t then False
       else if local_ip_l s \<noteq> local_ip_l t then False
       else if local_port s \<noteq> local_port t then False
       else if remote_ip_l s \<noteq> remote_ip_l t then False
       else if remote_port s \<noteq> remote_port t then False
       else if nt_version s \<noteq> nt_version t then False
       else True
   | _ \<Rightarrow> False))"

section \<open>Interfaces and masks\<close>

text \<open>
  The loop runs to 4096 although an interface has 101 addresses: without an address
  of version 4 it reads past the structure.
\<close>

fun first_ver4 :: "ip_t list \<Rightarrow> u32 option" where
  "first_ver4 [] = None"
| "first_ver4 (ip # ips) = (if ip_ver ip = 4 then Some (ucast (addr_l ip)) else first_ver4 ips)"

definition find_1st_ipv4 :: "nic_t \<Rightarrow> u32 option" where
  "find_1st_ipv4 nic = first_ver4 (nic_ip nic)"

text \<open>\<open>raw\<close> is what the new block holds; only the hardware address and the type are written.\<close>

definition register_nic :: "inet \<Rightarrow> u64 \<Rightarrow> nic_t \<Rightarrow> u8 list \<Rightarrow> (u64 \<times> inet) option" where
  "register_nic n new_block raw mac_input = do {
     nic_id \<leftarrow> get_a_free_slot (slots (nic_global n)) 1 512;
     if nic_id = - 1 then Some (- 1, n)
     else if length mac_input < 6 then None
     else do {
       nics \<leftarrow> install (nic_global n) (unat nic_id) new_block (raw\<lparr>nic_mac := take 6 mac_input, nic_type := 1\<rparr>);
       Some (nic_id, n\<lparr>nic_global := nics\<rparr>) } }"

definition in_l2 :: "u32 \<Rightarrow> u32 \<Rightarrow> u32 \<Rightarrow> bool" where
  "in_l2 ip_a ip_b netmask \<longleftrightarrow> ip_a AND netmask = ip_b AND netmask"

fun mask_bits :: "u32 \<Rightarrow> nat \<Rightarrow> nat \<Rightarrow> u8" where
  "mask_bits tmp i 0 = of_nat i"
| "mask_bits tmp i (Suc k) = (if bit tmp i then mask_bits tmp (Suc i) k else of_nat i)"

text \<open>The mask is given as a word; the loop tests \<^verbatim>\<open>tmp & (1 << i)\<close>.\<close>

definition netmask_to_char :: "u32 \<Rightarrow> u8" where
  "netmask_to_char tmp = mask_bits tmp 0 32"

text \<open>A length above 32 shifts a 32 bit number by its width or more, which C does not define.\<close>

fun set_bits_from :: "u32 \<Rightarrow> nat \<Rightarrow> nat \<Rightarrow> u32" where
  "set_bits_from tmp i 0 = tmp"
| "set_bits_from tmp i (Suc k) = set_bits_from (tmp OR push_bit i 1) (Suc i) k"

definition char_to_netmask :: "u8 \<Rightarrow> u32 option" where
  "char_to_netmask n = (if n \<le> 32 then Some (set_bits_from 0 0 (unat n)) else None)"

fun ip_index :: "u32 \<Rightarrow> ip_t list \<Rightarrow> nat \<Rightarrow> u64" where
  "ip_index res_ip [] i = - 1"
| "ip_index res_ip (ip # ips) i = (if ucast (addr_l ip) = res_ip then of_nat i else ip_index res_ip ips (Suc i))"

definition find_ipv4_of_nic :: "inet \<Rightarrow> u64 \<Rightarrow> u32 \<Rightarrow> u64 option" where
  "find_ipv4_of_nic n nic_id res_ip = do {
     nic \<leftarrow> deref (nic_global n) (unat nic_id);
     Some (ip_index res_ip (take 101 (nic_ip nic)) 0) }"

definition set_ip :: "inet \<Rightarrow> u64 \<Rightarrow> u64 \<Rightarrow> (ip_t \<Rightarrow> ip_t) \<Rightarrow> inet option" where
  "set_ip n nic_id ip_id f = do {
     nics \<leftarrow> store (nic_global n) (unat nic_id) (\<lambda>nic. nic\<lparr>nic_ip := (nic_ip nic)[unat ip_id := f (nic_ip nic ! unat ip_id)]\<rparr>);
     Some (n\<lparr>nic_global := nics\<rparr>) }"

definition get_ip :: "inet \<Rightarrow> u64 \<Rightarrow> u64 \<Rightarrow> ip_t option" where
  "get_ip n nic_id ip_id = do { nic \<leftarrow> deref (nic_global n) (unat nic_id); nth_opt (nic_ip nic) (unat ip_id) }"

definition check_ipv4 :: "inet \<Rightarrow> timeval \<Rightarrow> u64 \<Rightarrow> u32 \<Rightarrow> (bool \<times> inet) option" where
  "check_ipv4 n now nic_id ip = do {
     matched_id \<leftarrow> find_ipv4_of_nic n nic_id ip;
     if matched_id = - 1 then Some (False, n)
     else do {
       a \<leftarrow> get_ip n nic_id matched_id;
       if ip_state a = IP_ASSIGNED then Some (True, n)
       else if later_eq (add_time_us (init_time a) 1000000) now then Some (False, n)
       else do {
         n' \<leftarrow> set_ip n nic_id matched_id (\<lambda>a. a\<lparr>ip_state := IP_ASSIGNED\<rparr>);
         Some (True, n') } } }"

fun nic_with_ip :: "u32 \<Rightarrow> ip_t list \<Rightarrow> bool" where
  "nic_with_ip src_ip [] = False"
| "nic_with_ip src_ip (a # ips) = (if addr_l a = 0 then nic_with_ip src_ip ips
     else if ucast src_ip = addr_l a \<and> ip_ver a = 4 then True else nic_with_ip src_ip ips)"

definition find_nic_id_by_ipv4 :: "inet \<Rightarrow> u32 \<Rightarrow> u64 option" where
  "find_nic_id_by_ipv4 n src_ip = (if src_ip = 0 then Some 1
     else map_option (\<lambda>r. case r of None \<Rightarrow> - 1 | Some i \<Rightarrow> of_nat i)
       (find_from 243 0 (\<lambda>_ nic. nic_with_ip src_ip (take 101 (nic_ip nic))) (nic_global n)))"

section \<open>The checksum\<close>

text \<open>The sum of the 16 bit words, read with the low byte first, and a last odd byte.\<close>

fun sum16 :: "u32 \<Rightarrow> u8 list \<Rightarrow> u32" where
  "sum16 acc [] = acc"
| "sum16 acc [a] = acc + ucast a"
| "sum16 acc (a # b # data) = sum16 (acc + ucast (ucast a OR push_bit 8 (ucast b) :: u16)) data"

lemma fold16_decreases:
  assumes "drop_bit 16 (acc :: u32) \<noteq> 0"
  shows "unat ((acc AND 0xFFFF) + drop_bit 16 acc) < unat acc"
    "unat ((acc AND 0xFFFF) + drop_bit 16 acc) = unat acc mod 65536 + unat acc div 65536"
proof -
  have "acc AND 0xFFFF = take_bit 16 acc" by (simp add: take_bit_eq_mask mask_numeral)
  then have a: "unat (acc AND 0xFFFF) = unat acc mod 65536"
    by (simp add: take_bit_eq_mod unat_mod)
  have b: "unat (drop_bit 16 acc) = unat acc div 65536" by (simp add: drop_bit_eq_div unat_div)
  have "unat acc < 2 ^ 32" using unat_bound [of acc] by simp
  then have c: "unat acc mod 65536 + unat acc div 65536 < 2 ^ 32" by simp
  then show e: "unat ((acc AND 0xFFFF) + drop_bit 16 acc) = unat acc mod 65536 + unat acc div 65536"
    using a b by (simp add: unat_word_ariths)
  have "0 < unat acc div 65536" using assms b by (metis gr0I unat_eq_zero)
  moreover have "unat acc = 65536 * (unat acc div 65536) + unat acc mod 65536" by simp
  ultimately show "unat ((acc AND 0xFFFF) + drop_bit 16 acc) < unat acc" unfolding e by linarith
qed

function fold16 :: "u32 \<Rightarrow> u32" where
  "fold16 acc = (if drop_bit 16 acc \<noteq> 0 then fold16 ((acc AND 0xFFFF) + drop_bit 16 acc) else acc)"
  by pat_completeness auto
termination by (relation "measure unat") (auto intro: fold16_decreases)

declare fold16.simps [simp del]

definition network_checksum :: "u8 list \<Rightarrow> nat \<Rightarrow> u16 option" where
  "network_checksum buf len = (if len \<le> length buf then Some (ucast (NOT (fold16 (sum16 0 (take len buf))))) else None)"

section \<open>The cache of hardware addresses\<close>

definition empty_line :: mac_cache_v4_entry where
  "empty_line = \<lparr>mc_ip = 0, mc_mac = replicate 6 0, mc_nic_id = 0, mc_timestamp = 0\<rparr>"

definition add_cache_mac_v4_line :: "mac_cache_v4_entry list \<Rightarrow> timeval \<Rightarrow> nat \<Rightarrow> u32 \<Rightarrow> u8 list \<Rightarrow> u64 \<Rightarrow> mac_cache_v4_entry list option" where
  "add_cache_mac_v4_line cache now i ip mac nic_id =
     (if length mac < 6 then None
      else upd_opt cache i \<lparr>mc_ip = ip, mc_mac = take 6 mac, mc_nic_id = nic_id, mc_timestamp = tv_sec now\<rparr>)"

definition remove_cache_mac_v4 :: "mac_cache_v4_entry list \<Rightarrow> nat \<Rightarrow> mac_cache_v4_entry list option" where
  "remove_cache_mac_v4 cache i = upd_opt cache i empty_line"

text \<open>The first loop; the flag says that it stopped at an entry that is already there.\<close>

fun expire_lines :: "nat \<Rightarrow> nat \<Rightarrow> u64 \<Rightarrow> u32 \<Rightarrow> u8 list \<Rightarrow> mac_cache_v4_entry list \<Rightarrow> (bool \<times> mac_cache_v4_entry list) option" where
  "expire_lines 0 i limit ip mac cache = Some (False, cache)"
| "expire_lines (Suc k) i limit ip mac cache = do {
     e \<leftarrow> nth_opt cache i;
     if mc_timestamp e \<le> limit then do {
       cache' \<leftarrow> remove_cache_mac_v4 cache i;
       expire_lines k (Suc i) limit ip mac cache' }
     else if mc_ip e = ip \<and> mc_mac e = take 6 mac then Some (True, cache)
     else expire_lines k (Suc i) limit ip mac cache }"

fun earliest_line :: "nat \<Rightarrow> nat \<Rightarrow> u64 \<Rightarrow> nat \<Rightarrow> mac_cache_v4_entry list \<Rightarrow> nat option" where
  "earliest_line 0 i earliest_timestamp earliest_i cache = Some earliest_i"
| "earliest_line (Suc k) i earliest_timestamp earliest_i cache = do {
     e \<leftarrow> nth_opt cache i;
     if mc_timestamp e < earliest_timestamp then earliest_line k (Suc i) (mc_timestamp e) i cache
     else earliest_line k (Suc i) earliest_timestamp earliest_i cache }"

fun free_line :: "nat \<Rightarrow> nat \<Rightarrow> mac_cache_v4_entry list \<Rightarrow> nat option option" where
  "free_line 0 i cache = Some None"
| "free_line (Suc k) i cache = do {
     e \<leftarrow> nth_opt cache i;
     if mc_ip e = 0 then Some (Some i) else free_line k (Suc i) cache }"

definition add_cache_mac_v4 :: "mac_cache_v4_entry list \<Rightarrow> timeval \<Rightarrow> u32 \<Rightarrow> u8 list \<Rightarrow> u64 \<Rightarrow> (u64 \<times> mac_cache_v4_entry list) option" where
  "add_cache_mac_v4 cache now ip mac nic_id = do {
     (found, cache1) \<leftarrow> expire_lines 243 0 (tv_sec (subtract_time_us now 60000)) ip mac cache;
     if found then Some (- 1, cache1)
     else do {
       free \<leftarrow> free_line 243 0 cache1;
       i \<leftarrow> (case free of Some i \<Rightarrow> Some i | None \<Rightarrow> earliest_line 243 0 (tv_sec now) 0 cache1);
       cache2 \<leftarrow> add_cache_mac_v4_line cache1 now i ip mac nic_id;
       Some (of_nat i, cache2) } }"

fun cached_mac :: "nat \<Rightarrow> nat \<Rightarrow> timeval \<Rightarrow> u32 \<Rightarrow> mac_cache_v4_entry list \<Rightarrow> u8 list option option" where
  "cached_mac 0 i now ip cache = Some None"
| "cached_mac (Suc k) i now ip cache = do {
     e \<leftarrow> nth_opt cache i;
     if mc_ip e = ip \<and> mc_timestamp e > tv_sec now - 60 then Some (Some (mc_mac e))
     else cached_mac k (Suc i) now ip cache }"

section \<open>Addresses in text\<close>

fun ip_scan :: "u8 list \<Rightarrow> u32 \<Rightarrow> u32 \<Rightarrow> nat \<Rightarrow> u32 option" where
  "ip_scan [] result octet dots = None"
| "ip_scan (c # ip_str) result octet dots =
     (if c = 0 then Some (if dots \<noteq> 3 then 0 else push_bit 8 result OR octet)
      else if 48 \<le> c \<and> c \<le> 57 then
        (let octet' = octet * 10 + ucast (c - 48) in if octet' > 255 then Some 0 else ip_scan ip_str result octet' dots)
      else if c = 46 then
        (if Suc dots > 3 then Some 0 else ip_scan ip_str (push_bit 8 result OR octet) 0 (Suc dots))
      else Some 0)"

definition ip_str_to_int :: "u8 list \<Rightarrow> u32 option" where
  "ip_str_to_int ip_str = ip_scan ip_str 0 0 0"

section \<open>Ports\<close>

text \<open>Only the first 4096 of the sockets are looked at.\<close>

definition port_in_use :: "net_tuple table \<Rightarrow> u32 \<Rightarrow> u16 \<Rightarrow> u16 \<Rightarrow> u64 option" where
  "port_in_use sockets ip port proto =
     map_option (\<lambda>r. if r = None then 0 else 1)
       (find_from 4096 0 (\<lambda>_ t. protocol t = proto \<and> local_port t = ucast port
          \<and> (local_ip_l t = ucast ip \<or> local_ip_l t = 0)) sockets)"

text \<open>
  The port counter has 16 bits: the test whether it is above 65535 never succeeds,
  and after the last port it continues at 0.
\<close>

fun high_port :: "nat \<Rightarrow> net_tuple table \<Rightarrow> u16 \<Rightarrow> u16 \<Rightarrow> (u16 \<times> u16) option" where
  "high_port 0 sockets proto next_port = Some (0, next_port)"
| "high_port (Suc k) sockets proto next_port = do {
     used \<leftarrow> port_in_use sockets 0 next_port proto;
     if used = 0 then Some (next_port, next_port + 1) else high_port k sockets proto (next_port + 1) }"

definition allocate_random_high_port :: "net_tuple table \<Rightarrow> inet \<Rightarrow> u16 \<Rightarrow> (u16 \<times> inet) option" where
  "allocate_random_high_port sockets n proto = do {
     (port, next_port) \<leftarrow> high_port 16383 sockets proto (next_ephemeral_port n);
     Some (port, n\<lparr>next_ephemeral_port := next_port\<rparr>) }"

section \<open>Routes\<close>

text \<open>
  The table has room for 1706 entries of 24 bytes.  \<^verbatim>\<open>add_route\<close> passes this number
  where the search for a free slot expects a size in bytes, so that only the first 71
  entries are looked at; without a free one the kernel stops.  An entry is free when
  all its bytes are 0.
\<close>

definition free_route :: "route_entry \<Rightarrow> bool" where
  "free_route r \<longleftrightarrow> r_dest r = 0 \<and> r_netmask r = 0 \<and> r_gateway r = 0 \<and> r_nic_id r = 0"

definition add_route :: "route_entry list \<Rightarrow> u32 \<Rightarrow> u32 \<Rightarrow> u32 \<Rightarrow> u64 \<Rightarrow> (bool \<times> route_entry list) option" where
  "add_route routes dest netmask gateway nic_id = do {
     route_id \<leftarrow> first_from (1706 div 24) 0 (\<lambda>i. i < length routes \<and> free_route (routes ! i));
     routes' \<leftarrow> upd_opt routes route_id \<lparr>r_dest = dest, r_netmask = netmask, r_gateway = gateway, r_nic_id = nic_id\<rparr>;
     Some (True, routes') }"

definition del_route :: "route_entry list \<Rightarrow> u32 \<Rightarrow> u32 \<Rightarrow> bool \<times> route_entry list" where
  "del_route routes dest netmask =
     (case first_from (length routes) 0 (\<lambda>i. r_dest (routes ! i) = dest \<and> r_netmask (routes ! i) = netmask) of
        None \<Rightarrow> (False, routes)
      | Some i \<Rightarrow> (True, routes[i := \<lparr>r_dest = 0, r_netmask = 0, r_gateway = 0, r_nic_id = 0\<rparr>]))"

fun best_route :: "u32 \<Rightarrow> route_entry list \<Rightarrow> route_entry option \<Rightarrow> u32 \<Rightarrow> route_entry option" where
  "best_route dest_ip [] best best_mask = best"
| "best_route dest_ip (r # routes) best best_mask =
     (if r_dest r \<noteq> 0 \<and> r_netmask r \<noteq> 0 \<and> dest_ip AND r_netmask r = r_dest r AND r_netmask r \<and> r_netmask r \<ge> best_mask
      then best_route dest_ip routes (Some r) (r_netmask r)
      else best_route dest_ip routes best best_mask)"

definition find_route :: "route_entry list \<Rightarrow> u32 \<Rightarrow> route_entry option" where
  "find_route routes dest_ip = best_route dest_ip routes None 0"

definition find_route_n_gate :: "route_entry list \<Rightarrow> u32 \<Rightarrow> route_entry option" where
  "find_route_n_gate routes dest_ip = (case best_route dest_ip routes None 0 of
     None \<Rightarrow> find (\<lambda>r. r_dest r = 0 \<and> r_netmask r = 0) routes
   | Some r \<Rightarrow> Some r)"

definition find_first_gateway :: "inet \<Rightarrow> u32 option" where
  "find_first_gateway n = do {
     r \<leftarrow> find_from 512 0 (\<lambda>_ nic. nic_gateway nic \<noteq> 0) (nic_global n);
     case r of None \<Rightarrow> Some 0 | Some i \<Rightarrow> map_option nic_gateway (deref (nic_global n) i) }"

definition get_next_hop :: "inet \<Rightarrow> u32 \<Rightarrow> u32 option" where
  "get_next_hop n dest_ip = (case find_route (route_table_v4 n) dest_ip of
     Some r \<Rightarrow> Some (r_gateway r)
   | None \<Rightarrow> do { gateway \<leftarrow> find_first_gateway n; Some (if gateway \<noteq> 0 then gateway else dest_ip) })"

section \<open>Frames\<close>

text \<open>The Ethernet header and the ARP packet of 28 bytes behind it, field by field.\<close>

definition arp_frame :: "u8 list \<Rightarrow> u8 list \<Rightarrow> u16 \<Rightarrow> u8 list \<Rightarrow> u8 list \<Rightarrow> u8 list \<Rightarrow> u8 list \<Rightarrow> u8 list" where
  "arp_frame dst src oper sha spa tha tpa =
     dst @ src @ le16 (htons 0x0806)
     @ le16 (htons 1) @ le16 (htons 0x0800) @ [6, 4] @ le16 (htons oper) @ sha @ spa @ tha @ tpa"

definition send_arp :: "inet \<Rightarrow> u32 \<Rightarrow> u64 \<Rightarrow> bool \<Rightarrow> (u8 list option) option" where
  "send_arp n ip nic_id ip_registered = do {
     this_nic \<leftarrow> deref (nic_global n) (unat nic_id);
     my_mac \<leftarrow> read_bytes (nic_mac this_nic) 0 6;
     target_ip \<leftarrow> get_next_hop n ip;
     if target_ip = 0 then Some None
     else do {
       own \<leftarrow> (if ip_registered then find_1st_ipv4 this_nic else Some 0);
       Some (Some (arp_frame (replicate 6 0xFF) my_mac 1 my_mac (le32 (htonl own)) (replicate 6 0) (le32 (htonl target_ip)))) } }"

section \<open>Looking up a hardware address\<close>

text \<open>The result and the request that is sent when the address is not known.\<close>

definition find_mac_of_ipv4_l2 :: "inet \<Rightarrow> timeval \<Rightarrow> u32 \<Rightarrow> u64 \<Rightarrow> (u8 list option \<times> u8 list option) option" where
  "find_mac_of_ipv4_l2 n now ip nic_id = do {
     r \<leftarrow> cached_mac 243 0 now ip (mac_cache_v4 n);
     case r of
       Some mac \<Rightarrow> Some (Some mac, None)
     | None \<Rightarrow> do { request \<leftarrow> send_arp n ip nic_id True; Some (None, request) } }"

definition find_mac_of_ipv4_l3 :: "inet \<Rightarrow> timeval \<Rightarrow> u32 \<Rightarrow> u64 \<Rightarrow> (u8 list option \<times> u8 list option) option" where
  "find_mac_of_ipv4_l3 n now ip nic_id = (case find_route (route_table_v4 n) ip of
     Some route \<Rightarrow> find_mac_of_ipv4_l2 n now (r_gateway route) nic_id
   | None \<Rightarrow> do {
       gateway \<leftarrow> find_first_gateway n;
       if gateway = 0 then Some (None, None) else find_mac_of_ipv4_l2 n now gateway nic_id })"

definition find_mac_of_ipv4 :: "inet \<Rightarrow> timeval \<Rightarrow> u32 \<Rightarrow> u64 \<Rightarrow> (u8 list option \<times> u8 list option) option" where
  "find_mac_of_ipv4 n now ip nic_id = do {
     a \<leftarrow> get_ip n nic_id 0;
     netmask \<leftarrow> char_to_netmask (masklen a);
     if in_l2 ip (ucast (addr_l a)) netmask then find_mac_of_ipv4_l2 n now ip nic_id
     else find_mac_of_ipv4_l3 n now ip nic_id }"

section \<open>Handlers\<close>

definition learn_mac :: "inet \<Rightarrow> timeval \<Rightarrow> u32 \<Rightarrow> u8 list \<Rightarrow> u64 \<Rightarrow> inet option" where
  "learn_mac n now ip mac nic_id = do {
     (_, cache) \<leftarrow> add_cache_mac_v4 (mac_cache_v4 n) now ip mac nic_id;
     Some (n\<lparr>mac_cache_v4 := cache\<rparr>) }"

definition handle_arp :: "inet \<Rightarrow> timeval \<Rightarrow> u64 \<Rightarrow> u8 list \<Rightarrow> (u8 list option \<times> inet) option" where
  "handle_arp n now nic_id buf = do {
     eth_src \<leftarrow> read_bytes buf 6 6;
     sha \<leftarrow> read_bytes buf 22 6;
     spa \<leftarrow> read32 buf 28;
     tpa \<leftarrow> read32 buf 38;
     oper' \<leftarrow> read16 buf 20;
     let oper = ntohs oper';
     let target_ip = ntohl tpa;
     if oper = 2 then do { n' \<leftarrow> learn_mac n now (ntohl spa) eth_src nic_id; Some (None, n') }
     else if oper \<noteq> 1 then Some (None, n)
     else do {
       matched_id \<leftarrow> find_ipv4_of_nic n nic_id target_ip;
       if matched_id = - 1 then do { n' \<leftarrow> learn_mac n now target_ip eth_src nic_id; Some (None, n') }
       else do {
         a \<leftarrow> get_ip n nic_id matched_id;
         if later_eq (add_time_us (init_time a) 1000000) now then do {
           n' \<leftarrow> set_ip n nic_id matched_id (\<lambda>a. a\<lparr>addr_h := 0, addr_l := 0, init_time := \<lparr>tv_sec = 0, tv_microsec = 0\<rparr>,
             ip_state := IP_NOT_EXISTS, ip_ver := 0\<rparr>);
           Some (None, n') }
         else do {
           n' \<leftarrow> set_ip n nic_id matched_id (\<lambda>a. a\<lparr>ip_state := IP_ASSIGNED\<rparr>);
           nic \<leftarrow> deref (nic_global n') (unat nic_id);
           mac \<leftarrow> read_bytes (nic_mac nic) 0 6;
           Some (Some (arp_frame sha mac 2 mac (le32 (htonl target_ip)) sha (le32 spa)), n') } } } }"

text \<open>
  The reply is built in a local array of 2048 bytes with the contents \<open>stack\<close>.  The length
  of the checksummed part is an unsigned difference: a shorter frame makes it wrap and
  the loop leave the array.
\<close>

definition handle_ping_v4 :: "u8 list \<Rightarrow> u8 list \<Rightarrow> nat \<Rightarrow> u8 list option option" where
  "handle_ping_v4 stack buf buf_len = do {
     type \<leftarrow> nth_opt buf 34;
     if type \<noteq> 8 then Some None
     else do {
       request \<leftarrow> read_bytes buf 0 buf_len;
       r0 \<leftarrow> (if buf_len \<le> length stack then Some (put_slice 0 request stack) else None);
       dst \<leftarrow> read_bytes r0 0 6;
       src \<leftarrow> read_bytes r0 6 6;
       let r1 = put_slice 6 dst (put_slice 0 src r0);
       ip_src \<leftarrow> read_bytes r1 26 4;
       ip_dst \<leftarrow> read_bytes r1 30 4;
       let r2 = put_slice 26 ip_dst (put_slice 30 ip_src r1);
       let r3 = put_slice 36 [0, 0] (r2[34 := 0]);
       check \<leftarrow> (if buf_len < 34 then None else network_checksum (drop 34 r3) (buf_len - 34));
       Some (Some (take buf_len (put_slice 36 (le16 check) r3))) } }"

section \<open>The checksum verifies\<close>

fun word_sum :: "u8 list \<Rightarrow> nat" where
  "word_sum [] = 0"
| "word_sum [a] = unat a"
| "word_sum (a # b # data) = unat a + 256 * unat b + word_sum data"

lemma unat_byte: "unat (b :: u8) \<le> 255"
  using unat_bound [of b] by simp

lemma unat_ucast_mod: "unat (ucast (w :: 'a :: len word) :: 'b :: len word) = unat w mod 2 ^ LENGTH('b)"
  by (simp add: unsigned_ucast_eq take_bit_eq_mod)

lemma unat_pair: "unat (ucast (ucast a OR push_bit 8 (ucast b) :: u16) :: u32) = unat (a :: u8) + 256 * unat (b :: u8)"
proof -
  have "(ucast a :: u16) OR push_bit 8 (ucast b) = ucast a + push_bit 8 (ucast b)"
    by (rule disjunctive_add [symmetric]) (auto simp: bit_simps dest: bit_imp_le_length)
  then show ?thesis using unat_byte [of a] unat_byte [of b]
    by (simp add: unat_ucast_mod unat_word_ariths push_bit_eq_mult)
qed

lemma word_sum_bound: "word_sum xs \<le> 65535 * ((length xs + 1) div 2)"
proof (induction xs rule: word_sum.induct)
  case (2 a)
  then show ?case using unat_byte [of a] by simp
next
  case (3 a b data)
  then show ?case using unat_byte [of a] unat_byte [of b] by simp
qed simp

lemma sum16_spec: "unat acc + word_sum xs < 2 ^ 32 \<Longrightarrow> unat (sum16 acc xs) = unat acc + word_sum xs"
proof (induction acc xs rule: sum16.induct)
  case (2 acc a)
  then show ?case by (simp add: unat_word_ariths unat_ucast_mod)
next
  case (3 acc a b data)
  let ?w = "ucast (ucast a OR push_bit 8 (ucast b) :: u16) :: u32"
  have e: "unat (acc + ?w) = unat acc + (unat a + 256 * unat b)"
    using 3(2) by (simp add: unat_word_ariths unat_pair)
  have "unat (acc + ?w) + word_sum data < 2 ^ 32" unfolding e using 3(2) by simp
  from 3(1) [OF this] show ?case by (simp add: e)
qed simp

lemma fold16_spec:
  "unat (fold16 acc) < 65536 \<and> unat (fold16 acc) mod 65535 = unat acc mod 65535 \<and> (unat (fold16 acc) = 0 \<longleftrightarrow> unat acc = 0)"
proof (induction acc rule: fold16.induct)
  case (1 acc)
  show ?case
  proof (cases "drop_bit 16 acc = 0")
    case True
    then have "unat acc div 65536 = 0" by (simp add: drop_bit_eq_div unat_div flip: unat_eq_zero)
    with True show ?thesis by (subst (1 2 3) fold16.simps) simp
  next
    case False
    let ?a = "(acc AND 0xFFFF) + drop_bit 16 acc"
    have u: "unat ?a = unat acc mod 65536 + unat acc div 65536" by (rule fold16_decreases(2) [OF False])
    have q: "unat acc = 65536 * (unat acc div 65536) + unat acc mod 65536" by simp
    have "unat acc = unat ?a + 65535 * (unat acc div 65536)" using u q by linarith
    then have "unat ?a mod 65535 = unat acc mod 65535" by (metis mod_mult_self2)
    moreover have "unat ?a = 0 \<longleftrightarrow> unat acc = 0" using u q by linarith
    ultimately show ?thesis using 1 [OF False] False by (subst (1 2 3) fold16.simps) simp
  qed
qed

lemma word_sum_put:
  assumes "even k" "k + 1 < length xs" "xs ! k = 0" "xs ! (k + 1) = 0"
  shows "word_sum (put_slice k [a, b] xs) = word_sum xs + unat a + 256 * unat b"
  using assms
proof (induction xs arbitrary: k rule: word_sum.induct)
  case (3 c d data)
  show ?case
  proof (cases k)
    case 0
    with 3 show ?thesis by (simp add: put_slice_def)
  next
    case (Suc j)
    with 3(2) obtain k' where k: "k = Suc (Suc k')" by (cases j) auto
    have "put_slice k [a, b] (c # d # data) = c # d # put_slice k' [a, b] data" by (simp add: put_slice_def k)
    with 3(1) [of k'] 3(2-) k show ?thesis by simp
  qed
qed auto

lemma checksum_value:
  assumes "unat s < 65536"
  shows "unat (ucast (NOT (s :: u32)) :: u16) = 65535 - unat s"
proof -
  have "NOT s = - 1 - s" by (simp add: not_eq_complement)
  then have "unat (NOT s) = 2 ^ 32 - 1 - unat s"
  proof -
    have m: "unat (- 1 :: u32) = 2 ^ 32 - 1" by (simp add: unsigned_minus_1_eq_mask mask_eq_exp_minus_1)
    have "s \<le> - 1" by simp
    then show ?thesis using \<open>NOT s = - 1 - s\<close> m by (simp only: unat_sub)
  qed
  moreover have "2 ^ 32 - 1 - unat s = 65535 - unat s + 65536 * 65535" using assms by simp
  ultimately have "unat (NOT s) mod 65536 = (65535 - unat s) mod 65536" by (metis mod_mult_self2)
  then show ?thesis by (simp add: unat_ucast_mod)
qed

lemma checksum_complement:
  assumes "unat s' = unat s + unat (ucast (NOT (fold16 s)) :: u16)"
  shows "(ucast (NOT (fold16 s')) :: u16) = 0"
proof -
  note f = fold16_spec [of s] and f' = fold16_spec [of s']
  have c: "unat (ucast (NOT (fold16 s)) :: u16) = 65535 - unat (fold16 s)" using f by (intro checksum_value) simp
  have "unat s' mod 65535 = (unat s mod 65535 + (65535 - unat (fold16 s))) mod 65535"
    unfolding assms c by (simp only: mod_add_left_eq)
  also have "\<dots> = (unat (fold16 s) mod 65535 + (65535 - unat (fold16 s))) mod 65535" using f by (simp only:)
  also have "\<dots> = (unat (fold16 s) + (65535 - unat (fold16 s))) mod 65535" by (simp only: mod_add_left_eq)
  also have "\<dots> = 0" using f by simp
  finally have z: "unat s' mod 65535 = 0" .
  have "unat s' \<noteq> 0" using assms c f by auto
  then have "unat (fold16 s') = 65535" using f' z by (auto elim!: dvdE simp: mod_eq_0_iff_dvd)
  then have "unat (ucast (NOT (fold16 s')) :: u16) = 0" using checksum_value [of "fold16 s'"] by simp
  then show ?thesis by (simp only: unat_eq_zero)
qed

lemma network_checksum_spec:
  assumes "len \<le> length buf" "len \<le> 131070"
  obtains c where "network_checksum buf len = Some c" "unat c mod 65535 = (65535 - word_sum (take len buf) mod 65535) mod 65535"
    "unat c = 0 \<longleftrightarrow> word_sum (take len buf) mod 65535 = 0 \<and> word_sum (take len buf) \<noteq> 0"
proof -
  let ?s = "sum16 0 (take len buf)" and ?n = "word_sum (take len buf)"
  have "?n \<le> 65535 * ((len + 1) div 2)" using word_sum_bound [of "take len buf"] assms(1) by simp
  also have "\<dots> \<le> 65535 * 65535" using assms(2) by (intro mult_le_mono2) linarith
  finally have s: "unat ?s = ?n" using sum16_spec [of 0 "take len buf"] by simp
  note f = fold16_spec [of ?s, unfolded s]
  have c: "unat (ucast (NOT (fold16 ?s)) :: u16) = 65535 - unat (fold16 ?s)" using f by (intro checksum_value) simp
  have m: "unat (fold16 ?s) \<noteq> 65535 \<Longrightarrow> unat (fold16 ?s) = ?n mod 65535" 
  proof -
    assume "unat (fold16 ?s) \<noteq> 65535"
    then have "unat (fold16 ?s) < 65535" using f by linarith
    then show ?thesis using f by simp
  qed
  show ?thesis
  proof (rule that)
    show "network_checksum buf len = Some (ucast (NOT (fold16 ?s)))" using assms(1) by (simp add: network_checksum_def)
  qed (cases "unat (fold16 ?s) = 65535"; use f c m in auto)+
qed

lemma unat_le16: "unat (ucast w :: u8) + 256 * unat (ucast (drop_bit 8 w) :: u8) = unat (w :: u16)"
proof -
  have "unat w div 256 < 256" using unat_bound [of w] by simp
  then show ?thesis by (simp add: unat_ucast_mod drop_bit_eq_div unat_div)
qed

lemma take_put_slice: "k + length ys \<le> len \<Longrightarrow> len \<le> length xs \<Longrightarrow> take len (put_slice k ys xs) = put_slice k ys (take len xs)"
  by (cases "len = k") (auto simp: put_slice_def drop_take take_add min_def)

lemma checksum_zero:
  assumes "even k" "k + 1 < len" "len \<le> length buf" "len \<le> 131070" "buf ! k = 0" "buf ! (k + 1) = 0"
    and c: "network_checksum buf len = Some c"
  shows "network_checksum (put_slice k (le16 c) buf) len = Some 0"
proof -
  let ?n = "word_sum (take len buf)" and ?b = "put_slice k (le16 c) buf"
  obtain c1 where "network_checksum buf len = Some c1" and c1: "unat c1 mod 65535 = (65535 - ?n mod 65535) mod 65535"
    "unat c1 = 0 \<longleftrightarrow> ?n mod 65535 = 0 \<and> ?n \<noteq> 0"
    by (rule network_checksum_spec [OF assms(3,4)])
  with c have [simp]: "c1 = c" by simp
  have l: "len \<le> length ?b" using assms(2,3) by (simp add: le16_def)
  have w: "word_sum (take len ?b) = ?n + unat c"
    using assms(1-6) word_sum_put [of k "take len buf"] unat_le16 [of c]
    by (simp add: take_put_slice le16_def)
  obtain c2 where c2: "network_checksum ?b len = Some c2"
    "unat c2 = 0 \<longleftrightarrow> word_sum (take len ?b) mod 65535 = 0 \<and> word_sum (take len ?b) \<noteq> 0"
    by (rule network_checksum_spec [OF l assms(4)])
  have "(?n + unat c) mod 65535 = (?n mod 65535 + unat c mod 65535) mod 65535" by (simp only: mod_add_eq)
  also have "\<dots> = (?n mod 65535 + (65535 - ?n mod 65535) mod 65535) mod 65535" using c1(1) by (simp only: \<open>c1 = c\<close>)
  also have "\<dots> = (?n mod 65535 + (65535 - ?n mod 65535)) mod 65535" by (simp only: mod_add_right_eq)
  also have "\<dots> = 0" by (simp add: less_imp_le)
  finally have "(?n + unat c) mod 65535 = 0" .
  moreover have "?n + unat c \<noteq> 0" using c1(2) by auto
  ultimately have "unat c2 = 0" using c2(2) w by simp
  then show ?thesis using c2(1) by (simp add: unat_eq_zero)
qed

text \<open>
  C27.  The checksum of a packet is the complement of the sum of its 16 bit words
  modulo 65535, and once it is stored in the packet, in a field that was 0 when it was
  computed, the checksum of the whole packet is 0: the receiver's test succeeds.
\<close>

theorem checksum_verifies:
  assumes "even k" "k + 1 < len" "len \<le> length buf" "len \<le> 131070" "buf ! k = 0" "buf ! (k + 1) = 0"
  shows "\<exists>c. network_checksum buf len = Some c
    \<and> (unat c + word_sum (take len buf)) mod 65535 = 0
    \<and> network_checksum (put_slice k (le16 c) buf) len = Some 0"
proof -
  let ?n = "word_sum (take len buf)"
  obtain c where c: "network_checksum buf len = Some c" "unat c mod 65535 = (65535 - ?n mod 65535) mod 65535"
    by (rule network_checksum_spec [OF assms(3,4)])
  have "(unat c + ?n) mod 65535 = (unat c mod 65535 + ?n mod 65535) mod 65535" by (simp only: mod_add_eq)
  also have "\<dots> = ((65535 - ?n mod 65535) mod 65535 + ?n mod 65535) mod 65535" by (simp only: c(2))
  also have "\<dots> = (65535 - ?n mod 65535 + ?n mod 65535) mod 65535" by (simp only: mod_add_left_eq)
  also have "\<dots> = 0" by (simp add: less_imp_le)
  finally have m: "(unat c + ?n) mod 65535 = 0" .
  show ?thesis by (rule exI [of _ c], intro conjI c(1) m checksum_zero [OF assms c(1)])
qed

theorem checksum_verifies_witness:
  "\<exists>c. network_checksum [0x45, 0, 0, 0x1c, 0, 0, 0xab] 7 = Some c
    \<and> (unat c + word_sum (take 7 [0x45, 0, 0, 0x1c, 0, 0, 0xab])) mod 65535 = 0
    \<and> network_checksum (put_slice 4 (le16 c) [0x45, 0, 0, 0x1c, 0, 0, 0xab]) 7 = Some 0"
  by (rule checksum_verifies) simp_all

section \<open>Echo replies\<close>

text \<open>
  C15.  An echo request is answered by a frame of the same length in which the hardware
  addresses and the internet addresses are exchanged, the type is that of a reply,
  the checksum verifies and every other byte is that of the request.
\<close>

theorem ping_reply:
  assumes "length stack = 2048" "38 \<le> len" "len \<le> 2048" "len \<le> length buf" "buf ! 34 = 8"
  shows "\<exists>r. handle_ping_v4 stack buf len = Some (Some r) \<and> length r = len
    \<and> slice 0 6 r = slice 6 6 buf \<and> slice 6 6 r = slice 0 6 buf
    \<and> slice 26 4 r = slice 30 4 buf \<and> slice 30 4 r = slice 26 4 buf \<and> r ! 34 = 0
    \<and> network_checksum (drop 34 r) (len - 34) = Some 0
    \<and> (\<forall>i<len. 12 \<le> i \<and> i \<notin> {26..34} \<and> i \<noteq> 36 \<and> i \<noteq> 37 \<longrightarrow> r ! i = buf ! i)"
proof -
  define r0 where "r0 = put_slice 0 (slice 0 len buf) stack"
  define r1 where "r1 = put_slice 6 (slice 0 6 r0) (put_slice 0 (slice 6 6 r0) r0)"
  define r2 where "r2 = put_slice 26 (slice 30 4 r1) (put_slice 30 (slice 26 4 r1) r1)"
  define r3 where "r3 = put_slice 36 [0, 0] (r2[34 := 0])"
  have l: "length r0 = 2048" "length r1 = 2048" "length r2 = 2048" "length r3 = 2048"
    using assms by (simp_all add: r0_def r1_def r2_def r3_def)
  obtain c where c: "network_checksum (drop 34 r3) (len - 34) = Some c"
    by (rule network_checksum_spec [of "len - 34" "drop 34 r3"]) (use l assms in auto)
  define r where "r = take len (put_slice 36 (le16 c) r3)"
  have run: "handle_ping_v4 stack buf len = Some (Some r)"
    using assms l c unfolding handle_ping_v4_def
    by (simp add: nth_opt_def read_bytes_def Let_def r_def flip: r0_def r1_def r2_def r3_def)
  have d: "drop 34 r = take (len - 34) (put_slice 2 (le16 c) (drop 34 r3))"
    using l assms by (simp add: r_def put_slice_def drop_take le16_def)
  have n0: "r0 ! i = buf ! i" if "i < len" for i
    using that assms by (simp add: r0_def nth_put_slice) (simp add: slice_def)
  have n1: "r1 ! i = (if i < 6 then buf ! (i + 6) else if i < 12 then buf ! (i - 6) else buf ! i)" if "i < len" for i
    using that assms(2,3) l n0 by (auto simp: r1_def nth_put_slice slice_def add.commute)
  have n2: "r2 ! i = (if 26 \<le> i \<and> i < 30 then buf ! (i + 4) else if 30 \<le> i \<and> i < 34 then buf ! (i - 4) else r1 ! i)"
    if "i < len" for i
    using that assms(2,3) l n1 by (auto simp: r2_def nth_put_slice slice_def add.commute)
  have n3: "r3 ! i = (if i = 34 \<or> i = 36 \<or> i = 37 then 0 else r2 ! i)" if "i < len" for i
    using that assms(2,3) l by (auto simp: r3_def nth_put_slice nth_list_update nth_Cons split: nat.splits)
  have nr: "r ! i = (if i = 36 \<or> i = 37 then le16 c ! (i - 36) else r3 ! i)" if "i < len" for i
    using that assms(2,3) l by (auto simp: r_def nth_put_slice le16_def)
  have len: "length r = len" using l assms by (simp add: r_def le16_def)
  have ck: "network_checksum (drop 34 r) (len - 34) = Some 0"
  proof -
    have "network_checksum (put_slice 2 (le16 c) (drop 34 r3)) (len - 34) = Some 0"
      by (rule checksum_zero [OF _ _ _ _ _ _ c]) (use assms l n3 in auto)
    then show ?thesis using l assms by (simp add: network_checksum_def d le16_def split: if_splits)
  qed
  have sl: "slice 0 6 r = slice 6 6 buf" "slice 6 6 r = slice 0 6 buf" "slice 26 4 r = slice 30 4 buf" "slice 30 4 r = slice 26 4 buf"
    using assms len n1 n2 n3 nr by (auto intro!: nth_equalityI simp: slice_def add.commute)
  have "r ! i = buf ! i" if "i < len" "12 \<le> i" "i \<notin> {26..34}" "i \<noteq> 36" "i \<noteq> 37" for i
    using that n1 n2 n3 nr by auto
  moreover have "r ! 34 = 0" using assms(2) n3 nr by simp
  ultimately show ?thesis using run len sl ck by blast
qed

theorem ping_reply_witness:
  "\<exists>r. handle_ping_v4 (replicate 2048 0) (replicate 34 1 @ [8, 0, 7, 7]) 38 = Some (Some r) \<and> length r = 38 \<and> r ! 34 = 0
    \<and> network_checksum (drop 34 r) (38 - 34) = Some 0"
  using ping_reply [of "replicate 2048 0" 38 "replicate 34 1 @ [8, 0, 7, 7]"] by (auto simp: nth_append)

section \<open>The chosen route\<close>

definition route_matches :: "u32 \<Rightarrow> route_entry \<Rightarrow> bool" where
  "route_matches ip r \<longleftrightarrow> r_dest r \<noteq> 0 \<and> r_netmask r \<noteq> 0 \<and> ip AND r_netmask r = r_dest r AND r_netmask r"

text \<open>The last of the matching routes with the greatest mask.\<close>

definition is_best_route :: "u32 \<Rightarrow> route_entry list \<Rightarrow> nat \<Rightarrow> bool" where
  "is_best_route ip routes i \<longleftrightarrow> i < length routes \<and> route_matches ip (routes ! i)
     \<and> (\<forall>j<length routes. route_matches ip (routes ! j) \<longrightarrow>
          r_netmask (routes ! j) \<le> r_netmask (routes ! i) \<and> (r_netmask (routes ! j) = r_netmask (routes ! i) \<longrightarrow> j \<le> i))"

definition best_so_far :: "u32 \<Rightarrow> route_entry list \<Rightarrow> route_entry option \<Rightarrow> u32 \<Rightarrow> bool" where
  "best_so_far ip seen best m \<longleftrightarrow> (case best of
     None \<Rightarrow> m = 0 \<and> (\<forall>j<length seen. \<not> route_matches ip (seen ! j))
   | Some r \<Rightarrow> m = r_netmask r \<and> (\<exists>i. is_best_route ip seen i \<and> seen ! i = r))"

lemma best_so_far_step:
  assumes "best_so_far ip seen best m"
  shows "best_so_far ip (seen @ [r])
    (if route_matches ip r \<and> r_netmask r \<ge> m then Some r else best)
    (if route_matches ip r \<and> r_netmask r \<ge> m then r_netmask r else m)"
proof (cases "route_matches ip r \<and> r_netmask r \<ge> m")
  case True
  have "r_netmask (seen ! j) \<le> m" if "j < length seen" "route_matches ip (seen ! j)" for j
    using assms that by (auto simp: best_so_far_def is_best_route_def split: option.splits)
  with True have "is_best_route ip (seen @ [r]) (length seen)"
    by (fastforce simp: is_best_route_def nth_append less_Suc_eq)
  with True show ?thesis by (auto simp: best_so_far_def intro!: exI [of _ "length seen"])
next
  case False
  then show ?thesis
  proof (cases best)
    case None
    with assms False show ?thesis by (auto simp: best_so_far_def nth_append less_Suc_eq)
  next
    case (Some b)
    with assms obtain i where i: "is_best_route ip seen i" "seen ! i = b" "m = r_netmask b" by (auto simp: best_so_far_def)
    with False have "is_best_route ip (seen @ [r]) i" by (auto simp: is_best_route_def nth_append less_Suc_eq)
    with False i Some show ?thesis by (auto simp: best_so_far_def is_best_route_def nth_append intro!: exI [of _ i])
  qed
qed

lemma best_route_spec:
  "best_so_far ip seen best m \<Longrightarrow> \<exists>m'. best_so_far ip (seen @ routes) (best_route ip routes best m) m'"
proof (induction routes arbitrary: seen best m)
  case (Cons r routes)
  from Cons.IH [OF best_so_far_step [OF Cons.prems, of r]] show ?case
    by (auto simp: route_matches_def split: if_splits)
qed auto

lemma find_route_spec:
  "case find_route routes ip of
     None \<Rightarrow> \<forall>j<length routes. \<not> route_matches ip (routes ! j)
   | Some r \<Rightarrow> \<exists>i. is_best_route ip routes i \<and> routes ! i = r"
  using best_route_spec [of ip "[]" None 0 routes]
  by (auto simp: best_so_far_def find_route_def split: option.splits)

lemma find_first_gateway_spec:
  assumes "table_ok (nic_global n)" "512 \<le> length (slots (nic_global n))"
  shows "find_first_gateway n = Some (case first_from 512 0 (\<lambda>i. \<exists>nic. view (nic_global n) i = Some nic \<and> nic_gateway nic \<noteq> 0) of
     None \<Rightarrow> 0 | Some i \<Rightarrow> nic_gateway (the (view (nic_global n) i)))"
proof -
  have f: "find_from 512 0 (\<lambda>_ nic. nic_gateway nic \<noteq> 0) (nic_global n) =
    Some (first_from 512 0 (\<lambda>i. \<exists>nic. view (nic_global n) i = Some nic \<and> nic_gateway nic \<noteq> 0))"
    using assms by (simp add: find_from_view)
  show ?thesis unfolding find_first_gateway_def f
    by (auto simp: deref_view split: option.splits dest!: first_from_SomeD)
qed

text \<open>
  C16.  The next hop towards an address is the gateway of the matching route with the
  greatest mask, the last one in the table among equals.  Without a matching route it
  is the gateway of the first interface that has one, and without such an interface
  the address itself.
\<close>

theorem next_hop_chosen:
  assumes "table_ok (nic_global n)" "512 \<le> length (slots (nic_global n))"
  shows "\<exists>hop. get_next_hop n ip = Some hop \<and>
    (if \<exists>j<length (route_table_v4 n). route_matches ip (route_table_v4 n ! j)
     then \<exists>i. is_best_route ip (route_table_v4 n) i \<and> hop = r_gateway (route_table_v4 n ! i)
     else if \<exists>i<512. \<exists>nic. view (nic_global n) i = Some nic \<and> nic_gateway nic \<noteq> 0
     then \<exists>i nic. view (nic_global n) i = Some nic \<and> hop = nic_gateway nic \<and> hop \<noteq> 0
       \<and> (\<forall>j<i. \<forall>nic'. view (nic_global n) j = Some nic' \<longrightarrow> nic_gateway nic' = 0)
     else hop = ip)"
proof (cases "find_route (route_table_v4 n) ip")
  case (Some r)
  with find_route_spec [of "route_table_v4 n" ip] obtain i where i: "is_best_route ip (route_table_v4 n) i" "route_table_v4 n ! i = r" by auto
  then show ?thesis using Some by (auto simp: get_next_hop_def is_best_route_def)
next
  case None
  let ?P = "\<lambda>i. \<exists>nic. view (nic_global n) i = Some nic \<and> nic_gateway nic \<noteq> 0"
  have no: "\<not> (\<exists>j<length (route_table_v4 n). route_matches ip (route_table_v4 n ! j))"
    using find_route_spec [of "route_table_v4 n" ip] None by auto
  note g = find_first_gateway_spec [OF assms]
  show ?thesis
  proof (cases "first_from 512 0 ?P")
    case None': None
    then have "\<not> (\<exists>i<512. ?P i)" by (auto simp: first_from_None)
    with no None None' g show ?thesis by (auto simp: get_next_hop_def)
  next
    case (Some i)
    then have i: "i < 512" "?P i" "\<forall>j<i. \<not> ?P j" using first_from_SomeD [OF Some] by auto
    then obtain nic where nic: "view (nic_global n) i = Some nic" "nic_gateway nic \<noteq> 0" by blast
    have "get_next_hop n ip = Some (nic_gateway nic)" using None Some g nic by (simp add: get_next_hop_def)
    then show ?thesis using no i nic by auto
  qed
qed

text \<open>Two routes to the same network; the second has the longer mask.\<close>

definition example_inet :: inet where
  "example_inet = \<lparr>nic_global = \<lparr>slots = replicate 512 0, heap = Map.empty\<rparr>,
     mac_cache_v4 = replicate 243 empty_line,
     route_table_v4 = [\<lparr>r_dest = 0x0A000000, r_netmask = 0xFF000000, r_gateway = 1, r_nic_id = 1\<rparr>,
       \<lparr>r_dest = 0x0A010000, r_netmask = 0xFFFF0000, r_gateway = 2, r_nic_id = 1\<rparr>],
     next_ephemeral_port = 49152\<rparr>"

theorem next_hop_chosen_witness:
  "\<exists>hop. get_next_hop example_inet 0x0A010203 = Some hop \<and> (\<exists>i. is_best_route 0x0A010203 (route_table_v4 example_inet) i
     \<and> hop = r_gateway (route_table_v4 example_inet ! i))"
proof -
  have t: "table_ok (nic_global example_inet)" "512 \<le> length (slots (nic_global example_inet))"
    by (simp_all add: table_ok_def example_inet_def)
  have "\<exists>j<length (route_table_v4 example_inet). route_matches 0x0A010203 (route_table_v4 example_inet ! j)"
    by (rule exI [of _ 0]) (simp add: example_inet_def route_matches_def)
  with next_hop_chosen [OF t, of "0x0A010203"] show ?thesis by auto
qed

section \<open>What the cache remembers\<close>

lemma subtract_60000: "tv_sec now \<noteq> 0 \<Longrightarrow> tv_sec (subtract_time_us now 60000) = tv_sec now"
  by (auto simp: subtract_time_us_def subtract_time_def us_to_timeval_def earlier_def Let_def word_gt_0)

lemma expire_all:
  assumes "i + k \<le> length cache" "\<forall>j<length cache. mc_timestamp (cache ! j) \<le> limit"
  shows "expire_lines k i limit ip mac cache = Some (False, take i cache @ replicate k empty_line @ drop (i + k) cache)"
  using assms
proof (induction k arbitrary: i cache)
  case (Suc k)
  have i: "i < length cache" using Suc.prems by simp
  have "\<forall>j<length cache. mc_timestamp (cache[i := empty_line] ! j) \<le> limit"
    using Suc.prems by (auto simp: nth_list_update empty_line_def)
  with Suc.IH [of "Suc i" "cache[i := empty_line]"] Suc.prems i show ?case
    by (simp add: nth_opt_def remove_cache_mac_v4_def upd_opt_def take_Suc_conv_app_nth take_update_swap [symmetric] list_update_append)
qed simp

lemma cached_mac_skip:
  assumes "i + k \<le> length cache" "\<forall>j. i \<le> j \<and> j < i + k \<longrightarrow> mc_ip (cache ! j) \<noteq> ip"
  shows "cached_mac k i now ip cache = Some None"
  using assms by (induction k arbitrary: i) (auto simp: nth_opt_def)

lemma learn_mac_spec:
  assumes "length (mac_cache_v4 n) = 243" "\<forall>e\<in>set (mac_cache_v4 n). mc_timestamp e \<le> tv_sec now" "tv_sec now \<noteq> 0" "6 \<le> length mac"
  shows "learn_mac n now ip mac nic_id = Some (n\<lparr>mac_cache_v4 :=
    \<lparr>mc_ip = ip, mc_mac = take 6 mac, mc_nic_id = nic_id, mc_timestamp = tv_sec now\<rparr> # replicate 242 empty_line\<rparr>)"
proof -
  have e: "expire_lines 243 0 (tv_sec now) ip mac (mac_cache_v4 n) = Some (False, replicate 243 empty_line)"
    using expire_all [of 0 243 "mac_cache_v4 n" "tv_sec now" ip mac] assms(1,2) by simp
  have f: "free_line 243 0 (replicate 243 empty_line) = Some (Some 0)"
    by (simp add: numeral_eq_Suc nth_opt_def empty_line_def)
  have u: "upd_opt (replicate 243 empty_line) 0 x = Some (x # replicate 242 empty_line)" for x
    by (simp add: upd_opt_def numeral_eq_Suc)
  show ?thesis using assms(3,4)
    by (simp add: learn_mac_def add_cache_mac_v4_def subtract_60000 e f u add_cache_mac_v4_line_def)
qed

text \<open>
  C29.  A hardware address that was learnt is found for a minute.  Learning it clears every
  other entry that is not from the future, because the interval after which entries expire is
  taken in microseconds there: for every other address a new request is sent.
\<close>

theorem learnt_mac_found:
  assumes "length (mac_cache_v4 n) = 243" "\<forall>e\<in>set (mac_cache_v4 n). mc_timestamp e \<le> tv_sec now" "tv_sec now \<noteq> 0"
    "length mac = 6" "ip \<noteq> 0" "tv_sec now' - 60 < tv_sec now"
  shows "\<exists>n'. learn_mac n now ip mac nic_id = Some n' \<and> find_mac_of_ipv4_l2 n' now' ip nic = Some (Some mac, None)
    \<and> (\<forall>ip'. ip' \<noteq> ip \<and> ip' \<noteq> 0 \<longrightarrow>
         find_mac_of_ipv4_l2 n' now' ip' nic = map_option (\<lambda>request. (None, request)) (send_arp n' ip' nic True))"
proof -
  let ?line = "\<lparr>mc_ip = ip, mc_mac = mac, mc_nic_id = nic_id, mc_timestamp = tv_sec now\<rparr>"
  let ?n = "n\<lparr>mac_cache_v4 := ?line # replicate 242 empty_line\<rparr>"
  have l: "learn_mac n now ip mac nic_id = Some ?n" using learn_mac_spec [OF assms(1-3), of mac] assms(4) by simp
  have s: "(243 :: nat) = Suc 242" by simp
  have "cached_mac 243 0 now' ip (?line # replicate 242 empty_line) = Some (Some mac)"
    unfolding s cached_mac.simps using assms(6) by (simp add: nth_opt_def)
  moreover have "cached_mac 243 0 now' ip' (?line # replicate 242 empty_line) = Some None" if "ip' \<noteq> ip" "ip' \<noteq> 0" for ip'
    using that by (intro cached_mac_skip) (auto simp: nth_Cons empty_line_def split: nat.splits)
  ultimately show ?thesis using l
    by (auto simp: find_mac_of_ipv4_l2_def map_conv_bind_option comp_def intro!: exI [of _ ?n])
qed

theorem learnt_mac_found_witness:
  "\<exists>n'. learn_mac example_inet \<lparr>tv_sec = 1000, tv_microsec = 5\<rparr> 7 [1, 2, 3, 4, 5, 6] 1 = Some n'
    \<and> find_mac_of_ipv4_l2 n' \<lparr>tv_sec = 1059, tv_microsec = 0\<rparr> 7 1 = Some (Some [1, 2, 3, 4, 5, 6], None)"
  using learnt_mac_found [of example_inet "\<lparr>tv_sec = 1000, tv_microsec = 5\<rparr>" "[1, 2, 3, 4, 5, 6]" 7 "\<lparr>tv_sec = 1059, tv_microsec = 0\<rparr>" 1 1]
  by (auto simp: example_inet_def empty_line_def)

section \<open>Addresses in text\<close>

lemma ip_scan_digits:
  assumes "0 \<le> n" "n \<le> 255"
  shows "ip_scan (rev (digits n) @ s) result 0 dots = ip_scan s result (of_int n) dots"
  using assms
proof (induction n arbitrary: s rule: digits.induct)
  case (1 n)
  show ?case
  proof (cases "n = 0")
    case False
    let ?d = "word_of_int (48 + n mod 10) :: u8"
    have IH: "ip_scan (rev (digits (n div 10)) @ t) result 0 dots = ip_scan t result (of_int (n div 10)) dots" for t
      using 1 False by simp
    have c: "48 \<le> ?d \<and> ?d \<le> 57 \<and> ?d \<noteq> 0" "?d - 48 = of_int (n mod 10)"
      using digits_chars [of ?d n] 1(2) False by (auto simp: digits.simps [of n])
    have u: "(ucast (of_int (n mod 10) :: u8) :: u32) = of_int (n mod 10)"
    proof -
      have "n mod 10 \<in> {0, 1, 2, 3, 4, 5, 6, 7, 8, 9}" by auto presburger
      then show ?thesis by (elim insertE emptyE) simp_all
    qed
    have "(of_int n :: u32) = of_int (n div 10 * 10 + n mod 10)" by (simp only: div_mult_mod_eq)
    then have o: "(of_int (n div 10) :: u32) * 10 + of_int (n mod 10) = of_int n" by (simp only: of_int_add of_int_mult of_int_numeral)
    have "unat (of_int n :: u32) = nat n" using 1(2,3) by (simp add: nat_eq_iff unat_eq_nat_uint uint_word_of_int)
    then have "\<not> (of_int n :: u32) > 255" using 1(3) by (simp add: word_less_nat_alt)
    then show ?thesis using 1(2) False c by (simp add: digits.simps [of n] IH u o Let_def)
  qed simp
qed

lemma ip_scan_decimal:
  assumes "0 \<le> n" "n \<le> 255"
  shows "ip_scan (decimal n @ s) result 0 dots = ip_scan s result (of_int n) dots"
  using ip_scan_digits [OF assms] by (simp add: decimal_def)

lemma ip_scan_dots: "\<lbrakk>terminated s; dots + count_list (cstring s) 46 \<noteq> 3\<rbrakk> \<Longrightarrow> ip_scan s result octet dots = Some 0"
  by (induction s result octet dots rule: ip_scan.induct) (auto simp: Let_def)

text \<open>
  C38.  The text of an address, four decimal numbers from 0 to 255 with dots between them,
  is read as the number with these four bytes, the first one the highest.  A text
  without exactly three dots is read as 0.
\<close>

theorem ip_text_read:
  assumes "0 \<le> a" "a \<le> 255" "0 \<le> b" "b \<le> 255" "0 \<le> c" "c \<le> 255" "0 \<le> d" "d \<le> 255"
    "terminated s" "count_list (cstring s) 46 \<noteq> 3"
  shows "ip_str_to_int (decimal a @ 46 # decimal b @ 46 # decimal c @ 46 # decimal d @ 0 # rest)
      = Some (of_int (((a * 256 + b) * 256 + c) * 256 + d))
    \<and> ip_str_to_int s = Some 0"
proof -
  have b8: "push_bit 8 r OR of_int x = r * 256 + of_int x" if "0 \<le> x" "x \<le> 255" for x and r :: u32
  proof -
    have hi: "\<not> bit x n" if "8 \<le> n" for n
    proof -
      have "(2 :: int) ^ 8 \<le> 2 ^ n" using that by (intro power_increasing) auto
      then have "x div 2 ^ n = 0" using \<open>0 \<le> x\<close> \<open>x \<le> 255\<close> by (intro div_pos_pos_trivial) auto
      then show ?thesis by (simp add: bit_iff_odd)
    qed
    have "push_bit 8 r AND of_int x = 0"
      by (rule bit_word_eqI) (auto simp: bit_simps dest: hi)
    then show ?thesis by (simp add: disjunctive_add_eq_or [symmetric] push_bit_eq_mult)
  qed
  show ?thesis using assms
    by (simp add: ip_str_to_int_def ip_scan_decimal ip_scan_dots b8)
qed

text \<open>The address \<^verbatim>\<open>192.168.1.5\<close>, and a text with one dot.\<close>

theorem ip_text_read_witness:
  "ip_str_to_int [49, 57, 50, 46, 49, 54, 56, 46, 49, 46, 53, 0] = Some 0xC0A80105 \<and> ip_str_to_int [49, 46, 50, 0] = Some 0"
proof -
  have d: "decimal 192 = [49, 57, 50]" "decimal 168 = [49, 54, 56]" "decimal 1 = [49]" "decimal 5 = [53]" by code_simp+
  show ?thesis using ip_text_read [of 192 168 1 5 "[49, 46, 50, 0]" "[]"] by (simp add: d terminated_def)
qed

section \<open>Masks, ports and routes that go wrong\<close>

text \<open>
  The mask of a length has its bits at the low end, while addresses have their first
  byte at the high end: two hosts of one network with 24 bits are taken to be in
  different ones, and two hosts that differ in the first byte only to be in the same.
\<close>

lemma netmask_low_bits:
  "char_to_netmask 24 = Some 0x00FFFFFF \<and> \<not> in_l2 0xC0A80105 0xC0A80106 0x00FFFFFF \<and> in_l2 0xC0A80105 0x0AA80105 0x00FFFFFF"
  by code_simp

text \<open>Ports continue at 0, below the range, after the last one.\<close>

lemma high_port_wraps:
  assumes "table_ok sockets" "4096 \<le> length (slots sockets)" "view sockets = Map.empty"
  shows "\<exists>n'. allocate_random_high_port sockets (n\<lparr>next_ephemeral_port := 65535\<rparr>) proto = Some (65535, n')
    \<and> (\<exists>n''. allocate_random_high_port sockets n' proto = Some (0, n''))"
proof -
  have p: "port_in_use sockets 0 port proto = Some 0" for port
    using assms by (simp add: port_in_use_def find_from_view first_from_None)
  have s: "high_port 16383 sockets proto q = Some (q, q + 1)" for q
    using high_port.simps(2) [of 16382 sockets proto q] by (simp add: p)
  show ?thesis by (simp add: allocate_random_high_port_def s)
qed

text \<open>With 71 routes the table counts as full, although it has room for 1706.\<close>

lemma add_route_full:
  assumes "\<forall>i<71. \<not> free_route (routes ! i)"
  shows "add_route routes dest netmask gateway nic_id = None"
proof -
  have "first_from 71 0 (\<lambda>i. i < length routes \<and> free_route (routes ! i)) = None"
    using assms by (simp add: first_from_None)
  then show ?thesis by (simp add: add_route_def)
qed

end
