(* ===== verification/Tcp.thy ===== *)
theory Tcp
  imports Inet Processes
begin

text \<open>
  The TCP of \<^verbatim>\<open>src/core/network/af_inet/tcp.h\<close> with the sending of packets in
  \<^verbatim>\<open>src/core/network/e1000.h\<close> and the search for sockets in \<^verbatim>\<open>udp.h\<close>: segments and their
  checksum, and the handler of received segments.

  A socket is a structure of 160 bytes at the start of six blocks; the rest of the blocks
  is the list \<open>sock_mem\<close>, the ring of received bytes and behind five blocks the bytes
  to send.  The frames given to the network card are recorded in \<open>sent\<close>.
\<close>

section \<open>Sockets\<close>

record net_tuple_tcp =
  tuple :: net_tuple
  send_retry_count :: u8
  send_payload_len :: u16
  ack_est_blocked :: bool
  seq_local :: u64
  seq_remote :: u64
  tcp_backlog :: u64
  send_wait_flag :: u64
  listen_wait_flag :: u64
  listen_id :: u64
  sock_mem :: "u8 list"

record tcp_net =
  n_inet :: inet
  sockets :: "net_tuple_tcp table"
  listens :: "net_tuple table"
  n_threads :: "thread_info table"
  n_frames :: frames
  ip_ident :: u64
  next_isn :: u32
  sent :: "u8 list list"

text \<open>
  What a call finds: the time, the contents of the local array for a hardware address,
  the contents of a local connection structure, the contents of new blocks, and two random
  numbers.
\<close>

record tcp_env =
  e_now :: timeval
  e_mac :: "u8 list"
  e_tuple :: net_tuple_tcp
  e_mem :: "u8 list"
  e_rand1 :: u64
  e_rand2 :: u64

definition change_sock :: "tcp_net \<Rightarrow> nat \<Rightarrow> (net_tuple_tcp \<Rightarrow> net_tuple_tcp) \<Rightarrow> tcp_net option" where
  "change_sock n i f = do { tb \<leftarrow> store (sockets n) i f; Some (n\<lparr>sockets := tb\<rparr>) }"

definition set_state :: "net_state_t \<Rightarrow> net_tuple_tcp \<Rightarrow> net_tuple_tcp" where
  "set_state st s = s\<lparr>tuple := (tuple s)\<lparr>nt_state := st\<rparr>\<rparr>"

definition touch :: "timeval \<Rightarrow> net_tuple_tcp \<Rightarrow> net_tuple_tcp" where
  "touch now s = s\<lparr>tuple := (tuple s)\<lparr>last_updated_time_us := now\<rparr>\<rparr>"

section \<open>Finding sockets\<close>

text \<open>
  The test comes before the test for a null entry, but it is false for one.  The
  connection that is looked for is a local variable, never an entry of the table.
\<close>

fun sock_scan :: "nat \<Rightarrow> nat \<Rightarrow> (net_tuple \<Rightarrow> bool) \<Rightarrow> net_tuple_tcp table \<Rightarrow> u64 option" where
  "sock_scan 0 i P tb = Some (- 1)"
| "sock_scan (Suc k) i P tb = do {
     p \<leftarrow> nth_opt (slots tb) i;
     if p = 0 then sock_scan k (Suc i) P tb
     else do { s \<leftarrow> heap tb p; if P (tuple s) then Some (of_nat i) else sock_scan k (Suc i) P tb } }"

definition find_socket :: "tcp_net \<Rightarrow> net_tuple \<Rightarrow> u64 option" where
  "find_socket n t = sock_scan 5120 0 (\<lambda>s. net_tuple_match_v4 False (Some t) (Some s)) (sockets n)"

definition find_socket_not_listen :: "tcp_net \<Rightarrow> net_tuple \<Rightarrow> u64 option" where
  "find_socket_not_listen n t = sock_scan 5120 0 (\<lambda>s. net_tuple_equal_v4 False (Some t) (Some s)) (sockets n)"

definition find_listen :: "tcp_net \<Rightarrow> net_tuple \<Rightarrow> u64 option" where
  "find_listen n t = map_option (\<lambda>r. case r of None \<Rightarrow> - 1 | Some i \<Rightarrow> of_nat i)
     (find_from 5120 0 (\<lambda>_ s. nt_state s = NET_STATE_LISTEN \<and> net_tuple_match_v4 False (Some t) (Some s)) (listens n))"

section \<open>Sending packets\<close>

definition mac_null :: "u8 list \<Rightarrow> bool" where
  "mac_null mac \<longleftrightarrow> (\<forall>i<6. mac ! i = 0)"

definition ipv4_header :: "u16 \<Rightarrow> u16 \<Rightarrow> u8 \<Rightarrow> u32 \<Rightarrow> u32 \<Rightarrow> u16 \<Rightarrow> u8 list" where
  "ipv4_header total_length ident proto src_ip dst_ip check =
     [0x45, 0] @ le16 (htons total_length) @ le16 (htons ident) @ [0, 0, 64, proto] @ le16 check
     @ le32 (htonl src_ip) @ le32 (htonl dst_ip)"

text \<open>
  When the hardware address is not known the array for it keeps what it held, and a
  request was sent; the packet is sent anyway unless the array is zero.
\<close>

definition nic_send_ipv4 :: "tcp_net \<Rightarrow> tcp_env \<Rightarrow> u32 \<Rightarrow> u32 \<Rightarrow> u8 \<Rightarrow> u8 list \<Rightarrow> u8 list \<Rightarrow> (int \<times> tcp_net) option" where
  "nic_send_ipv4 n e src_ip dst_ip proto l4_hdr payload = do {
     src_nic_id \<leftarrow> find_nic_id_by_ipv4 (n_inet n) src_ip;
     nic \<leftarrow> deref (nic_global (n_inet n)) (unat src_nic_id);
     local_mac \<leftarrow> read_bytes (nic_mac nic) 0 6;
     (found, request) \<leftarrow> find_mac_of_ipv4 (n_inet n) (e_now e) dst_ip src_nic_id;
     let n1 = (case request of None \<Rightarrow> n | Some fr \<Rightarrow> n\<lparr>sent := sent n @ [fr]\<rparr>);
     remote_mac \<leftarrow> read_bytes (case found of Some mac \<Rightarrow> mac | None \<Rightarrow> e_mac e) 0 6;
     if mac_null remote_mac then Some (- EAGAIN, n1)
     else do {
       let total_length = of_nat (20 + length l4_hdr + length payload);
       let ident = ucast (ip_ident n1);
       check \<leftarrow> network_checksum (ipv4_header total_length ident proto src_ip dst_ip 0) 20;
       let buf = remote_mac @ local_mac @ le16 (htons 0x0800)
         @ ipv4_header total_length ident proto src_ip dst_ip check @ l4_hdr @ payload;
       if length buf > 1514 then None
       else Some (0, n1\<lparr>ip_ident := ip_ident n1 + 1, sent := sent n1 @ [buf]\<rparr>) } }"

section \<open>Segments\<close>

text \<open>The sum of the 16 bit words, read with the high byte first.\<close>

fun sum16_be :: "u32 \<Rightarrow> u8 list \<Rightarrow> u32" where
  "sum16_be acc [] = acc"
| "sum16_be acc [a] = acc + push_bit 8 (ucast a)"
| "sum16_be acc (a # b # data) = sum16_be (acc + (push_bit 8 (ucast a) OR ucast b)) data"

definition pseudo_sum :: "u32 \<Rightarrow> u32 \<Rightarrow> u16 \<Rightarrow> u32" where
  "pseudo_sum src_ip dst_ip total_len =
     (drop_bit 16 src_ip AND 0xFFFF) + (src_ip AND 0xFFFF) + (drop_bit 16 dst_ip AND 0xFFFF) + (dst_ip AND 0xFFFF)
     + 6 + ucast total_len"

definition tcp_checksum :: "u8 list \<Rightarrow> u32 \<Rightarrow> u32 \<Rightarrow> u8 list \<Rightarrow> u16" where
  "tcp_checksum tcp src_ip dst_ip payload =
     (let acc = pseudo_sum src_ip dst_ip (of_nat (length tcp + length payload));
          acc = sum16_be acc tcp;
          acc = sum16_be acc payload
      in htons (ucast (NOT (fold16 acc))))"

definition tcp_hdr :: "u16 \<Rightarrow> u16 \<Rightarrow> u32 \<Rightarrow> u32 \<Rightarrow> u8 \<Rightarrow> u16 \<Rightarrow> u8 list" where
  "tcp_hdr src_port dst_port sq ack_seq flags check =
     le16 (htons src_port) @ le16 (htons dst_port) @ le32 (htonl sq) @ le32 (htonl ack_seq)
     @ [0x50, flags] @ le16 (htons 65535) @ le16 check @ [0, 0]"

text \<open>What all senders share: the header with its checksum, given to \<^const>\<open>nic_send_ipv4\<close>.\<close>

definition send_segment :: "tcp_net \<Rightarrow> tcp_env \<Rightarrow> net_tuple \<Rightarrow> u64 \<Rightarrow> u64 \<Rightarrow> u8 \<Rightarrow> u8 list \<Rightarrow> (int \<times> tcp_net) option" where
  "send_segment n e t sq ack_seq flags payload = do {
     let hdr = tcp_hdr (ucast (local_port t)) (ucast (remote_port t)) (ucast sq) (ucast ack_seq) flags;
     let check = tcp_checksum (hdr 0) (ucast (local_ip_l t)) (ucast (remote_ip_l t)) payload;
     nic_send_ipv4 n e (ucast (local_ip_l t)) (ucast (remote_ip_l t)) 6 (hdr check) payload }"

definition nic_send_tcp_package :: "tcp_net \<Rightarrow> tcp_env \<Rightarrow> nat \<Rightarrow> u8 list \<Rightarrow> (bool \<times> tcp_net) option" where
  "nic_send_tcp_package n e socket_id payload = do {
     sock \<leftarrow> deref (sockets n) socket_id;
     n1 \<leftarrow> change_sock n socket_id (touch (e_now e));
     (r, n2) \<leftarrow> send_segment n1 e (tuple sock) (seq_local sock) (seq_remote sock)
       (if payload = [] then 0x10 else 0x18) payload;
     Some (r \<noteq> 0, n2) }"

text \<open>The bytes to send start behind the fifth block.\<close>

definition tcp_send_established :: "tcp_net \<Rightarrow> tcp_env \<Rightarrow> nat \<Rightarrow> tcp_net option" where
  "tcp_send_established n e sock_id = do {
     sock \<leftarrow> deref (sockets n) sock_id;
     payload \<leftarrow> read_bytes (sock_mem sock) 20320 (unat (send_payload_len sock));
     (_, n') \<leftarrow> nic_send_tcp_package n e sock_id payload;
     Some n' }"

text \<open>The callers of \<^verbatim>\<open>tcp_send_ack\<close> and \<^verbatim>\<open>tcp_send_synack\<close> all send no payload.\<close>

definition tcp_send_ack :: "tcp_net \<Rightarrow> tcp_env \<Rightarrow> nat \<Rightarrow> tcp_net option" where
  "tcp_send_ack n e i = do {
     sock \<leftarrow> deref (sockets n) i;
     (_, n1) \<leftarrow> send_segment n e (tuple sock) (seq_local sock) (seq_remote sock) 0x10 [];
     change_sock n1 i (touch (e_now e)) }"

definition tcp_send_synack :: "tcp_net \<Rightarrow> tcp_env \<Rightarrow> nat \<Rightarrow> u32 \<Rightarrow> tcp_net option" where
  "tcp_send_synack n e i remote_ack_le = do {
     sock \<leftarrow> deref (sockets n) i;
     let ack = remote_ack_le + 1;
     (_, n1) \<leftarrow> send_segment n e (tuple sock) (seq_local sock) (ucast ack) 0x12 [];
     change_sock n1 i (\<lambda>s. s\<lparr>seq_remote := ucast ack, seq_local := seq_local s + 1\<rparr>) }"

text \<open>
  The result of the sending, 0 for success, is read as a truth value: the state only
  changes when the packet was not sent.
\<close>

definition tcp_send_fin :: "tcp_net \<Rightarrow> tcp_env \<Rightarrow> nat \<Rightarrow> (bool \<times> tcp_net) option" where
  "tcp_send_fin n e socket_id = do {
     p \<leftarrow> nth_opt (slots (sockets n)) socket_id;
     if p = 0 then Some (False, n)
     else do {
       sock \<leftarrow> deref (sockets n) socket_id;
       let st = nt_state (tuple sock);
       if nt_version (tuple sock) = 0 then Some (False, n)
       else if st \<noteq> NET_STATE_ESTABLISHED \<and> st \<noteq> NET_STATE_CLOSE_WAIT then Some (False, n)
       else do {
         (r, n1) \<leftarrow> send_segment n e (tuple sock) (seq_local sock) (seq_remote sock) 0x11 [];
         if r = 0 then Some (False, n1)
         else do {
           n2 \<leftarrow> change_sock n1 socket_id (\<lambda>s. touch (e_now e) (set_state
             (if st = NET_STATE_ESTABLISHED then NET_STATE_FIN_WAIT_1 else NET_STATE_LAST_ACK)
             (s\<lparr>seq_local := seq_local s + 1, send_retry_count := 0\<rparr>)));
           Some (True, n2) } } } }"

text \<open>The ports of the header are read before a missing local port is chosen.\<close>

definition plain_tuples :: "net_tuple_tcp table \<Rightarrow> net_tuple table" where
  "plain_tuples tb = \<lparr>slots = slots tb, heap = (\<lambda>p. map_option tuple (heap tb p))\<rparr>"

definition tcp_send_syn :: "tcp_net \<Rightarrow> tcp_env \<Rightarrow> nat \<Rightarrow> (int \<times> tcp_net) option" where
  "tcp_send_syn n e socket_id = do {
     sock0 \<leftarrow> deref (sockets n) socket_id;
     if nt_version (tuple sock0) = 0 then Some (- EINVAL, n)
     else do {
       n1 \<leftarrow> (if seq_local sock0 = 0 then change_sock (n\<lparr>next_isn := next_isn n + 1\<rparr>) socket_id
           (\<lambda>s. s\<lparr>seq_local := ucast (next_isn n + 1)\<rparr>) else Some n);
       n2 \<leftarrow> (if local_ip_l (tuple sock0) = 0 then do {
           a \<leftarrow> get_ip (n_inet n1) 1 0;
           change_sock n1 socket_id (\<lambda>s. s\<lparr>tuple := (tuple s)\<lparr>local_ip_l := addr_l a\<rparr>\<rparr>) }
         else Some n1);
       n3 \<leftarrow> (if local_port (tuple sock0) = 0 then do {
           (port, net) \<leftarrow> allocate_random_high_port (plain_tuples (sockets n2)) (n_inet n2) 17;
           change_sock (n2\<lparr>n_inet := net\<rparr>) socket_id (\<lambda>s. s\<lparr>tuple := (tuple s)\<lparr>local_port := ucast port\<rparr>\<rparr>) }
         else Some n2);
       sock \<leftarrow> deref (sockets n3) socket_id;
       (r, n4) \<leftarrow> send_segment n3 e ((tuple sock)\<lparr>local_port := local_port (tuple sock0)\<rparr>) (seq_local sock) 0 0x02 [];
       if r < 0 then Some (r, n4)
       else do {
         n5 \<leftarrow> change_sock n4 socket_id (\<lambda>s. touch (e_now e) (set_state NET_STATE_SYN_SENT (s\<lparr>seq_local := seq_local s + 1\<rparr>)));
         Some (0, n5) } } }"

section \<open>The rings of a socket\<close>

definition ring_write :: "u64 \<Rightarrow> net_tuple_tcp \<Rightarrow> u64 \<Rightarrow> u8 list \<Rightarrow> (u64 \<times> net_tuple_tcp) option" where
  "ring_write buffer_size s len payload = do {
     (buf, head, count) \<leftarrow> fifo_write8 (sock_mem s) (nt_tail (tuple s)) (nt_head (tuple s)) buffer_size len payload;
     Some (count, s\<lparr>sock_mem := buf, tuple := (tuple s)\<lparr>nt_head := head\<rparr>\<rparr>) }"

definition ring_read :: "u64 \<Rightarrow> net_tuple_tcp \<Rightarrow> u64 \<Rightarrow> u8 list \<Rightarrow> (u64 \<times> u8 list \<times> net_tuple_tcp) option" where
  "ring_read buffer_size s len out = do {
     (tail, out', count) \<leftarrow> fifo_read8 (sock_mem s) (nt_tail (tuple s)) (nt_head (tuple s)) buffer_size len out;
     Some (count, out', s\<lparr>tuple := (tuple s)\<lparr>nt_tail := tail\<rparr>\<rparr>) }"

definition put_sock :: "tcp_net \<Rightarrow> nat \<Rightarrow> net_tuple_tcp \<Rightarrow> tcp_net option" where
  "put_sock n i s = change_sock n i (\<lambda>_. s)"

definition recv_socket_append_tcp :: "tcp_net \<Rightarrow> nat \<Rightarrow> u8 list \<Rightarrow> u64 \<Rightarrow> (bool \<times> tcp_net) option" where
  "recv_socket_append_tcp n socket_id payload payload_len = do {
     lis \<leftarrow> deref (sockets n) socket_id;
     (rs, lis') \<leftarrow> ring_write 20320 lis payload_len payload;
     n' \<leftarrow> put_sock n socket_id lis';
     Some (rs \<noteq> 0, n') }"

definition le64 :: "u64 \<Rightarrow> u8 list" where
  "le64 w = le32 (ucast w) @ le32 (ucast (drop_bit 32 w))"

definition push_backlog :: "tcp_net \<Rightarrow> u64 \<Rightarrow> nat \<Rightarrow> (u64 \<times> tcp_net) option" where
  "push_backlog n child_sockid listener_id = do {
     lis \<leftarrow> deref (sockets n) listener_id;
     (rs, lis') \<leftarrow> ring_write 24416 lis 8 (le64 child_sockid);
     n' \<leftarrow> put_sock n listener_id lis';
     Some (rs, n') }"

definition of_le64 :: "u8 list \<Rightarrow> u64" where
  "of_le64 bs = foldr (\<lambda>b acc. ucast b OR push_bit 8 acc) bs 0"

definition pull_backlog :: "tcp_net \<Rightarrow> nat \<Rightarrow> (u64 \<times> tcp_net) option" where
  "pull_backlog n listener_id = do {
     lis \<leftarrow> deref (sockets n) listener_id;
     (rs, out, lis') \<leftarrow> ring_read 24416 lis 8 (replicate 8 0xFF);
     n' \<leftarrow> put_sock n listener_id lis';
     Some (if rs \<noteq> 0 then of_le64 out else - 1, n') }"

section \<open>Waking threads\<close>

text \<open>The offsets of the flags: 72 for receiving, 136 for sending, 144 for listening.\<close>

definition waits_at :: "u64 \<Rightarrow> thread_info \<Rightarrow> bool" where
  "waits_at addr t \<longleftrightarrow> t_state t = THREAD_BLOCKED_NETWORK \<and> t_sleep_flag_addr t = addr"

definition wake_all :: "tcp_net \<Rightarrow> u64 \<Rightarrow> tcp_net option" where
  "wake_all n addr = do {
     tb \<leftarrow> each_from (length (slots (n_threads n))) 0
       (\<lambda>_ t. if waits_at addr t then t\<lparr>t_state := THREAD_READY\<rparr> else t) (n_threads n);
     Some (n\<lparr>n_threads := tb\<rparr>) }"

definition resume_first_thread_pending_on_listen :: "tcp_net \<Rightarrow> nat \<Rightarrow> (u64 \<times> tcp_net) option" where
  "resume_first_thread_pending_on_listen n lid = do {
     p \<leftarrow> nth_opt (slots (sockets n)) lid;
     r \<leftarrow> find_from (length (slots (n_threads n))) 0 (\<lambda>_ t. waits_at (p + 144) t) (n_threads n);
     case r of
       None \<Rightarrow> Some (- 1, n)
     | Some i \<Rightarrow> do {
         tb \<leftarrow> store (n_threads n) i (\<lambda>t. t\<lparr>t_state := THREAD_READY\<rparr>);
         Some (of_nat i, n\<lparr>n_threads := tb\<rparr>) } }"

text \<open>
  The loops compare where they should assign, so that they change nothing; they read
  through null entries of the thread table.
\<close>

definition mark_socket_as_deleted :: "tcp_net \<Rightarrow> nat \<Rightarrow> tcp_net option" where
  "mark_socket_as_deleted n i = do {
     n' \<leftarrow> change_sock n i (set_state NET_STATE_CLOSE_WAIT);
     if 0 \<in> set (slots (n_threads n)) then None else Some n' }"

section \<open>New sockets\<close>

text \<open>
  The comparison of the bytes of two structures is taken on their fields.  The
  number of the first free entry, or that of all entries when none is free.
\<close>

definition same_struct :: "net_tuple_tcp \<Rightarrow> net_tuple_tcp \<Rightarrow> bool" where
  "same_struct a b \<longleftrightarrow> a\<lparr>sock_mem := []\<rparr> = b\<lparr>sock_mem := []\<rparr>"

definition fresh_sock :: "tcp_env \<Rightarrow> net_tuple_tcp \<Rightarrow> u64 \<Rightarrow> u64 \<Rightarrow> net_tuple_tcp" where
  "fresh_sock e original r1 r2 = original\<lparr>tuple := (tuple original)\<lparr>nt_state := NET_STATE_CLOSED, protocol := 6, nt_version := 4,
       nt_head := 0, nt_tail := 0, receive_blocking := True\<rparr>,
     seq_local := 1000000000 * r1 + r2, ack_est_blocked := False, sock_mem := e_mem e\<rparr>"

definition create_socket_tcp :: "tcp_net \<Rightarrow> tcp_env \<Rightarrow> net_tuple_tcp \<Rightarrow> (u64 \<times> tcp_net) option" where
  "create_socket_tcp n e original = do {
     dup \<leftarrow> find_from (length (slots (sockets n))) 0 (\<lambda>_ s. same_struct s original) (sockets n);
     if dup \<noteq> None then Some (- 1, n)
     else (case first_from (length (slots (sockets n))) 0 (\<lambda>i. slots (sockets n) ! i = 0) of
         None \<Rightarrow> Some (of_nat (length (slots (sockets n))), n)
       | Some i \<Rightarrow> do {
           (blk, fr) \<leftarrow> get_continuous_free_blocks (n_frames n) 6;
           r1 \<leftarrow> rand_range (e_rand1 e) 1 3;
           r2 \<leftarrow> rand_range (e_rand2 e) 1 2000000000;
           tb \<leftarrow> install (sockets n) i (blk * 4096 + HM) (fresh_sock e original r1 r2);
           Some (of_nat i, n\<lparr>sockets := tb, n_frames := fr\<rparr>) }) }"

section \<open>Received segments\<close>

text \<open>
  The connection a segment belongs to.  The other fields of the local structure, among
  them the state, are not initialised; the two handlers that have such a structure are
  given the same contents for it.
\<close>

definition conn_of :: "net_tuple \<Rightarrow> u32 \<Rightarrow> u32 \<Rightarrow> u16 \<Rightarrow> u16 \<Rightarrow> net_tuple" where
  "conn_of t0 src_ip dst_ip src_port dst_port = t0\<lparr>local_ip_h := 0, local_ip_l := ucast dst_ip, local_port := ucast dst_port,
     protocol := 6, remote_ip_h := 0, remote_ip_l := ucast src_ip, remote_port := ucast src_port, nt_version := 4\<rparr>"

definition handle_tcp_established_packet :: "tcp_net \<Rightarrow> tcp_env \<Rightarrow> net_tuple \<Rightarrow> u8 list \<Rightarrow> u64 \<Rightarrow> (bool \<times> tcp_net) option" where
  "handle_tcp_established_packet n e conn payload payload_len = do {
     socket_id \<leftarrow> find_socket_not_listen n conn;
     if socket_id \<noteq> - 1 then do {
       let i = unat socket_id;
       n1 \<leftarrow> change_sock n i (\<lambda>s. s\<lparr>seq_remote := seq_remote s + payload_len\<rparr>);
       (_, n2) \<leftarrow> recv_socket_append_tcp n1 i payload payload_len;
       n3 \<leftarrow> tcp_send_ack n2 e i;
       p \<leftarrow> nth_opt (slots (sockets n3)) i;
       n4 \<leftarrow> wake_all n3 (p + 72);
       Some (True, n4) }
     else Some (False, n) }"

definition handle_tcp_receive_ack_established :: "tcp_net \<Rightarrow> nat \<Rightarrow> u64 \<Rightarrow> (bool \<times> tcp_net) option" where
  "handle_tcp_receive_ack_established n sock_id ack_seq = do {
     p \<leftarrow> nth_opt (slots (sockets n)) sock_id;
     if p = 0 then Some (False, n)
     else do {
       sock \<leftarrow> heap (sockets n) p;
       if nt_state (tuple sock) \<noteq> NET_STATE_ESTABLISHED \<or> \<not> ack_est_blocked sock then Some (False, n)
       else if seq_local sock + ucast (send_payload_len sock) \<noteq> ack_seq then Some (False, n)
       else do {
         n1 \<leftarrow> change_sock n sock_id (\<lambda>s. s\<lparr>seq_local := seq_local s + ucast (send_payload_len s), ack_est_blocked := False\<rparr>);
         n2 \<leftarrow> wake_all n1 (p + 136);
         Some (True, n2) } } }"

definition FIN :: u8 where "FIN = 0x01"
definition SYN :: u8 where "SYN = 0x02"
definition ACK :: u8 where "ACK = 0x10"

definition has_flag :: "u8 \<Rightarrow> u8 \<Rightarrow> bool" where
  "has_flag flags f \<longleftrightarrow> flags AND f \<noteq> 0"

definition open_conn :: "tcp_net \<Rightarrow> tcp_env \<Rightarrow> net_tuple \<Rightarrow> u64 \<Rightarrow> u32 \<Rightarrow> tcp_net option" where
  "open_conn n e conn lid sq = do {
     (new_id, n1) \<leftarrow> create_socket_tcp n e ((e_tuple e)\<lparr>tuple := conn\<rparr>);
     n2 \<leftarrow> change_sock n1 (unat new_id) (\<lambda>s. set_state NET_STATE_SYN_RECEIVED (s\<lparr>listen_id := lid\<rparr>));
     n3 \<leftarrow> tcp_send_synack n2 e (unat new_id) sq;
     change_sock n3 (unat new_id) (touch (e_now e)) }"

definition on_listen :: "tcp_net \<Rightarrow> tcp_env \<Rightarrow> net_tuple \<Rightarrow> u8 \<Rightarrow> u32 \<Rightarrow> tcp_net option" where
  "on_listen n e conn flags sq = (if has_flag flags SYN then do {
       lid \<leftarrow> find_listen n conn;
       if lid = - 1 then Some n
       else do {
         found \<leftarrow> find_socket_not_listen n conn;
         if found \<noteq> - 1 then tcp_send_synack n e (unat found) sq else open_conn n e conn lid sq } }
     else Some n)"

definition on_syn_sent :: "tcp_net \<Rightarrow> tcp_env \<Rightarrow> nat \<Rightarrow> u8 \<Rightarrow> u32 \<Rightarrow> tcp_net option" where
  "on_syn_sent n e i flags sq = (if has_flag flags SYN \<and> has_flag flags ACK then do {
       n1 \<leftarrow> change_sock n i (\<lambda>s. s\<lparr>seq_remote := ucast (sq + 1)\<rparr>);
       n2 \<leftarrow> tcp_send_ack n1 e i;
       change_sock n2 i (set_state NET_STATE_ESTABLISHED) }
     else Some n)"

definition on_syn_received :: "tcp_net \<Rightarrow> nat \<Rightarrow> net_tuple_tcp \<Rightarrow> u8 \<Rightarrow> tcp_net option" where
  "on_syn_received n i s flags = (if has_flag flags ACK then do {
       (pushed, n1) \<leftarrow> push_backlog n (of_nat i) (unat (listen_id s));
       n2 \<leftarrow> (if pushed = 0 then mark_socket_as_deleted n1 i else Some n1);
       n3 \<leftarrow> change_sock n2 i (set_state NET_STATE_ESTABLISHED);
       (_, n4) \<leftarrow> resume_first_thread_pending_on_listen n3 (unat (listen_id s));
       Some n4 }
     else Some n)"

definition on_fin :: "tcp_net \<Rightarrow> tcp_env \<Rightarrow> nat \<Rightarrow> u8 \<Rightarrow> tcp_net option" where
  "on_fin n e i flags = (if has_flag flags FIN then do {
       n1 \<leftarrow> change_sock n i (\<lambda>s. s\<lparr>seq_remote := seq_remote s + 1\<rparr>);
       n2 \<leftarrow> tcp_send_ack n1 e i;
       change_sock n2 i (set_state NET_STATE_CLOSE_WAIT) }
     else Some n)"

definition on_ack :: "tcp_net \<Rightarrow> nat \<Rightarrow> u8 \<Rightarrow> u32 \<Rightarrow> tcp_net option" where
  "on_ack n i flags ack_seq = (if has_flag flags ACK then map_option snd (handle_tcp_receive_ack_established n i (ucast ack_seq)) else Some n)"

text \<open>The flag of the result says that the handler returned before the time of the socket is set.\<close>

definition on_data :: "tcp_net \<Rightarrow> tcp_env \<Rightarrow> net_tuple \<Rightarrow> nat \<Rightarrow> u32 \<Rightarrow> u8 list \<Rightarrow> u64 \<Rightarrow> (bool \<times> tcp_net) option" where
  "on_data n e conn i sq payload payload_len = (if payload_len \<noteq> 0 then do {
       sock \<leftarrow> deref (sockets n) i;
       if seq_remote sock \<noteq> 0 \<and> ucast sq \<noteq> seq_remote sock then Some (True, n)
       else do {
         (_, n') \<leftarrow> handle_tcp_established_packet n e conn payload payload_len;
         Some (False, n') } }
     else Some (False, n))"

definition on_established :: "tcp_net \<Rightarrow> tcp_env \<Rightarrow> net_tuple \<Rightarrow> nat \<Rightarrow> u8 \<Rightarrow> u32 \<Rightarrow> u32 \<Rightarrow> u8 list \<Rightarrow> u64 \<Rightarrow> (bool \<times> tcp_net) option" where
  "on_established n e conn i flags sq ack_seq payload payload_len = do {
     n1 \<leftarrow> on_fin n e i flags;
     n2 \<leftarrow> on_ack n1 i flags ack_seq;
     on_data n2 e conn i sq payload payload_len }"

definition on_state :: "tcp_net \<Rightarrow> tcp_env \<Rightarrow> net_tuple \<Rightarrow> nat \<Rightarrow> u8 \<Rightarrow> u32 \<Rightarrow> u32 \<Rightarrow> u8 list \<Rightarrow> u64 \<Rightarrow> (bool \<times> tcp_net) option" where
  "on_state n e conn i flags sq ack_seq payload payload_len = do {
     s \<leftarrow> deref (sockets n) i;
     let continue = map_option (Pair False);
     (case nt_state (tuple s) of
       NET_STATE_LISTEN \<Rightarrow> continue (on_listen n e conn flags sq)
     | NET_STATE_SYN_SENT \<Rightarrow> continue (on_syn_sent n e i flags sq)
     | NET_STATE_SYN_RECEIVED \<Rightarrow> continue (on_syn_received n i s flags)
     | NET_STATE_ESTABLISHED \<Rightarrow> on_established n e conn i flags sq ack_seq payload payload_len
     | NET_STATE_FIN_WAIT_1 \<Rightarrow> continue (change_sock n i (
         if has_flag flags ACK then set_state NET_STATE_FIN_WAIT_2
         else if has_flag flags FIN then set_state NET_STATE_CLOSING else (\<lambda>s. s)))
     | NET_STATE_FIN_WAIT_2 \<Rightarrow> continue (change_sock n i (\<lambda>s.
         (if has_flag flags FIN then set_state NET_STATE_TIME_WAIT s else s)\<lparr>send_retry_count := 0\<rparr>))
     | NET_STATE_LAST_ACK \<Rightarrow> continue (change_sock n i (
         if has_flag flags ACK then set_state NET_STATE_CLOSED else (\<lambda>s. s)))
     | NET_STATE_CLOSING \<Rightarrow> continue (change_sock n i (\<lambda>s.
         (if has_flag flags ACK then set_state NET_STATE_TIME_WAIT s else s)\<lparr>send_retry_count := 0\<rparr>))
     | _ \<Rightarrow> Some (False, n)) }"

definition handle_tcp_v4 :: "tcp_net \<Rightarrow> tcp_env \<Rightarrow> u8 list \<Rightarrow> nat \<Rightarrow> tcp_net option" where
  "handle_tcp_v4 n e buf buf_len = do {
     version_ihl \<leftarrow> nth_opt buf 14;
     let ip_header_len = 4 * unat (version_ihl AND 0x0F);
     data_offset \<leftarrow> nth_opt buf 46;
     let tcp_header_len = 4 * unat (drop_bit 4 data_offset);
     src \<leftarrow> read32 buf 26;
     dst \<leftarrow> read32 buf 30;
     sport \<leftarrow> read16 buf 34;
     dport \<leftarrow> read16 buf 36;
     sq \<leftarrow> read32 buf 38;
     ack \<leftarrow> read32 buf 42;
     flags \<leftarrow> nth_opt buf 47;
     let tcp_len = (of_nat buf_len - 14 - of_nat ip_header_len - of_nat tcp_header_len :: u16);
     let payload = drop (14 + ip_header_len + tcp_header_len) buf;
     let conn = conn_of (tuple (e_tuple e)) (ntohl src) (ntohl dst) (ntohs sport) (ntohs dport);
     id1 \<leftarrow> find_socket_not_listen n conn;
     sock_id \<leftarrow> (if id1 = - 1 then find_socket n conn else Some id1);
     if sock_id = - 1 then Some n
     else do {
       (stop, n1) \<leftarrow> on_state n e conn (unat sock_id) flags (ntohl sq) (ntohl ack) payload (ucast tcp_len);
       if stop then Some n1 else change_sock n1 (unat sock_id) (touch (e_now e)) } }"

section \<open>The checksum of a segment verifies\<close>

fun swap_pairs :: "u8 list \<Rightarrow> u8 list" where
  "swap_pairs [] = []"
| "swap_pairs [a] = [0, a]"
| "swap_pairs (a # b # data) = b # a # swap_pairs data"

lemma pair_be: "push_bit 8 (ucast a) OR ucast b = (ucast (ucast b OR push_bit 8 (ucast a) :: u16) :: u32)"
  for a b :: u8
  by (rule bit_word_eqI) (auto simp: bit_simps dest: bit_imp_le_length)

lemma sum16_be_swap: "sum16_be acc xs = sum16 acc (swap_pairs xs)"
proof (induction acc xs rule: sum16_be.induct)
  case (2 acc a)
  then show ?case using pair_be [of a 0] by simp
qed (simp_all add: pair_be)

lemma length_swap_pairs: "length (swap_pairs xs) = 2 * ((length xs + 1) div 2)"
  by (induction xs rule: swap_pairs.induct) auto

lemma htons_bytes: "ucast (htons c) = (ucast (drop_bit 8 c) :: u8)" "ucast (drop_bit 8 (htons c)) = (ucast c :: u8)"
  by (rule bit_word_eqI; auto simp: htons_def bit_simps)+

lemma word_sum_hdr:
  "word_sum (swap_pairs (tcp_hdr sp dp sq ack flags (htons c))) = word_sum (swap_pairs (tcp_hdr sp dp sq ack flags 0)) + unat c"
  using unat_le16 [of c] by (simp add: tcp_hdr_def le16_def le32_def htons_bytes)

lemma length_tcp_hdr: "length (tcp_hdr sp dp sq ack flags c) = 20"
  by (simp add: tcp_hdr_def le16_def le32_def)

lemma unat_low16: "unat (x AND 0xFFFF :: u32) \<le> 65535"
proof -
  have "x AND 0xFFFF = take_bit 16 x" by (simp add: take_bit_eq_mask mask_numeral)
  then have "unat (x AND 0xFFFF) = unat x mod 65536" by (simp add: take_bit_eq_mod unat_mod)
  then show ?thesis by simp
qed

lemma unat_add_le: "unat (a + b :: u32) \<le> unat a + unat b"
  by (simp add: unat_word_ariths)

lemma pseudo_sum_bound: "unat (pseudo_sum src dst len) \<le> 5 * 65535 + 6"
proof -
  have l: "unat (ucast len :: u32) \<le> 65535" using unat_bound [of len] by (simp add: unat_ucast_mod)
  note u = unat_low16 [of "drop_bit 16 src"] unat_low16 [of src] unat_low16 [of "drop_bit 16 dst"] unat_low16 [of dst]
  have "unat (pseudo_sum src dst len) \<le> unat (drop_bit 16 src AND 0xFFFF) + unat (src AND 0xFFFF)
      + unat (drop_bit 16 dst AND 0xFFFF) + unat (dst AND 0xFFFF) + unat (6 :: u32) + unat (ucast len :: u32)"
    unfolding pseudo_sum_def by (intro order_trans [OF unat_add_le] add_mono order_refl)
  then show ?thesis using u l by simp
qed



section \<open>The states of connections\<close>

text \<open>
  The specification: each socket has a state, a segment with some flags moves
  one of them along the edges of the state machine, or makes a listening socket
  open a new connection.
\<close>

fun tcp_next :: "net_state_t \<Rightarrow> u8 \<Rightarrow> net_state_t" where
  "tcp_next NET_STATE_SYN_SENT f = (if has_flag f SYN \<and> has_flag f ACK then NET_STATE_ESTABLISHED else NET_STATE_SYN_SENT)"
| "tcp_next NET_STATE_SYN_RECEIVED f = (if has_flag f ACK then NET_STATE_ESTABLISHED else NET_STATE_SYN_RECEIVED)"
| "tcp_next NET_STATE_ESTABLISHED f = (if has_flag f FIN then NET_STATE_CLOSE_WAIT else NET_STATE_ESTABLISHED)"
| "tcp_next NET_STATE_FIN_WAIT_1 f = (if has_flag f ACK then NET_STATE_FIN_WAIT_2
     else if has_flag f FIN then NET_STATE_CLOSING else NET_STATE_FIN_WAIT_1)"
| "tcp_next NET_STATE_FIN_WAIT_2 f = (if has_flag f FIN then NET_STATE_TIME_WAIT else NET_STATE_FIN_WAIT_2)"
| "tcp_next NET_STATE_CLOSING f = (if has_flag f ACK then NET_STATE_TIME_WAIT else NET_STATE_CLOSING)"
| "tcp_next NET_STATE_LAST_ACK f = (if has_flag f ACK then NET_STATE_CLOSED else NET_STATE_LAST_ACK)"
| "tcp_next st f = st"

inductive tcp_step :: "u8 \<Rightarrow> (nat \<Rightarrow> net_state_t option) \<Rightarrow> (nat \<Rightarrow> net_state_t option) \<Rightarrow> bool" for f where
  ignore: "tcp_step f \<sigma> \<sigma>"
| advance: "\<sigma> i = Some st \<Longrightarrow> st \<noteq> NET_STATE_LISTEN \<Longrightarrow> tcp_step f \<sigma> (\<sigma>(i \<mapsto> tcp_next st f))"
| accept: "\<sigma> i = Some NET_STATE_LISTEN \<Longrightarrow> has_flag f SYN \<Longrightarrow> \<sigma> j = None \<Longrightarrow> tcp_step f \<sigma> (\<sigma>(j \<mapsto> NET_STATE_SYN_RECEIVED))"

definition state_of :: "net_tuple_tcp \<Rightarrow> net_state_t" where
  "state_of s = nt_state (tuple s)"

definition states :: "tcp_net \<Rightarrow> nat \<Rightarrow> net_state_t option" where
  "states n i = map_option state_of (view (sockets n) i)"

text \<open>The sockets are in blocks that the block map knows to be in use.\<close>

definition socks_ok :: "tcp_net \<Rightarrow> bool" where
  "socks_ok n \<longleftrightarrow> table_ok (sockets n) \<and> length (slots (sockets n)) = 5120
     \<and> unat (total_memory_blocks_count (n_frames n)) \<le> 2 ^ 35
     \<and> unat (total_memory_blocks_count (n_frames n)) + 6 \<le> length (memory_map (n_frames n))
     \<and> (\<forall>p\<in>set (slots (sockets n)). p \<noteq> 0 \<longrightarrow>
         (\<exists>b<unat (total_memory_blocks_count (n_frames n)). p = blk b \<and> used (n_frames n) b))"

named_theorems tcp_keeps \<open>operations that keep the states of the sockets\<close>

text \<open>The steps of the handlers: what they keep.\<close>

definition keeps :: "tcp_net \<Rightarrow> tcp_net \<Rightarrow> bool" where
  "keeps n n' \<longleftrightarrow> (socks_ok n \<longrightarrow> socks_ok n' \<and> states n' = states n)"

lemma keeps_refl: "keeps n n"
  by (simp add: keeps_def)

lemma keeps_trans: "keeps n m \<Longrightarrow> keeps m l \<Longrightarrow> keeps n l"
  by (auto simp: keeps_def)

lemma keeps_same: "sockets n' = sockets n \<Longrightarrow> n_frames n' = n_frames n \<Longrightarrow> keeps n n'"
  by (simp add: keeps_def socks_ok_def states_def fun_eq_iff)

lemma change_sock_states:
  assumes "change_sock n i f = Some n'" "socks_ok n"
  shows "socks_ok n' \<and> states n' = (states n)(i := map_option (state_of \<circ> f) (view (sockets n) i))"
proof -
  from assms(1) obtain tb where tb: "store (sockets n) i f = Some tb" "n' = n\<lparr>sockets := tb\<rparr>"
    by (auto simp: change_sock_def bind_eq_Some_conv)
  have "table_ok (sockets n)" using assms(2) by (simp add: socks_ok_def)
  from store_view [OF this tb(1)] show ?thesis
    using assms(2) by (auto simp: tb(2) socks_ok_def states_def fun_eq_iff option.map_comp)
qed

lemma change_sock_keeps:
  assumes "change_sock n i f = Some n'" "\<And>s. state_of (f s) = state_of s"
  shows "keeps n n'"
  using change_sock_states [OF assms(1)] assms(2) by (auto simp: keeps_def states_def fun_eq_iff comp_def)

lemma set_state_states:
  assumes "change_sock n i f = Some n'" "socks_ok n" "\<And>s. state_of (f s) = st"
  shows "socks_ok n' \<and> states n' = (states n)(i \<mapsto> st)"
proof -
  have "store (sockets n) i f \<noteq> None" using assms(1) by (auto simp: change_sock_def bind_eq_Some_conv)
  then have "view (sockets n) i \<noteq> None" by (simp only: store_Some_iff not_False_eq_True)
  then show ?thesis using change_sock_states [OF assms(1,2)] assms(3) by (auto simp: comp_def)
qed

lemma state_of_simps [simp]:
  "state_of (set_state st s) = st" "state_of (touch now s) = state_of s"
  "state_of (s\<lparr>seq_remote := a\<rparr>) = state_of s" "state_of (s\<lparr>seq_local := a\<rparr>) = state_of s"
  "state_of (s\<lparr>send_retry_count := r\<rparr>) = state_of s" "state_of (s\<lparr>ack_est_blocked := b\<rparr>) = state_of s"
  "state_of (s\<lparr>listen_id := a\<rparr>) = state_of s" "state_of (s\<lparr>sock_mem := m\<rparr>) = state_of s"
  by (simp_all add: state_of_def set_state_def touch_def)

lemma nic_send_keeps [tcp_keeps]:
  "nic_send_ipv4 n e src dst proto hdr payload = Some (r, n') \<Longrightarrow> sockets n' = sockets n \<and> n_frames n' = n_frames n"
  by (auto simp: nic_send_ipv4_def bind_eq_Some_conv Let_def split: if_splits option.splits)

lemma send_segment_keeps [tcp_keeps]:
  "send_segment n e t sq ack flags payload = Some (r, n') \<Longrightarrow> sockets n' = sockets n \<and> n_frames n' = n_frames n"
  by (auto simp: send_segment_def Let_def dest: nic_send_keeps)

lemma tcp_send_ack_keeps: "tcp_send_ack n e i = Some n' \<Longrightarrow> keeps n n'"
  by (auto simp: tcp_send_ack_def bind_eq_Some_conv dest!: send_segment_keeps change_sock_keeps
      intro: keeps_trans [OF keeps_same])

lemma tcp_send_synack_keeps: "tcp_send_synack n e i a = Some n' \<Longrightarrow> keeps n n'"
  by (auto simp: tcp_send_synack_def Let_def bind_eq_Some_conv dest!: send_segment_keeps change_sock_keeps
      intro: keeps_trans [OF keeps_same])

lemma ring_write_state: "ring_write b s len payload = Some (r, s') \<Longrightarrow> state_of s' = state_of s"
  by (auto simp: ring_write_def bind_eq_Some_conv state_of_def)

lemma put_sock_keeps:
  assumes "put_sock n i s' = Some n'" "deref (sockets n) i = Some s" "state_of s' = state_of s"
  shows "keeps n n'"
proof -
  have "states n' = states n \<and> socks_ok n'" if ok: "socks_ok n"
    using change_sock_states [OF assms(1) [unfolded put_sock_def] ok] assms(2,3)
    by (auto simp: states_def fun_eq_iff deref_view comp_def)
  then show ?thesis by (simp add: keeps_def)
qed

lemma recv_append_keeps: "recv_socket_append_tcp n i payload len = Some (b, n') \<Longrightarrow> keeps n n'"
  by (auto simp: recv_socket_append_tcp_def bind_eq_Some_conv dest: ring_write_state put_sock_keeps)

lemma push_backlog_keeps: "push_backlog n c l = Some (b, n') \<Longrightarrow> keeps n n'"
  by (auto simp: push_backlog_def bind_eq_Some_conv dest: ring_write_state put_sock_keeps)

lemma wake_all_keeps: "wake_all n a = Some n' \<Longrightarrow> keeps n n'"
  by (auto simp: wake_all_def bind_eq_Some_conv intro: keeps_same)

lemma resume_keeps: "resume_first_thread_pending_on_listen n l = Some (r, n') \<Longrightarrow> keeps n n'"
  by (auto simp: resume_first_thread_pending_on_listen_def bind_eq_Some_conv intro!: keeps_same split: option.splits)

lemma receive_ack_keeps:
  assumes "handle_tcp_receive_ack_established n i a = Some (b, n')"
  shows "keeps n n'"
proof -
  from assms consider "n' = n" | f n1 p where "change_sock n i f = Some n1" "\<And>s. state_of (f s) = state_of s" "wake_all n1 p = Some n'"
    by (auto simp: handle_tcp_receive_ack_established_def bind_eq_Some_conv state_of_def split: if_splits)
  then show ?thesis
  proof cases
    case (2 f n1 p)
    from keeps_trans [OF change_sock_keeps [OF 2(1,2)] wake_all_keeps [OF 2(3)]] show ?thesis .
  qed (simp add: keeps_refl)
qed

lemma established_packet_keeps:
  assumes "handle_tcp_established_packet n e conn payload len = Some (b, n')"
  shows "keeps n n'"
proof -
  from assms consider "n' = n"
    | i f n1 n2 n3 p r where "change_sock n i f = Some n1" "\<And>s. state_of (f s) = state_of s"
      "recv_socket_append_tcp n1 i payload len = Some (r, n2)" "tcp_send_ack n2 e i = Some n3" "wake_all n3 p = Some n'"
    by (auto simp: handle_tcp_established_packet_def bind_eq_Some_conv Let_def state_of_def split: if_splits)
  then show ?thesis
  proof cases
    case (2 i f n1 n2 n3 p r)
    from keeps_trans [OF change_sock_keeps [OF 2(1,2)] keeps_trans [OF recv_append_keeps [OF 2(3)]
      keeps_trans [OF tcp_send_ack_keeps [OF 2(4)] wake_all_keeps [OF 2(5)]]]] show ?thesis .
  qed (simp add: keeps_refl)
qed

text \<open>A step: the table stays well formed and the states move along the machine.\<close>

definition steps :: "u8 \<Rightarrow> tcp_net \<Rightarrow> tcp_net \<Rightarrow> bool" where
  "steps f n n' \<longleftrightarrow> (socks_ok n \<longrightarrow> socks_ok n' \<and> tcp_step f (states n) (states n'))"

lemma keeps_steps: "keeps n n' \<Longrightarrow> steps f n n'"
  by (auto simp: keeps_def steps_def intro: tcp_step.ignore)

lemma keeps_steps_keeps: "keeps n m \<Longrightarrow> steps f m l \<Longrightarrow> keeps l r \<Longrightarrow> steps f n r"
  by (auto simp: keeps_def steps_def)

lemma advance_steps:
  assumes "states n i = Some st" "st \<noteq> NET_STATE_LISTEN" "keeps n m" "change_sock m i g = Some n'"
    "\<And>s. state_of s = st \<Longrightarrow> state_of (g s) = tcp_next st f"
  shows "steps f n n'"
proof -
  have "socks_ok n' \<and> states n' = (states n)(i \<mapsto> tcp_next st f)" if ok: "socks_ok n"
  proof -
    have m: "socks_ok m" "states m = states n" using assms(3) ok by (auto simp: keeps_def)
    then have "states m i = Some st" using assms(1) by simp
    then obtain s where "view (sockets m) i = Some s" "state_of s = st" by (auto simp: states_def)
    then show ?thesis using change_sock_states [OF assms(4) m(1)] m(2) assms(5) by (auto simp: comp_def)
  qed
  then show ?thesis using assms(1,2) by (auto simp: steps_def intro: tcp_step.advance)
qed

lemma new_sock_address:
  assumes "socks_ok n" "get_continuous_free_blocks (n_frames n) 6 = Some (b, fr)"
  shows "b * 4096 + HM = blk (unat b)" "unat b < unat (total_memory_blocks_count (n_frames n))" "used fr (unat b)"
    "\<And>j. used (n_frames n) j \<Longrightarrow> used fr j" "blk (unat b) \<noteq> 0" "blk (unat b) \<notin> set (slots (sockets n))"
    "total_memory_blocks_count fr = total_memory_blocks_count (n_frames n)"
    "length (memory_map fr) = length (memory_map (n_frames n))"
proof -
  let ?fr = "n_frames n"
  let ?k = "unat (total_memory_blocks_count ?fr) - unat (first_block ?fr)"
  have "?k \<noteq> 0" using assms(2) by (cases ?k) (auto simp: get_continuous_free_blocks_def)
  then have f: "unat (first_block ?fr) + ?k = unat (total_memory_blocks_count ?fr)" by simp
  have T: "unat (total_memory_blocks_count ?fr) \<le> 2 ^ 35" "unat (total_memory_blocks_count ?fr) + 6 \<le> length (memory_map ?fr)"
    using assms(1) by (auto simp: socks_ok_def)
  have C: "unat b < unat (total_memory_blocks_count ?fr) \<and> (\<forall>j<6. \<not> used ?fr (unat b + j))
    \<and> (\<forall>j. used fr j = (unat b \<le> j \<and> j < unat b + 6 \<or> used ?fr j))
    \<and> length (memory_map fr) = length (memory_map ?fr)
    \<and> total_memory_blocks_count fr = total_memory_blocks_count ?fr"
    using continuous_from_Some [of ?k "first_block ?fr" 6 ?fr b fr] assms(2) f T
    by (simp add: get_continuous_free_blocks_def)
  show "b * 4096 + HM = blk (unat b)" by (simp add: blk_def)
  show b: "unat b < unat (total_memory_blocks_count ?fr)" using C by simp
  then have b35: "unat b < 2 ^ 35" using T by linarith
  show "blk (unat b) \<noteq> 0" by (rule blk_nonzero [OF b35])
  have nu: "\<not> used ?fr (unat b)" using C by (metis add_0_right zero_less_numeral)
  show "blk (unat b) \<notin> set (slots (sockets n))"
  proof
    assume "blk (unat b) \<in> set (slots (sockets n))"
    with assms(1) \<open>blk (unat b) \<noteq> 0\<close> obtain b' where b': "b' < unat (total_memory_blocks_count ?fr)"
      "blk (unat b) = blk b'" "used ?fr b'" unfolding socks_ok_def by blast
    have "b' < 2 ^ 35" using b' T by linarith
    from blk_inj [OF b35 this b'(2)] b'(3) nu show False by simp
  qed
  show "used fr (unat b)" "\<And>j. used (n_frames n) j \<Longrightarrow> used fr j"
    "total_memory_blocks_count fr = total_memory_blocks_count (n_frames n)"
    "length (memory_map fr) = length (memory_map (n_frames n))" using C by auto
qed

lemma unat_m1: "unat (- 1 :: u64) = 2 ^ 64 - 1"
  by (simp add: unsigned_minus_1_eq_mask mask_eq_exp_minus_1)

lemma create_socket_states:
  assumes ok: "socks_ok n" and c: "create_socket_tcp n e orig = Some (new_id, n1)"
  shows "n1 = n \<and> 5120 \<le> unat new_id \<or>
    (\<exists>i<5120. new_id = of_nat i \<and> states n i = None \<and> socks_ok n1 \<and> states n1 = (states n)(i \<mapsto> NET_STATE_CLOSED))"
proof -
  have len: "length (slots (sockets n)) = 5120" using ok by (simp add: socks_ok_def)
  show ?thesis
  proof (cases "first_from 5120 0 (\<lambda>i. slots (sockets n) ! i = 0)")
    case None
    then have "n1 = n" "new_id = - 1 \<or> new_id = 5120"
      using c len by (auto simp: create_socket_tcp_def bind_eq_Some_conv split: if_splits)
    then show ?thesis using unat_m1 by auto
  next
    case (Some i)
    then have i: "i < 5120" "slots (sockets n) ! i = 0" by (auto dest: first_from_SomeD)
    from c Some len consider "n1 = n" "new_id = - 1"
      | b fr r1 r2 tb where "get_continuous_free_blocks (n_frames n) 6 = Some (b, fr)"
        "install (sockets n) i (b * 4096 + HM) (fresh_sock e orig r1 r2) = Some tb" "new_id = of_nat i"
        "n1 = n\<lparr>sockets := tb, n_frames := fr\<rparr>"
      by (auto simp: create_socket_tcp_def bind_eq_Some_conv split: if_splits)
    then show ?thesis
    proof cases
      case (2 b fr r1 r2 tb)
      let ?s = "fresh_sock e orig r1 r2"
      have st: "state_of ?s = NET_STATE_CLOSED" by (simp add: fresh_sock_def state_of_def)
      note a = new_sock_address [OF ok 2(1)]
      have t: "table_ok (sockets n)" using ok by (simp add: socks_ok_def)
      from install_view [OF t, of i "blk (unat b)" ?s] i len a(1,5,6) 2(2)
      have tb: "view tb = (view (sockets n))(i \<mapsto> ?s)" "table_ok tb" "slots tb = (slots (sockets n))[i := blk (unat b)]" by auto
      have "states n i = None" using i by (simp add: states_def view_def)
      moreover have "states n1 = (states n)(i \<mapsto> NET_STATE_CLOSED)" using tb 2 st by (simp add: states_def fun_eq_iff)
      moreover have "\<exists>b<unat (total_memory_blocks_count fr). p = blk b \<and> used fr b" if "p \<in> set (slots tb)" "p \<noteq> 0" for p
      proof -
        from that(1) tb(3) have "p = blk (unat b) \<or> p \<in> set (slots (sockets n))" by (auto dest: set_update_subset)
        then show ?thesis using ok that(2) a(2-4,7) unfolding socks_ok_def by metis
      qed
      then have "socks_ok n1" using ok tb(2,3) a(7,8) 2(4) by (simp add: socks_ok_def)
      ultimately show ?thesis using i 2(3) by blast
    qed (use unat_m1 in simp)
  qed
qed

lemma open_conn_steps:
  assumes "open_conn n e conn lid sq = Some n'" "socks_ok n"
  shows "\<exists>j. states n j = None \<and> socks_ok n' \<and> states n' = (states n)(j \<mapsto> NET_STATE_SYN_RECEIVED)"
proof -
  let ?g = "\<lambda>s. set_state NET_STATE_SYN_RECEIVED (s\<lparr>listen_id := lid\<rparr>)"
  from assms(1) obtain new_id n1 n2 n3 where c: "create_socket_tcp n e ((e_tuple e)\<lparr>tuple := conn\<rparr>) = Some (new_id, n1)"
    "change_sock n1 (unat new_id) ?g = Some n2" "tcp_send_synack n2 e (unat new_id) sq = Some n3"
    "change_sock n3 (unat new_id) (touch (e_now e)) = Some n'"
    by (auto simp: open_conn_def bind_eq_Some_conv)
  have no: "\<not> 5120 \<le> unat new_id" if "n1 = n"
    using c(2) that assms(2) by (auto simp: change_sock_def store_def socks_ok_def nth_opt_def)
  with create_socket_states [OF assms(2) c(1)] obtain j where j: "j < 5120" "new_id = of_nat j" "states n j = None" "socks_ok n1"
    "states n1 = (states n)(j \<mapsto> NET_STATE_CLOSED)" by blast
  have u: "unat new_id = j" using j(1,2) by (simp add: unat_of_nat_lt)
  have 2: "socks_ok n2 \<and> states n2 = (states n)(j \<mapsto> NET_STATE_SYN_RECEIVED)"
    using set_state_states [OF c(2) j(4), of NET_STATE_SYN_RECEIVED] j(5) u by simp
  have "keeps n2 n'" by (rule keeps_trans [OF tcp_send_synack_keeps [OF c(3)] change_sock_keeps [OF c(4)]]) simp
  with 2 j(3) show ?thesis by (auto simp: keeps_def)
qed

lemma on_listen_steps:
  assumes "on_listen n e conn f sq = Some n'" "states n i = Some NET_STATE_LISTEN"
  shows "steps f n n'"
proof -
  consider "\<not> has_flag f SYN" | "has_flag f SYN" "find_listen n conn = Some (- 1)"
    | lid found where "has_flag f SYN" "find_listen n conn = Some lid" "lid \<noteq> - 1" "find_socket_not_listen n conn = Some found"
    using assms(1) unfolding on_listen_def
    by (cases "find_listen n conn"; cases "find_socket_not_listen n conn") (auto split: if_splits)
  then show ?thesis
  proof cases
    case 1
    with assms(1) show ?thesis by (simp add: on_listen_def keeps_steps keeps_refl)
  next
    case 2
    with assms(1) show ?thesis by (simp add: on_listen_def keeps_steps keeps_refl)
  next
    case 3
    show ?thesis
    proof (cases "found = - 1")
      case True
      with 3 assms(1) have "open_conn n e conn lid sq = Some n'" by (simp add: on_listen_def)
      then have "socks_ok n \<Longrightarrow> socks_ok n' \<and> tcp_step f (states n) (states n')"
        using open_conn_steps [of n e conn lid sq n'] tcp_step.accept [where \<sigma> = "states n" and i = i and f = f, OF assms(2) 3(1)] by force
      then show ?thesis by (simp add: steps_def)
    next
      case False
      with 3 assms(1) have "tcp_send_synack n e (unat found) sq = Some n'" by (simp add: on_listen_def)
      then show ?thesis by (rule keeps_steps [OF tcp_send_synack_keeps])
    qed
  qed
qed

lemma on_syn_sent_steps:
  assumes "on_syn_sent n e i f sq = Some n'" "states n i = Some NET_STATE_SYN_SENT"
  shows "steps f n n'"
proof (cases "has_flag f SYN \<and> has_flag f ACK")
  case True
  with assms(1) obtain g n1 n2 where c: "change_sock n i g = Some n1" "\<And>s. state_of (g s) = state_of s"
    "tcp_send_ack n1 e i = Some n2" "change_sock n2 i (set_state NET_STATE_ESTABLISHED) = Some n'"
    by (auto simp: on_syn_sent_def bind_eq_Some_conv state_of_def)
  show ?thesis
    by (rule advance_steps [OF assms(2) _ keeps_trans [OF change_sock_keeps [OF c(1,2)] tcp_send_ack_keeps [OF c(3)]] c(4)])
      (use True in simp_all)
qed (use assms(1) in \<open>auto simp: on_syn_sent_def intro!: keeps_steps keeps_refl split: if_splits\<close>)

lemma on_syn_received_steps:
  assumes "on_syn_received n i s f = Some n'" "states n i = Some NET_STATE_SYN_RECEIVED"
  shows "steps f n n'"
proof (cases "has_flag f ACK")
  case True
  with assms(1) obtain r n1 n2 n3 r' where c: "push_backlog n (of_nat i) (unat (listen_id s)) = Some (r, n1)"
    "(if r = 0 then mark_socket_as_deleted n1 i else Some n1) = Some n2"
    "change_sock n2 i (set_state NET_STATE_ESTABLISHED) = Some n3"
    "resume_first_thread_pending_on_listen n3 (unat (listen_id s)) = Some (r', n')"
    by (auto simp: on_syn_received_def bind_eq_Some_conv)
  have "socks_ok n' \<and> states n' = (states n)(i \<mapsto> NET_STATE_ESTABLISHED)" if ok: "socks_ok n"
  proof -
    have 1: "socks_ok n1" "states n1 = states n" using push_backlog_keeps [OF c(1)] ok by (auto simp: keeps_def)
    have "n2 = n1 \<or> change_sock n1 i (set_state NET_STATE_CLOSE_WAIT) = Some n2"
      using c(2) by (auto simp: mark_socket_as_deleted_def bind_eq_Some_conv split: if_splits)
    then have "socks_ok n2 \<and> (\<exists>v. states n2 = (states n1)(i := v))"
    proof
      assume "n2 = n1"
      then show ?thesis using 1(1) by (auto intro: exI [of _ "states n1 i"])
    next
      assume "change_sock n1 i (set_state NET_STATE_CLOSE_WAIT) = Some n2"
      from set_state_states [OF this 1(1)] show ?thesis by auto
    qed
    then obtain v where 2: "socks_ok n2" "states n2 = (states n1)(i := v)" by blast
    from set_state_states [OF c(3) 2(1)] 2(2) 1(2)
    have 3: "socks_ok n3 \<and> states n3 = (states n)(i \<mapsto> NET_STATE_ESTABLISHED)" by simp
    with resume_keeps [OF c(4)] show ?thesis by (simp add: keeps_def)
  qed
  then show ?thesis using True tcp_step.advance [where \<sigma> = "states n" and i = i and f = f, OF assms(2)] by (simp add: steps_def)
qed (use assms(1) in \<open>auto simp: on_syn_received_def intro!: keeps_steps keeps_refl split: if_splits\<close>)

lemma on_fin_steps:
  assumes "on_fin n e i f = Some n'" "states n i = Some NET_STATE_ESTABLISHED"
  shows "steps f n n'"
proof (cases "has_flag f FIN")
  case True
  with assms(1) obtain n1 n2 where c: "change_sock n i (\<lambda>s. s\<lparr>seq_remote := seq_remote s + 1\<rparr>) = Some n1"
    "tcp_send_ack n1 e i = Some n2" "change_sock n2 i (set_state NET_STATE_CLOSE_WAIT) = Some n'"
    by (auto simp: on_fin_def bind_eq_Some_conv)
  show ?thesis
    by (rule advance_steps [OF assms(2) _ keeps_trans [OF change_sock_keeps [OF c(1)] tcp_send_ack_keeps [OF c(2)]] c(3)])
      (use True in simp_all)
qed (use assms(1) in \<open>auto simp: on_fin_def intro!: keeps_steps keeps_refl\<close>)

lemma on_ack_keeps: "on_ack n i f a = Some n' \<Longrightarrow> keeps n n'"
  by (auto simp: on_ack_def intro: keeps_refl receive_ack_keeps split: if_splits)

lemma on_data_keeps: "on_data n e conn i sq payload len = Some (stop, n') \<Longrightarrow> keeps n n'"
  by (auto simp: on_data_def bind_eq_Some_conv intro: keeps_refl established_packet_keeps split: if_splits)

lemma on_established_steps:
  assumes "on_established n e conn i f sq ack payload len = Some (stop, n')" "states n i = Some NET_STATE_ESTABLISHED"
  shows "steps f n n'"
proof -
  from assms(1) obtain n1 n2 where c: "on_fin n e i f = Some n1" "on_ack n1 i f ack = Some n2"
    "on_data n2 e conn i sq payload len = Some (stop, n')"
    by (auto simp: on_established_def bind_eq_Some_conv)
  from keeps_steps_keeps [OF keeps_refl on_fin_steps [OF c(1) assms(2)]
    keeps_trans [OF on_ack_keeps [OF c(2)] on_data_keeps [OF c(3)]]] show ?thesis .
qed

lemma on_state_steps:
  assumes "on_state n e conn i f sq ack payload len = Some (stop, n')"
  shows "steps f n n'"
proof -
  from assms obtain s where s: "deref (sockets n) i = Some s" by (auto simp: on_state_def bind_eq_Some_conv)
  then have st: "states n i = Some (nt_state (tuple s))" by (simp add: deref_view states_def state_of_def)
  have adv: "steps f n n'" if "change_sock n i g = Some n'" "nt_state (tuple s) \<noteq> NET_STATE_LISTEN"
    "\<And>t. state_of t = nt_state (tuple s) \<Longrightarrow> state_of (g t) = tcp_next (nt_state (tuple s)) f" for g
    by (rule advance_steps [OF st that(2) keeps_refl that(1,3)])
  show ?thesis
  proof (cases "nt_state (tuple s)")
    case NET_STATE_LISTEN
    with assms s st show ?thesis by (auto simp: on_state_def Let_def intro: on_listen_steps)
  next
    case NET_STATE_SYN_SENT
    with assms s st show ?thesis by (auto simp: on_state_def Let_def intro: on_syn_sent_steps)
  next
    case NET_STATE_SYN_RECEIVED
    with assms s st show ?thesis by (auto simp: on_state_def Let_def intro: on_syn_received_steps)
  next
    case NET_STATE_ESTABLISHED
    with assms s st show ?thesis by (auto simp: on_state_def Let_def intro: on_established_steps)
  qed (use assms s in \<open>auto simp: on_state_def Let_def keeps_steps keeps_refl intro: adv split: if_splits\<close>)
qed

lemma segment_refines:
  assumes "socks_ok n" "handle_tcp_v4 n e buf len = Some n'"
  shows "socks_ok n' \<and> tcp_step (buf ! 47) (states n) (states n')"
proof -
  from assms(2) consider "n' = n" | conn i sq ack payload plen stop n1 where
      "on_state n e conn i (buf ! 47) sq ack payload plen = Some (stop, n1)"
      "n' = n1 \<or> change_sock n1 i (touch (e_now e)) = Some n'"
    by (auto simp: handle_tcp_v4_def bind_eq_Some_conv Let_def nth_opt_eq_Some split: if_splits)
  then have "steps (buf ! 47) n n'"
  proof cases
    case 2
    from 2(2) have "keeps n1 n'" using change_sock_keeps [of n1 i "touch (e_now e)" n'] by (auto intro: keeps_refl)
    with on_state_steps [OF 2(1)] show ?thesis by (rule keeps_steps_keeps [OF keeps_refl])
  qed (simp add: keeps_steps keeps_refl)
  with assms(1) show ?thesis by (simp add: steps_def)
qed

section \<open>Sequences of segments\<close>

fun run_segments :: "tcp_net \<Rightarrow> (tcp_env \<times> u8 list \<times> nat) list \<Rightarrow> tcp_net option" where
  "run_segments n [] = Some n"
| "run_segments n ((e, buf, len) # segs) = do { n' \<leftarrow> handle_tcp_v4 n e buf len; run_segments n' segs }"

fun tcp_path :: "u8 list \<Rightarrow> (nat \<Rightarrow> net_state_t option) \<Rightarrow> (nat \<Rightarrow> net_state_t option) \<Rightarrow> bool" where
  "tcp_path [] \<sigma> \<sigma>' \<longleftrightarrow> \<sigma>' = \<sigma>"
| "tcp_path (f # fs) \<sigma> \<sigma>' \<longleftrightarrow> (\<exists>\<tau>. tcp_step f \<sigma> \<tau> \<and> tcp_path fs \<tau> \<sigma>')"

text \<open>How far a connection has come.\<close>

fun tcp_rank :: "net_state_t \<Rightarrow> nat" where
  "tcp_rank NET_STATE_LISTEN = 0"
| "tcp_rank NET_STATE_SYN_SENT = 1"
| "tcp_rank NET_STATE_SYN_RECEIVED = 1"
| "tcp_rank NET_STATE_ESTABLISHED = 2"
| "tcp_rank NET_STATE_CLOSE_WAIT = 3"
| "tcp_rank NET_STATE_FIN_WAIT_1 = 3"
| "tcp_rank NET_STATE_FIN_WAIT_2 = 4"
| "tcp_rank NET_STATE_CLOSING = 4"
| "tcp_rank NET_STATE_LAST_ACK = 4"
| "tcp_rank NET_STATE_TIME_WAIT = 5"
| "tcp_rank NET_STATE_CLOSED = 6"

lemma tcp_next_rank: "tcp_rank st \<le> tcp_rank (tcp_next st f)"
  by (cases st) auto

lemma tcp_step_forward:
  "tcp_step f \<sigma> \<tau> \<Longrightarrow> \<sigma> i = Some st \<Longrightarrow> \<exists>st'. \<tau> i = Some st' \<and> tcp_rank st \<le> tcp_rank st' \<and> (st = NET_STATE_LISTEN \<longrightarrow> st' = st)"
  by (induction rule: tcp_step.induct) (auto simp: tcp_next_rank)

lemma tcp_path_forward:
  "tcp_path fs \<sigma> \<sigma>' \<Longrightarrow> \<sigma> i = Some st \<Longrightarrow> \<exists>st'. \<sigma>' i = Some st' \<and> tcp_rank st \<le> tcp_rank st' \<and> (st = NET_STATE_LISTEN \<longrightarrow> st' = st)"
proof (induction fs \<sigma> \<sigma>' arbitrary: st rule: tcp_path.induct)
  case (2 f fs \<sigma> \<sigma>')
  then obtain \<tau> where t: "tcp_step f \<sigma> \<tau>" "tcp_path fs \<tau> \<sigma>'" by auto
  from tcp_step_forward [OF t(1) 2(3)] obtain st1 where s: "\<tau> i = Some st1" "tcp_rank st \<le> tcp_rank st1" "st = NET_STATE_LISTEN \<longrightarrow> st1 = st" by blast
  from 2(1) [OF t(2) s(1)] s show ?case by (metis le_trans)
qed auto

text \<open>
  C9.  The handler of TCP segments implements the state machine of TCP.  In a sequence
  of segments each one leaves the states of all sockets as they are, or moves
  the state of one connection along the edge that its flags allow, or, when it asks a
  listening socket for a connection, adds one socket in the state of a half open
  connection.  The table of sockets stays well formed, no connection goes back to
  an earlier stage, and a listening socket goes on listening.
\<close>

theorem tcp_refines:
  assumes "socks_ok n" "run_segments n segs = Some n'"
  shows "socks_ok n' \<and> tcp_path (map (\<lambda>(e, buf, len). buf ! 47) segs) (states n) (states n')
    \<and> (\<forall>i st. states n i = Some st \<longrightarrow> (\<exists>st'. states n' i = Some st' \<and> tcp_rank st \<le> tcp_rank st'
         \<and> (st = NET_STATE_LISTEN \<longrightarrow> st' = st)))"
proof -
  have "socks_ok n' \<and> tcp_path (map (\<lambda>(e, buf, len). buf ! 47) segs) (states n) (states n')"
    using assms
  proof (induction segs arbitrary: n)
    case (Cons seg segs)
    obtain e buf len where seg: "seg = (e, buf, len)" by (cases seg)
    with Cons.prems(2) obtain m where m: "handle_tcp_v4 n e buf len = Some m" "run_segments m segs = Some n'"
      by (auto simp: bind_eq_Some_conv)
    note s = segment_refines [OF Cons.prems(1) m(1)]
    with Cons.IH [of m] m(2) seg show ?case by auto
  qed simp
  then show ?thesis using tcp_path_forward by blast
qed

text \<open>A connection that has sent its last segment, and the acknowledgement it waits for.\<close>

definition example_conn :: net_tuple_tcp where
  "example_conn = \<lparr>tuple = \<lparr>local_ip_h = 0, local_ip_l = 1, remote_ip_h = 0, remote_ip_l = 2, local_port = 3, remote_port = 4,
      protocol = 6, nt_version = 4, nt_state = NET_STATE_FIN_WAIT_1, last_updated_time_us = \<lparr>tv_sec = 0, tv_microsec = 0\<rparr>,
      xid = 0, recv_wait_flag = 0, nt_head = 0, nt_tail = 0, receive_blocking = True\<rparr>,
    send_retry_count = 0, send_payload_len = 0, ack_est_blocked = False, seq_local = 0, seq_remote = 0, tcp_backlog = 0,
    send_wait_flag = 0, listen_wait_flag = 0, listen_id = 0, sock_mem = []\<rparr>"

definition example_net :: tcp_net where
  "example_net = \<lparr>n_inet = example_inet, sockets = \<lparr>slots = blk 1 # replicate 5119 0, heap = [blk 1 \<mapsto> example_conn]\<rparr>,
     listens = \<lparr>slots = replicate 5120 0, heap = Map.empty\<rparr>, n_threads = \<lparr>slots = [], heap = Map.empty\<rparr>,
     n_frames = \<lparr>memory_map = [1, 1] @ replicate 20 0, total_memory_blocks_count = 10, end_kernel = HM\<rparr>,
     ip_ident = 0, next_isn = 0, sent = []\<rparr>"

definition example_env :: tcp_env where
  "example_env = \<lparr>e_now = \<lparr>tv_sec = 9, tv_microsec = 0\<rparr>, e_mac = replicate 6 0, e_tuple = example_conn, e_mem = [], e_rand1 = 0, e_rand2 = 0\<rparr>"

definition example_segment :: "u8 list" where
  "example_segment = replicate 14 0 @ [0x45] @ replicate 11 0 @ [0, 0, 0, 2, 0, 0, 0, 1]
     @ [0, 4, 0, 3, 0, 0, 0, 0, 0, 0, 0, 0, 0x50, 0x10] @ replicate 6 0"

lemma example_net_ok: "socks_ok example_net"
proof -
  have "blk 1 \<noteq> 0" by (rule blk_nonzero) simp
  moreover have "used (n_frames example_net) 1" by (simp add: used_def example_net_def)
  ultimately show ?thesis
    by (auto simp: socks_ok_def table_ok_def example_net_def nth_Cons split: nat.splits intro!: exI [of _ "Suc 0"])
qed

lemma example_socket: "deref (sockets example_net) 0 = Some example_conn"
  using blk_nonzero [of 1] by (simp add: deref_def example_net_def nth_opt_def)

lemma example_segment_run: "\<exists>n'. handle_tcp_v4 example_net example_env example_segment 54 = Some n'"
proof -
  have b: "blk 1 \<noteq> 0" by (rule blk_nonzero) simp
  let ?conn = "conn_of (tuple example_conn) 2 1 4 3"
  have f: "find_socket_not_listen example_net ?conn = Some 0"
  proof -
    have s: "(5120 :: nat) = Suc 5119" by simp
    show ?thesis unfolding find_socket_not_listen_def s sock_scan.simps
      using b by (simp add: example_net_def nth_opt_def net_tuple_equal_v4_def conn_of_def example_conn_def)
  qed
  have r: "nth_opt example_segment 14 = Some 0x45" "nth_opt example_segment 46 = Some 0x50" "nth_opt example_segment 47 = Some 0x10"
    "read32 example_segment 26 = Some 0x02000000" "read32 example_segment 30 = Some 0x01000000"
    "read16 example_segment 34 = Some 0x0400" "read16 example_segment 36 = Some 0x0300"
    "read32 example_segment 38 = Some 0" "read32 example_segment 42 = Some 0" by code_simp+
  have h: "ntohl 0x02000000 = 2" "ntohl 0x01000000 = 1" "ntohs 0x0400 = 4" "ntohs 0x0300 = 3" "has_flag 0x10 ACK" by code_simp+
  have e: "e_tuple example_env = example_conn" by (simp add: example_env_def)
  have st: "nt_state (tuple example_conn) = NET_STATE_FIN_WAIT_1" by (simp add: example_conn_def)
  have ch: "\<exists>m. change_sock example_net 0 g = Some m \<and> (\<exists>m'. change_sock m 0 g' = Some m')" for g g'
    using b by (simp add: change_sock_def store_def example_net_def nth_opt_def)
  obtain m m' where m: "change_sock example_net 0 (set_state NET_STATE_FIN_WAIT_2) = Some m"
    "change_sock m 0 (touch (e_now example_env)) = Some m'" using ch by blast
  have "on_state example_net example_env ?conn 0 0x10 sq ack p l = Some (False, m)" for sq ack p l
    by (simp add: on_state_def example_socket st h m)
  then show ?thesis using f m(2) by (simp add: handle_tcp_v4_def r h e Let_def)
qed

theorem tcp_refines_witness:
  "\<exists>n'. run_segments example_net [(example_env, example_segment, 54)] = Some n' \<and> socks_ok n'
    \<and> tcp_path [example_segment ! 47] (states example_net) (states n')"
proof -
  obtain n' where "run_segments example_net [(example_env, example_segment, 54)] = Some n'"
    using example_segment_run by auto
  with tcp_refines [OF example_net_ok this] show ?thesis by auto
qed

section \<open>Closing and listening that go wrong\<close>

text \<open>
  Sending a final segment returns 0 when it succeeds, which is taken for failure: the state of
  the connection only changes when nothing was sent.
\<close>

lemma fin_sent_keeps_state:
  assumes "tcp_send_fin n e i = Some (r, n')" "deref (sockets n) i = Some s"
    "send_segment n e (tuple s) (seq_local s) (seq_remote s) 0x11 [] = Some (0, m)"
  shows "r = False \<and> sockets n' = sockets n"
  using assms send_segment_keeps [OF assms(3)]
  by (auto simp: tcp_send_fin_def bind_eq_Some_conv Let_def split: if_splits)

end
