(* ===== verification/Fat_table.thy ===== *)
theory Fat_table
  imports Cstring
begin

text \<open>
  The lower half of the driver \<^verbatim>\<open>src/core/filesytem/fat32.h\<close>: sectors of the disk
  (\<^verbatim>\<open>src/core/driver/ide.h\<close>), the boot sector of a partition, clusters and the file
  allocation table.

  A partition is given by its number in the partition table.  A sector that the disk does not have
  is read forever, since the loop that waits for data ignores the error status; a write to
  it, or to a sector that the disk refuses, is answered by an error.
\<close>

section \<open>Sectors\<close>

record disk =
  d_data :: "u32 \<Rightarrow> u8 list option"
  d_fails :: "u32 \<Rightarrow> bool"

text \<open>The registers of the disk take 28 bits of a sector number.\<close>

definition lba28 :: "u32 \<Rightarrow> u32" where
  "lba28 lba = lba AND 0x0FFFFFFF"

definition read_sector :: "disk \<Rightarrow> u32 \<Rightarrow> u8 list option" where
  "read_sector d lba = d_data d (lba28 lba)"

definition write_sector :: "disk \<Rightarrow> u32 \<Rightarrow> u8 list \<Rightarrow> u64 \<times> disk" where
  "write_sector d lba buf = (let a = lba28 lba in
     if d_fails d a \<or> d_data d a = None then (- 1, d) else (0, d\<lparr>d_data := (d_data d)(a \<mapsto> buf)\<rparr>))"

section \<open>The partition\<close>

definition get_partition_lba :: "disk \<Rightarrow> u8 \<Rightarrow> u32 option" where
  "get_partition_lba d part_index = do {
     mbr \<leftarrow> read_sector d 0;
     s0 \<leftarrow> nth_opt mbr 510;
     s1 \<leftarrow> nth_opt mbr 511;
     if s0 \<noteq> 0x55 \<or> s1 \<noteq> 0xAA then Some 0 else read32 mbr (0x1BE + unat part_index * 16 + 8) }"

definition get_root_dir_cluster :: "disk \<Rightarrow> u8 \<Rightarrow> u32 option" where
  "get_root_dir_cluster d part_index = do {
     part_lba \<leftarrow> get_partition_lba d part_index;
     if part_lba = 0 then Some 0 else do { boot_sector \<leftarrow> read_sector d part_lba; read32 boot_sector 44 } }"

text \<open>The fields of the boot sector that the driver uses.\<close>

record BPB_FAT32 =
  bytes_per_sector :: u16
  sectors_per_cluster :: u8
  reserved_sector_count :: u16
  num_fats :: u8
  fat_size_32 :: u32
  root_cluster :: u32

definition bpb_of :: "u8 list \<Rightarrow> BPB_FAT32 option" where
  "bpb_of s = do {
     bps \<leftarrow> read16 s 11;
     spc \<leftarrow> nth_opt s 13;
     res \<leftarrow> read16 s 14;
     nf \<leftarrow> nth_opt s 16;
     fsz \<leftarrow> read32 s 36;
     root \<leftarrow> read32 s 44;
     Some \<lparr>bytes_per_sector = bps, sectors_per_cluster = spc, reserved_sector_count = res, num_fats = nf,
       fat_size_32 = fsz, root_cluster = root\<rparr> }"

text \<open>Every function starts by reading the partition table and the boot sector.\<close>

definition part_bpb :: "disk \<Rightarrow> u8 \<Rightarrow> (u32 \<times> BPB_FAT32) option" where
  "part_bpb d part = do {
     lba \<leftarrow> get_partition_lba d part;
     s \<leftarrow> read_sector d lba;
     bpb \<leftarrow> bpb_of s;
     Some (lba, bpb) }"

section \<open>Clusters\<close>

definition first_data_sector :: "BPB_FAT32 \<Rightarrow> u32" where
  "first_data_sector bpb = ucast (reserved_sector_count bpb) + ucast (num_fats bpb) * fat_size_32 bpb"

definition cluster_to_lba :: "BPB_FAT32 \<Rightarrow> u32 \<Rightarrow> u32" where
  "cluster_to_lba bpb cluster = (cluster - 2) * ucast (sectors_per_cluster bpb) + first_data_sector bpb"

fun read_sectors :: "nat \<Rightarrow> nat \<Rightarrow> disk \<Rightarrow> u32 \<Rightarrow> u8 list \<Rightarrow> u8 list option" where
  "read_sectors 0 i d first buf = Some buf"
| "read_sectors (Suc k) i d first buf = do {
     s \<leftarrow> read_sector d (first + of_nat i);
     buf' \<leftarrow> put_all buf (i * 512) s;
     read_sectors k (Suc i) d first buf' }"

text \<open>
  The result is the code that is returned and the buffer, of which the rest is
  unchanged.  The size that is passed is always that of the buffer.
\<close>

definition read_cluster :: "disk \<Rightarrow> u8 \<Rightarrow> u32 \<Rightarrow> u8 list \<Rightarrow> (int \<times> u8 list) option" where
  "read_cluster d part cluster_id buf = (if cluster_id < 2 then Some (- 1, buf)
     else do {
       (part_lba_start, bpb) \<leftarrow> part_bpb d part;
       let first = part_lba_start + first_data_sector bpb + (cluster_id - 2) * ucast (sectors_per_cluster bpb);
       if length buf < unat (sectors_per_cluster bpb) * unat (bytes_per_sector bpb) then Some (- 2, buf)
       else do { buf' \<leftarrow> read_sectors (unat (sectors_per_cluster bpb)) 0 d first buf; Some (0, buf') } })"

fun write_sectors :: "nat \<Rightarrow> nat \<Rightarrow> disk \<Rightarrow> u32 \<Rightarrow> u8 list \<Rightarrow> (int \<times> disk) option" where
  "write_sectors 0 i d first buf = Some (0, d)"
| "write_sectors (Suc k) i d first buf = do {
     s \<leftarrow> read_bytes buf (i * 512) 512;
     let (r, d') = write_sector d (first + of_nat i) s;
     if r \<noteq> 0 then Some (- 1, d') else write_sectors k (Suc i) d' first buf }"

text \<open>Eight sectors are written, whatever the size of a cluster.\<close>

definition write_cluster :: "disk \<Rightarrow> u8 \<Rightarrow> u32 \<Rightarrow> u8 list \<Rightarrow> (int \<times> disk) option" where
  "write_cluster d part cluster_id buf = (if cluster_id < 2 then Some (- 1, d)
     else do {
       (part_lba_start, bpb) \<leftarrow> part_bpb d part;
       write_sectors 8 0 d (part_lba_start + first_data_sector bpb + (cluster_id - 2) * ucast (sectors_per_cluster bpb)) buf })"

section \<open>The file allocation table\<close>

abbreviation (input) FAT32_EOC :: u32 where "FAT32_EOC \<equiv> 0x0FFFFFF8"

text \<open>The sector that holds the entry of a cluster and the place of the entry in it.\<close>

definition fat_place :: "u32 \<Rightarrow> BPB_FAT32 \<Rightarrow> u32 \<Rightarrow> (u32 \<times> nat) option" where
  "fat_place lba bpb cluster = (if bytes_per_sector bpb = 0 then None
     else let fat_offset = cluster * 4
       in Some (lba + (ucast (reserved_sector_count bpb) + fat_offset div ucast (bytes_per_sector bpb)),
            unat (fat_offset mod ucast (bytes_per_sector bpb))))"

definition get_next_cluster :: "disk \<Rightarrow> u8 \<Rightarrow> u32 \<Rightarrow> u32 option" where
  "get_next_cluster d part cluster = do {
     (lba, bpb) \<leftarrow> part_bpb d part;
     (sector, offset_in_sector) \<leftarrow> fat_place lba bpb cluster;
     buf \<leftarrow> read_sector d sector;
     v \<leftarrow> read32 buf offset_in_sector;
     let next_cluster = v AND 0x0FFFFFFF;
     Some (if next_cluster \<ge> FAT32_EOC then 0 else next_cluster) }"

definition fat32_get_fat_entry :: "disk \<Rightarrow> u8 \<Rightarrow> u32 \<Rightarrow> u32 option" where
  "fat32_get_fat_entry d part cluster_id = do {
     (lba, bpb) \<leftarrow> part_bpb d part;
     (sector, offset) \<leftarrow> fat_place lba bpb cluster_id;
     sector_buf \<leftarrow> read_sector d sector;
     v \<leftarrow> read32 sector_buf offset;
     Some (v AND 0x0FFFFFFF) }"

text \<open>The copies of the table; errors of the disk are ignored.\<close>

fun write_mirrors :: "nat \<Rightarrow> nat \<Rightarrow> disk \<Rightarrow> u32 \<Rightarrow> u32 \<Rightarrow> u8 list \<Rightarrow> disk" where
  "write_mirrors 0 i d sector fat_size buf = d"
| "write_mirrors (Suc k) i d sector fat_size buf =
     write_mirrors k (Suc i) (snd (write_sector d (sector + of_nat i * fat_size) buf)) sector fat_size buf"

definition fat32_set_fat_entry :: "disk \<Rightarrow> u8 \<Rightarrow> u32 \<Rightarrow> u32 \<Rightarrow> disk option" where
  "fat32_set_fat_entry d part cluster_id v = do {
     (lba, bpb) \<leftarrow> part_bpb d part;
     (sector, offset) \<leftarrow> fat_place lba bpb cluster_id;
     sector_buf \<leftarrow> read_sector d sector;
     sector_buf' \<leftarrow> put_all sector_buf offset (le32 (v AND 0x0FFFFFFF));
     let d' = snd (write_sector d sector sector_buf');
     Some (write_mirrors (unat (num_fats bpb) - 1) 1 d' sector (fat_size_32 bpb) sector_buf') }"

text \<open>The search for a cluster whose entry is 0; \<open>k\<close> entries are left.\<close>

fun blank_from :: "nat \<Rightarrow> u32 \<Rightarrow> disk \<Rightarrow> u32 \<Rightarrow> u32 \<Rightarrow> u32 option" where
  "blank_from 0 cluster d fat_start entries_per_sector = Some 0"
| "blank_from (Suc k) cluster d fat_start entries_per_sector = do {
     sector \<leftarrow> read_sector d (fat_start + cluster div entries_per_sector);
     v \<leftarrow> read32 sector (unat (cluster mod entries_per_sector) * 4);
     if v AND 0x0FFFFFFF = 0 then Some cluster else blank_from k (cluster + 1) d fat_start entries_per_sector }"

definition find_blank_cluster :: "disk \<Rightarrow> u8 \<Rightarrow> u32 option" where
  "find_blank_cluster d part = do {
     (lba, bpb) \<leftarrow> part_bpb d part;
     let entries_per_sector = ucast (bytes_per_sector bpb) div 4;
     blank_from (unat (fat_size_32 bpb * entries_per_sector) - 2) 2 d (lba + ucast (reserved_sector_count bpb)) entries_per_sector }"

definition expand_file :: "disk \<Rightarrow> u8 \<Rightarrow> u32 \<Rightarrow> (u32 \<times> disk) option" where
  "expand_file d part cluster = do {
     new_cluster \<leftarrow> find_blank_cluster d part;
     if new_cluster < 2 then Some (0, d)
     else do {
       d1 \<leftarrow> fat32_set_fat_entry d part cluster new_cluster;
       d2 \<leftarrow> fat32_set_fat_entry d1 part new_cluster FAT32_EOC;
       Some (new_cluster, d2) } }"

text \<open>
  The older way to set an entry.  The mirrors are overwritten by the buffer that
  holds the boot sector.
\<close>

definition fat_set_entry :: "disk \<Rightarrow> u8 \<Rightarrow> u32 \<Rightarrow> u32 \<Rightarrow> disk option" where
  "fat_set_entry d part cluster v = do {
     lba \<leftarrow> get_partition_lba d part;
     buffer \<leftarrow> read_sector d lba;
     bpb \<leftarrow> bpb_of buffer;
     let fat_offset = cluster * 4;
     let sector = lba + ucast (reserved_sector_count bpb) + fat_offset div 512;
     buffer1 \<leftarrow> read_sector d sector;
     buffer1' \<leftarrow> put_all buffer1 (unat (fat_offset mod 512) div 4 * 4) (le32 (v AND 0x0FFFFFFF));
     let d' = snd (write_sector d sector buffer1');
     Some (write_mirrors (unat (num_fats bpb) - 1) 1 d' sector (fat_size_32 bpb) buffer) }"

definition put_fat_word :: "disk \<Rightarrow> u32 \<Rightarrow> u32 \<Rightarrow> u32 \<Rightarrow> u32 \<Rightarrow> disk option" where
  "put_fat_word d fat_start entries_per_sector cluster v = (if entries_per_sector = 0 then None
     else do {
       sector \<leftarrow> read_sector d (fat_start + cluster div entries_per_sector);
       sector' \<leftarrow> put_all sector (unat (cluster mod entries_per_sector) * 4) (le32 v);
       Some (snd (write_sector d (fat_start + cluster div entries_per_sector) sector')) })"

definition extend_dirent_cluster :: "disk \<Rightarrow> u8 \<Rightarrow> u32 \<Rightarrow> u32 \<Rightarrow> disk option" where
  "extend_dirent_cluster d part last_cluster_id blank_cluster_id = do {
     (lba, bpb) \<leftarrow> part_bpb d part;
     let fat_start = lba + ucast (reserved_sector_count bpb);
     let entries_per_sector = ucast (bytes_per_sector bpb) div 4;
     d1 \<leftarrow> put_fat_word d fat_start entries_per_sector last_cluster_id (blank_cluster_id AND 0x0FFFFFFF);
     d2 \<leftarrow> put_fat_word d1 fat_start entries_per_sector blank_cluster_id 0x0FFFFFFF;
     (_, d3) \<leftarrow> write_cluster d2 part blank_cluster_id (replicate 4096 0);
     Some d3 }"

text \<open>The loop that frees the clusters of a file or directory.\<close>

partial_function (option) free_chain :: "disk \<Rightarrow> u8 \<Rightarrow> u32 \<Rightarrow> disk option" where
  "free_chain d part this_cluster_id =
     (if 2 \<le> this_cluster_id \<and> this_cluster_id < FAT32_EOC then do {
        nxt \<leftarrow> fat32_get_fat_entry d part this_cluster_id;
        d' \<leftarrow> fat32_set_fat_entry d part this_cluster_id 0;
        free_chain d' part nxt }
      else Some d)"

section \<open>The layout of a volume\<close>

text \<open>
  A volume with sectors of 512 bytes and clusters of 4096, the sizes that the driver is
  written for.  The clusters from 2 to below \<open>v_count\<close> have an entry and a place on the disk.
\<close>

record volume =
  v_part :: u8
  v_lba :: u32
  v_bpb :: BPB_FAT32
  v_count :: nat

definition fat_start :: "volume \<Rightarrow> nat" where
  "fat_start V = unat (v_lba V) + unat (reserved_sector_count (v_bpb V))"

definition fat_size :: "volume \<Rightarrow> nat" where
  "fat_size V = unat (fat_size_32 (v_bpb V))"

definition data_start :: "volume \<Rightarrow> nat" where
  "data_start V = fat_start V + unat (num_fats (v_bpb V)) * fat_size V"

definition fat_sector :: "volume \<Rightarrow> u32 \<Rightarrow> nat" where
  "fat_sector V c = fat_start V + unat c div 128"

definition clus_sector :: "volume \<Rightarrow> u32 \<Rightarrow> nat" where
  "clus_sector V c = data_start V + 8 * (unat c - 2)"

definition vol_end :: "volume \<Rightarrow> nat" where
  "vol_end V = data_start V + 8 * (v_count V - 2)"

definition valid :: "volume \<Rightarrow> u32 \<Rightarrow> bool" where
  "valid V c \<longleftrightarrow> 2 \<le> c \<and> unat c < v_count V"

definition geometry_ok :: "volume \<Rightarrow> bool" where
  "geometry_ok V \<longleftrightarrow> bytes_per_sector (v_bpb V) = 512 \<and> sectors_per_cluster (v_bpb V) = 8
     \<and> 0 < num_fats (v_bpb V) \<and> 0 < reserved_sector_count (v_bpb V) \<and> 0 < v_lba V
     \<and> v_count V \<le> 128 * fat_size V \<and> fat_size V \<le> 2 ^ 21 \<and> vol_end V \<le> 2 ^ 28"

definition vol_ok :: "volume \<Rightarrow> disk \<Rightarrow> bool" where
  "vol_ok V d \<longleftrightarrow> part_bpb d (v_part V) = Some (v_lba V, v_bpb V)
     \<and> (\<forall>s<vol_end V. (\<exists>buf. d_data d (of_nat s) = Some buf \<and> length buf = 512) \<and> \<not> d_fails d (of_nat s))"

text \<open>What the disk holds: sectors by number, entries and clusters of the volume.\<close>

definition sec :: "disk \<Rightarrow> nat \<Rightarrow> u8 list" where
  "sec d s = the (d_data d (of_nat s))"

definition put_sec :: "nat \<Rightarrow> u8 list \<Rightarrow> disk \<Rightarrow> disk" where
  "put_sec s buf d = d\<lparr>d_data := (d_data d)(of_nat s \<mapsto> buf)\<rparr>"

definition entry_at :: "volume \<Rightarrow> disk \<Rightarrow> u32 \<Rightarrow> u32" where
  "entry_at V d c = the (read32 (sec d (fat_sector V c)) (4 * (unat c mod 128))) AND 0x0FFFFFFF"

definition data_at :: "volume \<Rightarrow> disk \<Rightarrow> u32 \<Rightarrow> u8 list" where
  "data_at V d c = concat (map (\<lambda>i. sec d (clus_sector V c + i)) [0..<8])"

section \<open>Sectors by number\<close>

lemma lba28_of_nat: "s < 2 ^ 28 \<Longrightarrow> lba28 (of_nat s) = of_nat s"
proof -
  assume "s < 2 ^ 28"
  moreover have "lba28 (of_nat s) = take_bit 28 (of_nat s)" by (simp add: lba28_def take_bit_eq_mask mask_numeral)
  ultimately show ?thesis by (simp add: word_unat_eq_iff take_bit_eq_mod unat_mod unat_of_nat)
qed

lemma of_nat_eq: "s < 2 ^ 28 \<Longrightarrow> t < 2 ^ 28 \<Longrightarrow> (of_nat s :: u32) = of_nat t \<longleftrightarrow> s = t"
  by (auto simp: word_unat_eq_iff unat_of_nat)

lemma sec_put [simp]: "s < 2 ^ 28 \<Longrightarrow> t < 2 ^ 28 \<Longrightarrow> sec (put_sec s buf d) t = (if t = s then buf else sec d t)"
  by (simp add: sec_def put_sec_def of_nat_eq)

lemma vol_end_bound: "geometry_ok V \<Longrightarrow> s < vol_end V \<Longrightarrow> s < 2 ^ 28"
  by (simp add: geometry_ok_def)

lemma read_sector_vol:
  assumes "geometry_ok V" "vol_ok V d" "s < vol_end V"
  shows "read_sector d (of_nat s) = Some (sec d s)" "length (sec d s) = 512"
  using assms(2,3) vol_end_bound [OF assms(1,3)] by (auto simp: read_sector_def sec_def vol_ok_def lba28_of_nat)

lemma write_sector_vol:
  assumes "geometry_ok V" "vol_ok V d" "s < vol_end V"
  shows "write_sector d (of_nat s) buf = (0, put_sec s buf d)"
  using assms(2,3) vol_end_bound [OF assms(1,3)]
  by (auto simp: write_sector_def put_sec_def vol_ok_def lba28_of_nat Let_def)

lemma get_partition_lba_put:
  assumes "0 < s" "s < 2 ^ 28"
  shows "get_partition_lba (put_sec s buf d) p = get_partition_lba d p"
  using assms of_nat_eq [of 0 s] by (simp add: get_partition_lba_def read_sector_def put_sec_def lba28_of_nat [of 0, simplified])

lemma geometry_bounds:
  assumes "geometry_ok V"
  shows "unat (v_lba V) < fat_start V" "0 < unat (v_lba V)" "fat_start V \<le> data_start V" "data_start V \<le> vol_end V"
    "fat_start V + fat_size V \<le> data_start V"
proof -
  have *: "0 < unat (reserved_sector_count (v_bpb V))" "0 < unat (v_lba V)" "0 < unat (num_fats (v_bpb V))"
    using assms by (simp_all add: geometry_ok_def word_less_nat_alt)
  then show "unat (v_lba V) < fat_start V" "0 < unat (v_lba V)" by (simp_all add: fat_start_def)
  show "fat_start V + fat_size V \<le> data_start V" using *(3) by (simp add: data_start_def)
  then show "fat_start V \<le> data_start V" by simp
  show "data_start V \<le> vol_end V" by (simp add: vol_end_def)
qed

lemma vol_ok_put:
  assumes g: "geometry_ok V" and v: "vol_ok V d" and s: "fat_start V \<le> s" "s < vol_end V" and l: "length buf = 512"
  shows "vol_ok V (put_sec s buf d)"
proof -
  note b = geometry_bounds [OF g]
  have s28: "s < 2 ^ 28" "unat (v_lba V) < 2 ^ 28" "unat (v_lba V) \<noteq> s" using vol_end_bound [OF g] s b by auto
  have "get_partition_lba (put_sec s buf d) (v_part V) = get_partition_lba d (v_part V)"
    using s b s28 by (intro get_partition_lba_put) auto
  moreover have "get_partition_lba d (v_part V) = Some (v_lba V)"
    using v by (auto simp: vol_ok_def part_bpb_def bind_eq_Some_conv)
  moreover have "read_sector (put_sec s buf d) (v_lba V) = read_sector d (v_lba V)"
    using of_nat_eq [OF s28(2,1)] s28(3) lba28_of_nat [OF s28(2)] by (simp add: read_sector_def put_sec_def)
  ultimately have "part_bpb (put_sec s buf d) (v_part V) = part_bpb d (v_part V)" by (simp add: part_bpb_def)
  then show ?thesis using v l s28 vol_end_bound [OF g] by (auto simp: vol_ok_def put_sec_def of_nat_eq)
qed

section \<open>Where entries and clusters are\<close>

lemma valid_bounds:
  assumes "geometry_ok V" "valid V c"
  shows "2 \<le> unat c" "unat c < v_count V" "unat c < 2 ^ 26" "fat_sector V c < fat_start V + fat_size V"
    "fat_sector V c < vol_end V" "fat_start V \<le> fat_sector V c" "clus_sector V c + 8 \<le> vol_end V" "data_start V \<le> clus_sector V c"
proof -
  show c: "2 \<le> unat c" "unat c < v_count V" using assms(2) by (simp_all add: valid_def word_le_nat_alt)
  have e: "vol_end V \<le> 2 ^ 28" "v_count V \<le> 128 * fat_size V" using assms(1) by (simp_all add: geometry_ok_def)
  then show "unat c < 2 ^ 26" using c by (simp add: vol_end_def)
  have "unat c < 128 * fat_size V" using c e by linarith
  then show f: "fat_sector V c < fat_start V + fat_size V" by (simp add: fat_sector_def div_less_iff_less_mult mult.commute)
  then show "fat_sector V c < vol_end V" using geometry_bounds(4,5) [OF assms(1)] by linarith
  show "fat_start V \<le> fat_sector V c" by (simp add: fat_sector_def)
  show "clus_sector V c + 8 \<le> vol_end V" using c by (simp add: clus_sector_def vol_end_def)
  show "data_start V \<le> clus_sector V c" by (simp add: clus_sector_def)
qed

lemma unat_up: "LENGTH('a :: len) \<le> LENGTH('b :: len) \<Longrightarrow> unat (ucast (w :: 'a word) :: 'b word) = unat w"
proof -
  assume "LENGTH('a) \<le> LENGTH('b)"
  then have "(2 :: nat) ^ LENGTH('a) \<le> 2 ^ LENGTH('b)" by simp
  then have "unat w < 2 ^ LENGTH('b)" using unat_bound [of w] by linarith
  then show ?thesis by (simp add: unsigned_ucast_eq take_bit_nat_eq_self)
qed

lemma fat_place_vol:
  assumes "geometry_ok V" "valid V c"
  shows "fat_place (v_lba V) (v_bpb V) c = Some (of_nat (fat_sector V c), 4 * (unat c mod 128))"
proof -
  have b: "bytes_per_sector (v_bpb V) = 512" using assms(1) by (simp add: geometry_ok_def)
  note v = valid_bounds [OF assms]
  have c4: "unat (c * 4) = unat c * 4" using v(3) by (simp add: unat_word_ariths)
  have o: "unat (c * 4 mod 512) = 4 * (unat c mod 128)"
    using mult_mod_right [of 4 "unat c" 128] by (simp add: unat_mod c4 mult.commute)
  have q: "unat (c * 4 div 512) = unat c div 128" by (simp add: unat_div c4 div_mult2_eq [of _ 4, symmetric])
  have "fat_sector V c < 2 ^ 28" using v(5) vol_end_bound [OF assms(1)] by blast
  then have "v_lba V + (ucast (reserved_sector_count (v_bpb V)) + x) = of_nat (fat_sector V c)" if "unat x = unat c div 128" for x
    using that by (simp add: word_unat_eq_iff unat_word_ariths unat_of_nat fat_sector_def fat_start_def unat_up add.assoc)
  from this [OF q] show ?thesis by (simp add: fat_place_def b o Let_def)
qed

lemma clus_place_vol:
  assumes "geometry_ok V" "valid V c" "i < 8"
  shows "v_lba V + first_data_sector (v_bpb V) + (c - 2) * ucast (sectors_per_cluster (v_bpb V)) + of_nat i = of_nat (clus_sector V c + i)"
proof -
  have b: "sectors_per_cluster (v_bpb V) = 8" using assms(1) by (simp add: geometry_ok_def)
  note v = valid_bounds [OF assms(1,2)]
  have c2: "unat (c - 2) = unat c - 2" using v(1) by (simp add: unat_sub_if')
  have c8: "unat (x * 8) = 8 * unat x" if "unat x < 2 ^ 26" for x :: u32 using that by (simp add: unat_word_ariths)
  have l: "clus_sector V c + i < 2 ^ 28" using v(7) assms(3) vol_end_bound [OF assms(1), of "clus_sector V c + i"] by linarith
  then have f: "unat (num_fats (v_bpb V)) * unat (fat_size_32 (v_bpb V)) < 2 ^ 28"
    by (simp add: clus_sector_def data_start_def fat_size_def)
  have "unat (first_data_sector (v_bpb V)) = unat (reserved_sector_count (v_bpb V)) + unat (num_fats (v_bpb V)) * unat (fat_size_32 (v_bpb V))"
    using f unat_bound [of "reserved_sector_count (v_bpb V)"]
    by (simp add: first_data_sector_def unat_word_ariths unat_up)
  then have "unat (v_lba V + first_data_sector (v_bpb V) + x * 8 + of_nat i) = clus_sector V c + i" if "unat x = unat c - 2" for x
    using l assms(3) that c8 [of x] v(3)
    by (simp add: unat_word_ariths unat_of_nat clus_sector_def data_start_def fat_start_def fat_size_def)
  from this [OF c2] have "unat (v_lba V + first_data_sector (v_bpb V) + (c - 2) * 8 + of_nat i) = clus_sector V c + i" .
  from arg_cong [OF this, of "of_nat :: nat \<Rightarrow> u32"] show ?thesis unfolding b by simp
qed

section \<open>The entries of a volume\<close>

lemma part_bpb_vol: "vol_ok V d \<Longrightarrow> part_bpb d (v_part V) = Some (v_lba V, v_bpb V)"
  by (simp add: vol_ok_def)

lemma entry_word:
  assumes "geometry_ok V" "vol_ok V d" "valid V c"
  obtains w where "read32 (sec d (fat_sector V c)) (4 * (unat c mod 128)) = Some w" "entry_at V d c = w AND 0x0FFFFFFF"
proof -
  have "4 * (unat c mod 128) + 4 \<le> length (sec d (fat_sector V c))"
    using read_sector_vol(2) [OF assms(1,2)] valid_bounds(5) [OF assms(1,3)] by simp
  from read_Some(2) [OF this] that show ?thesis by (auto simp: entry_at_def)
qed

lemma get_entry_vol:
  assumes "geometry_ok V" "vol_ok V d" "valid V c"
  shows "fat32_get_fat_entry d (v_part V) c = Some (entry_at V d c)"
    "get_next_cluster d (v_part V) c = Some (if entry_at V d c \<ge> FAT32_EOC then 0 else entry_at V d c)"
proof -
  obtain w where "read32 (sec d (fat_sector V c)) (4 * (unat c mod 128)) = Some w" "entry_at V d c = w AND 0x0FFFFFFF"
    using entry_word [OF assms] .
  with read_sector_vol(1) [OF assms(1,2) valid_bounds(5) [OF assms(1,3)]]
  show "fat32_get_fat_entry d (v_part V) c = Some (entry_at V d c)"
    "get_next_cluster d (v_part V) c = Some (if entry_at V d c \<ge> FAT32_EOC then 0 else entry_at V d c)"
    by (simp_all add: fat32_get_fat_entry_def get_next_cluster_def part_bpb_vol [OF assms(2)] fat_place_vol [OF assms(1,3)] Let_def)
qed

lemma mirror_bound:
  assumes "s < fat_start V + fat_size V" "i < unat (num_fats (v_bpb V))"
  shows "s + i * fat_size V < data_start V"
proof -
  have "s + i * fat_size V < fat_start V + Suc i * fat_size V" using assms(1) by simp
  also have "\<dots> \<le> data_start V" using assms(2) by (simp add: data_start_def del: mult_Suc)
  finally show ?thesis .
qed

lemma ex_from_Suc: "(\<exists>j. i \<le> j \<and> j < i + Suc k \<and> P j) \<longleftrightarrow> P i \<or> (\<exists>j. Suc i \<le> j \<and> j < Suc i + k \<and> P j)" for i :: nat
proof
  assume "\<exists>j. i \<le> j \<and> j < i + Suc k \<and> P j"
  then obtain j where "i \<le> j" "j < i + Suc k" "P j" by blast
  then show "P i \<or> (\<exists>j. Suc i \<le> j \<and> j < Suc i + k \<and> P j)" by (cases "j = i") auto
next
  assume "P i \<or> (\<exists>j. Suc i \<le> j \<and> j < Suc i + k \<and> P j)"
  then consider "P i" | j where "Suc i \<le> j" "j < Suc i + k" "P j" by blast
  then show "\<exists>j. i \<le> j \<and> j < i + Suc k \<and> P j"
  proof cases
    case 1
    then show ?thesis by (intro exI [of _ i]) simp
  next
    case 2
    then show ?thesis by (intro exI [of _ j]) simp
  qed
qed

lemma write_mirrors_vol:
  assumes g: "geometry_ok V" and s: "fat_start V \<le> s" "s < fat_start V + fat_size V" and l: "length buf = 512"
    and "vol_ok V d" "i + k \<le> unat (num_fats (v_bpb V))"
  shows "vol_ok V (write_mirrors k i d (of_nat s) (fat_size_32 (v_bpb V)) buf)
    \<and> (\<forall>t<2 ^ 28. sec (write_mirrors k i d (of_nat s) (fat_size_32 (v_bpb V)) buf) t =
        (if \<exists>j. i \<le> j \<and> j < i + k \<and> t = s + j * fat_size V then buf else sec d t))"
  using assms(5,6)
proof (induction k arbitrary: i d)
  case (Suc k)
  let ?t = "s + i * fat_size V"
  have t: "fat_start V \<le> ?t" "?t < vol_end V"
    using mirror_bound [OF s(2), of i] Suc.prems(2) geometry_bounds(4) [OF g] s(1) by auto
  have w: "of_nat s + of_nat i * fat_size_32 (v_bpb V) = (of_nat ?t :: u32)" by (simp add: fat_size_def)
  have "snd (write_sector d (of_nat s + of_nat i * fat_size_32 (v_bpb V)) buf) = put_sec ?t buf d"
    unfolding w using write_sector_vol [OF g Suc.prems(1) t(2)] by simp
  moreover have "(\<exists>j. i \<le> j \<and> j < i + Suc k \<and> x = s + j * fat_size V)
    \<longleftrightarrow> (x = ?t \<or> (\<exists>j. Suc i \<le> j \<and> j < Suc i + k \<and> x = s + j * fat_size V))" for x
    by (rule ex_from_Suc)
  moreover have "?t < 2 ^ 28" by (rule vol_end_bound [OF g t(2)])
  ultimately show ?case using Suc.IH [OF vol_ok_put [OF g Suc.prems(1) t l], of "Suc i"] Suc.prems(2) by auto
qed auto

lemma entry_slots_apart:
  fixes c c' :: u32
  assumes "c \<noteq> c'" "unat c div 128 = unat c' div 128"
  shows "4 * (unat c mod 128) + 4 \<le> 4 * (unat c' mod 128) \<or> 4 * (unat c' mod 128) + 4 \<le> 4 * (unat c mod 128)"
proof -
  have "unat c mod 128 \<noteq> unat c' mod 128"
    using assms div_mult_mod_eq [of "unat c" 128] div_mult_mod_eq [of "unat c'" 128] by (auto simp: word_unat_eq_iff)
  then show ?thesis by linarith
qed

text \<open>A sector of the table written to its place, and one that is written to its mirrors.\<close>

lemma put_mirrored:
  assumes g: "geometry_ok V" and v: "vol_ok V d" and s: "fat_start V \<le> s" "s < fat_start V + fat_size V"
    and l: "length buf = 512" "length mirror = 512"
  defines "d' \<equiv> write_mirrors (unat (num_fats (v_bpb V)) - 1) 1 (put_sec s buf d) (of_nat s) (fat_size_32 (v_bpb V)) mirror"
  shows "vol_ok V d'"
    "\<And>t. t < fat_start V + fat_size V \<Longrightarrow> sec d' t = (if t = s then buf else sec d t)"
    "\<And>t. data_start V \<le> t \<Longrightarrow> t < vol_end V \<Longrightarrow> sec d' t = sec d t"
    "\<And>j. 1 \<le> j \<Longrightarrow> j < unat (num_fats (v_bpb V)) \<Longrightarrow> sec d' (s + j * fat_size V) = mirror"
proof -
  let ?n = "unat (num_fats (v_bpb V))"
  note gb = geometry_bounds [OF g]
  have n: "0 < ?n" using g by (simp add: geometry_ok_def word_less_nat_alt)
  have in28: "t < vol_end V \<Longrightarrow> t < 2 ^ 28" for t by (rule vol_end_bound [OF g])
  have se: "s < vol_end V" using s(2) gb(4,5) by linarith
  have mm: "vol_ok V d'" "\<And>t. t < 2 ^ 28 \<Longrightarrow> sec d' t =
      (if \<exists>j. 1 \<le> j \<and> j < 1 + (?n - 1) \<and> t = s + j * fat_size V then mirror else sec (put_sec s buf d) t)"
    using write_mirrors_vol [OF g s l(2) vol_ok_put [OF g v s(1) se l(1)], of 1 "?n - 1"] n unfolding d'_def by auto
  have other: "sec d' t = (if t = s then buf else sec d t)" if "t < 2 ^ 28" "\<And>j. 1 \<le> j \<Longrightarrow> j < ?n \<Longrightarrow> t \<noteq> s + j * fat_size V" for t
  proof -
    have "\<not> (\<exists>j. 1 \<le> j \<and> j < 1 + (?n - 1) \<and> t = s + j * fat_size V)" using that(2) n by auto
    with mm(2) [OF that(1)] that(1) in28 [OF se] show ?thesis by (simp only: if_False sec_put)
  qed
  show "vol_ok V d'" by (rule mm(1))
  show "sec d' t = (if t = s then buf else sec d t)" if t: "t < fat_start V + fat_size V" for t
  proof (rule other)
    show "t < 2 ^ 28" using t gb(4,5) in28 [of t] by linarith
    show "t \<noteq> s + j * fat_size V" if "1 \<le> j" for j
      using t s(1) mult_le_mono1 [OF that, of "fat_size V"] by linarith
  qed
  show "sec d' t = sec d t" if t: "data_start V \<le> t" "t < vol_end V" for t
    using other [OF in28 [OF t(2)]] mirror_bound [OF s(2)] t(1) s(2) gb(5) by force
  show "sec d' (s + j * fat_size V) = mirror" if j: "1 \<le> j" "j < ?n" for j
  proof -
    have "s + j * fat_size V < 2 ^ 28" using mirror_bound [OF s(2) j(2)] gb(4) in28 by (meson order_less_le_trans)
    moreover have "\<exists>i. 1 \<le> i \<and> i < 1 + (?n - 1) \<and> s + j * fat_size V = s + i * fat_size V"
      using j by (intro exI [of _ j]) simp
    ultimately show ?thesis using mm(2) [of "s + j * fat_size V"] by (simp only: if_True)
  qed
qed

definition entry_sector :: "volume \<Rightarrow> disk \<Rightarrow> u32 \<Rightarrow> u32 \<Rightarrow> u8 list" where
  "entry_sector V d c w = put_slice (4 * (unat c mod 128)) (le32 (w AND 0x0FFFFFFF)) (sec d (fat_sector V c))"

lemma length_entry_sector:
  assumes "geometry_ok V" "vol_ok V d" "valid V c"
  shows "length (sec d (fat_sector V c)) = 512" "4 * (unat c mod 128) + 4 \<le> 512" "length (entry_sector V d c w) = 512"
  using read_sector_vol(2) [OF assms(1,2) valid_bounds(5) [OF assms(1,3)]] by (simp_all add: entry_sector_def)

lemma entries_after:
  assumes g: "geometry_ok V" and v: "vol_ok V d" and c: "valid V c"
    and m: "\<And>t. t < fat_start V + fat_size V \<Longrightarrow> sec d' t = (if t = fat_sector V c then entry_sector V d c w else sec d t)"
    and c': "valid V c'"
  shows "entry_at V d' c' = (if c' = c then w AND 0x0FFFFFFF else entry_at V d c')"
proof (cases "unat c div 128 = unat c' div 128")
  case True
  let ?s = "fat_sector V c" and ?o = "4 * (unat c mod 128)" and ?w = "w AND 0x0FFFFFFF"
  have ls: "?o + 4 \<le> length (sec d ?s)" "length (sec d ?s) = 512" using length_entry_sector [OF g v c] by simp_all
  have "fat_sector V c' = ?s" using True by (simp add: fat_sector_def)
  then show ?thesis using m [of ?s] valid_bounds(4) [OF g c] ls entry_slots_apart [of c c', OF _ True] read32_put [OF ls(1), of ?w]
      read32_put_other [OF ls(1), of "4 * (unat c' mod 128)" ?w]
    by (auto simp: entry_at_def entry_sector_def and.assoc)
next
  case False
  then have "fat_sector V c' \<noteq> fat_sector V c" by (simp add: fat_sector_def)
  then show ?thesis using m [of "fat_sector V c'"] valid_bounds(4) [OF g c'] False by (auto simp: entry_at_def)
qed

lemma set_entry_vol:
  assumes g: "geometry_ok V" and v: "vol_ok V d" and c: "valid V c"
  obtains d' where "fat32_set_fat_entry d (v_part V) c w = Some d'" "vol_ok V d'"
    "\<And>c'. valid V c' \<Longrightarrow> entry_at V d' c' = (if c' = c then w AND 0x0FFFFFFF else entry_at V d c')"
    "\<And>t. data_start V \<le> t \<Longrightarrow> t < vol_end V \<Longrightarrow> sec d' t = sec d t"
    "\<And>j. j < unat (num_fats (v_bpb V)) \<Longrightarrow> sec d' (fat_sector V c + j * fat_size V) = sec d' (fat_sector V c)"
proof -
  let ?s = "fat_sector V c" and ?buf = "entry_sector V d c w"
  note b = valid_bounds [OF g c] and ls = length_entry_sector [OF g v c]
  define d' where "d' = write_mirrors (unat (num_fats (v_bpb V)) - 1) 1 (put_sec ?s ?buf d) (of_nat ?s) (fat_size_32 (v_bpb V)) ?buf"
  note m = put_mirrored [OF g v b(6,4) ls(3) [of w] ls(3) [of w], folded d'_def]
  have set: "fat32_set_fat_entry d (v_part V) c w = Some d'"
    using ls by (simp add: fat32_set_fat_entry_def part_bpb_vol [OF v] fat_place_vol [OF g c] read_sector_vol(1) [OF g v b(5)]
        put_all_spec write_sector_vol [OF g v b(5)] d'_def entry_sector_def)
  have "sec d' (?s + j * fat_size V) = sec d' ?s" if "j < unat (num_fats (v_bpb V))" for j
    using m(4) [of j] that m(2) [OF b(4)] by (cases "j = 0") auto
  then show ?thesis using that [OF set m(1) entries_after [OF g v c m(2)] m(3)] by blast
qed

lemma fat_set_entry_vol:
  assumes g: "geometry_ok V" and v: "vol_ok V d" and c: "valid V c"
  obtains d' where "fat_set_entry d (v_part V) c w = Some d'" "vol_ok V d'"
    "\<And>c'. valid V c' \<Longrightarrow> entry_at V d' c' = (if c' = c then w AND 0x0FFFFFFF else entry_at V d c')"
    "\<And>t. data_start V \<le> t \<Longrightarrow> t < vol_end V \<Longrightarrow> sec d' t = sec d t"
    "\<And>j. 1 \<le> j \<Longrightarrow> j < unat (num_fats (v_bpb V)) \<Longrightarrow> sec d' (fat_sector V c + j * fat_size V) = sec d (unat (v_lba V))"
proof -
  let ?s = "fat_sector V c" and ?buf = "entry_sector V d c w" and ?boot = "sec d (unat (v_lba V))"
  note b = valid_bounds [OF g c] and ls = length_entry_sector [OF g v c] and gb = geometry_bounds [OF g]
  have le: "unat (v_lba V) < vol_end V" using gb by linarith
  have boot: "get_partition_lba d (v_part V) = Some (v_lba V)" "read_sector d (v_lba V) = Some ?boot" "bpb_of ?boot = Some (v_bpb V)"
    using part_bpb_vol [OF v] read_sector_vol(1) [OF g v le] by (auto simp: part_bpb_def bind_eq_Some_conv)
  have bps: "bytes_per_sector (v_bpb V) = 512" using g by (simp add: geometry_ok_def)
  have place: "v_lba V + ucast (reserved_sector_count (v_bpb V)) + c * 4 div 512 = of_nat ?s" "unat (c * 4 mod 512) = 4 * (unat c mod 128)"
    using fat_place_vol [OF g c] by (simp_all add: fat_place_def bps Let_def add.assoc)
  define d' where "d' = write_mirrors (unat (num_fats (v_bpb V)) - 1) 1 (put_sec ?s ?buf d) (of_nat ?s) (fat_size_32 (v_bpb V)) ?boot"
  note m = put_mirrored [OF g v b(6,4) ls(3) [of w] read_sector_vol(2) [OF g v le], folded d'_def]
  have set: "fat_set_entry d (v_part V) c w = Some d'"
    using ls by (simp add: fat_set_entry_def boot place read_sector_vol(1) [OF g v b(5)] put_all_spec
        write_sector_vol [OF g v b(5)] d'_def entry_sector_def mult.commute [of 4 "unat c mod 128"])
  show ?thesis by (rule that [OF set m(1) entries_after [OF g v c m(2)] m(3,4)])
qed

section \<open>The clusters of a volume\<close>

lemma put_slice_put_slice:
  assumes "i + length xs + length ys \<le> length buf"
  shows "put_slice (i + length xs) ys (put_slice i xs buf) = put_slice i (xs @ ys) buf"
  using assms by (simp add: put_slice_def ac_simps)

lemma length_concat_const: "(\<And>x. x \<in> set xs \<Longrightarrow> length (f x) = n) \<Longrightarrow> length (concat (map f xs)) = n * length xs"
  by (induction xs) auto

lemma read_sectors_put:
  assumes "\<And>j. i \<le> j \<Longrightarrow> j < i + k \<Longrightarrow> read_sector d (first + of_nat j) = Some (f j) \<and> length (f j) = 512"
    and "512 * (i + k) \<le> length buf"
  shows "read_sectors k i d first buf = Some (put_slice (512 * i) (concat (map f [i..<i + k])) buf)"
  using assms
proof (induction k arbitrary: i buf)
  case 0
  then show ?case by (simp add: put_slice_def)
next
  case (Suc k)
  have f: "read_sector d (first + of_nat i) = Some (f i)" "length (f i) = 512" using Suc.prems(1) [of i] by simp_all
  have p: "put_all buf (i * 512) (f i) = Some (put_slice (512 * i) (f i) buf)"
    using Suc.prems(2) f(2) by (simp add: put_all_spec mult.commute)
  have "read_sectors k (Suc i) d first (put_slice (512 * i) (f i) buf)
    = Some (put_slice (512 * Suc i) (concat (map f [Suc i..<Suc i + k])) (put_slice (512 * i) (f i) buf))"
    using Suc.prems f(2) by (intro Suc.IH) auto
  moreover have "length (concat (map f [Suc i..<Suc i + k])) = 512 * k"
    by (subst length_concat_const [where n = 512]) (use Suc.prems(1) in auto)
  then have "put_slice (512 * Suc i) (concat (map f [Suc i..<Suc i + k])) (put_slice (512 * i) (f i) buf)
    = put_slice (512 * i) (f i @ concat (map f [Suc i..<Suc i + k])) buf"
    using put_slice_put_slice [of "512 * i" "f i" "concat (map f [Suc i..<Suc i + k])" buf] Suc.prems(2) f(2)
    by (simp add: add.commute)
  ultimately show ?case using f(1) p by (simp add: upt_rec [of i])
qed

lemma length_data_at:
  assumes "geometry_ok V" "vol_ok V d" "valid V c"
  shows "length (data_at V d c) = 4096"
proof -
  have "length (concat (map (\<lambda>i. sec d (clus_sector V c + i)) [0..<8])) = 512 * length [0..<8]"
    using read_sector_vol(2) [OF assms(1,2)] valid_bounds(7) [OF assms(1,3)] by (intro length_concat_const) auto
  then show ?thesis by (simp only: data_at_def) simp
qed

lemma read_cluster_vol:
  assumes g: "geometry_ok V" and v: "vol_ok V d" and c: "valid V c" and l: "length buf = 4096"
  shows "read_cluster d (v_part V) c buf = Some (0, data_at V d c)"
proof -
  let ?first = "v_lba V + first_data_sector (v_bpb V) + (c - 2) * ucast (sectors_per_cluster (v_bpb V))"
  have b: "sectors_per_cluster (v_bpb V) = 8" "bytes_per_sector (v_bpb V) = 512" using g by (simp_all add: geometry_ok_def)
  have "read_sectors 8 0 d ?first buf = Some (put_slice (512 * 0) (concat (map (\<lambda>i. sec d (clus_sector V c + i)) [0..<0 + 8])) buf)"
  proof (rule read_sectors_put)
    fix j assume "0 \<le> j" "j < 0 + (8 :: nat)"
    then show "read_sector d (?first + of_nat j) = Some (sec d (clus_sector V c + j)) \<and> length (sec d (clus_sector V c + j)) = 512"
      using read_sector_vol [OF g v, of "clus_sector V c + j"] valid_bounds(7) [OF g c] clus_place_vol [OF g c, of j] by simp
  qed (simp add: l)
  then have "read_sectors 8 0 d ?first buf = Some (data_at V d c)"
    using length_data_at [OF g v c] l by (simp add: data_at_def put_slice_def)
  moreover have "\<not> c < 2" using c by (auto simp: valid_def)
  ultimately show ?thesis using b l by (simp add: read_cluster_def part_bpb_vol [OF v] Let_def)
qed

lemma write_sectors_put:
  assumes g: "geometry_ok V" and l: "length buf = 4096" and s: "data_start V \<le> s" "s + 8 \<le> vol_end V"
    and "\<And>j. j < 8 \<Longrightarrow> first + of_nat j = of_nat (s + j)" "vol_ok V d" "i + k \<le> 8"
  shows "\<exists>d'. write_sectors k i d first buf = Some (0, d') \<and> vol_ok V d'
    \<and> (\<forall>t<2 ^ 28. sec d' t = (if s + i \<le> t \<and> t < s + i + k then slice (512 * (t - s)) 512 buf else sec d t))"
  using assms(5,6,7)
proof (induction k arbitrary: i d)
  case (Suc k)
  let ?b = "slice (512 * i) 512 buf"
  have t: "s + i < vol_end V" "fat_start V \<le> s + i" using s Suc.prems(3) geometry_bounds(3) [OF g] by auto
  have lb: "length ?b = 512" "512 * i + 512 \<le> length buf" using l Suc.prems(3) by auto
  have w: "write_sector d (first + of_nat i) ?b = (0, put_sec (s + i) ?b d)"
    using Suc.prems(1) [of i] Suc.prems(3) write_sector_vol [OF g Suc.prems(2) t(1)] by simp
  obtain d' where d': "write_sectors k (Suc i) (put_sec (s + i) ?b d) first buf = Some (0, d')" "vol_ok V d'"
    "\<forall>t<2 ^ 28. sec d' t = (if s + Suc i \<le> t \<and> t < s + Suc i + k then slice (512 * (t - s)) 512 buf else sec (put_sec (s + i) ?b d) t)"
    using Suc.IH [OF Suc.prems(1) vol_ok_put [OF g Suc.prems(2) t(2,1) lb(1)], of "Suc i"] Suc.prems(3) by auto
  have "s + i < 2 ^ 28" by (rule vol_end_bound [OF g t(1)])
  then have "\<forall>t<2 ^ 28. sec d' t = (if s + i \<le> t \<and> t < s + i + Suc k then slice (512 * (t - s)) 512 buf else sec d t)"
    using d'(3) by auto
  then show ?case using d'(1,2) w lb(2) by (simp add: read_bytes_def mult.commute)
qed auto

lemma concat_slices: "length buf = 512 * n \<Longrightarrow> concat (map (\<lambda>i. slice (512 * i) 512 buf) [0..<n]) = buf"
proof (induction n arbitrary: buf)
  case (Suc n)
  have "concat (map (\<lambda>i. slice (512 * i) 512 (drop 512 buf)) [0..<n]) = drop 512 buf" using Suc.prems by (intro Suc.IH) simp
  moreover have "[0..<Suc n] = 0 # map Suc [0..<n]" by (simp add: upt_conv_Cons map_Suc_upt del: upt_Suc)
  moreover have "slice (512 * Suc i) 512 buf = slice (512 * i) 512 (drop 512 buf)" for i by (simp add: slice_def add.commute)
  ultimately show ?case by (simp only: list.map concat.simps map_map o_def) (simp add: slice_def)
qed simp

lemma write_cluster_vol:
  assumes g: "geometry_ok V" and v: "vol_ok V d" and c: "valid V c" and l: "length buf = 4096"
  obtains d' where "write_cluster d (v_part V) c buf = Some (0, d')" "vol_ok V d'"
    "\<And>c'. valid V c' \<Longrightarrow> data_at V d' c' = (if c' = c then buf else data_at V d c')"
    "\<And>c'. valid V c' \<Longrightarrow> entry_at V d' c' = entry_at V d c'"
proof -
  let ?first = "v_lba V + first_data_sector (v_bpb V) + (c - 2) * ucast (sectors_per_cluster (v_bpb V))"
  note b = valid_bounds [OF g c]
  obtain d' where d': "write_sectors 8 0 d ?first buf = Some (0, d')" "vol_ok V d'"
    "\<forall>t<2 ^ 28. sec d' t = (if clus_sector V c \<le> t \<and> t < clus_sector V c + 8 then slice (512 * (t - clus_sector V c)) 512 buf else sec d t)"
    using write_sectors_put [OF g l b(8,7) clus_place_vol [OF g c] v, of 0 8] by auto
  have w: "write_cluster d (v_part V) c buf = Some (0, d')"
    using d'(1) c by (simp add: write_cluster_def part_bpb_vol [OF v] valid_def word_less_nat_alt word_le_nat_alt)
  have dt: "data_at V d' c' = (if c' = c then buf else data_at V d c')" if c': "valid V c'" for c'
  proof (cases "c' = c")
    case True
    have "map (\<lambda>i. sec d' (clus_sector V c + i)) [0..<8] = map (\<lambda>i. slice (512 * i) 512 buf) [0..<8]"
      using d'(3) b(7) vol_end_bound [OF g] by (intro map_cong) auto
    then show ?thesis using True concat_slices [of buf 8] l by (simp only: data_at_def) simp
  next
    case False
    note b' = valid_bounds [OF g c']
    have "unat c \<noteq> unat c'" using False by (simp add: word_unat_eq_iff)
    then have "clus_sector V c' + 8 \<le> clus_sector V c \<or> clus_sector V c + 8 \<le> clus_sector V c'"
      using b(1) b'(1) unfolding clus_sector_def by linarith
    then have "map (\<lambda>i. sec d' (clus_sector V c' + i)) [0..<8] = map (\<lambda>i. sec d (clus_sector V c' + i)) [0..<8]"
      using d'(3) b'(7) vol_end_bound [OF g] by (intro map_cong) auto
    then show ?thesis using False by (simp only: data_at_def if_False)
  qed
  have "entry_at V d' c' = entry_at V d c'" if c': "valid V c'" for c'
    using d'(3) valid_bounds(4,5) [OF g c'] b(8) geometry_bounds(5) [OF g] vol_end_bound [OF g] by (auto simp: entry_at_def)
  with w d'(2) dt show ?thesis by (rule that)
qed

section \<open>What a volume is for its users\<close>

text \<open>
  A volume promises an entry and 4096 bytes for every valid cluster.  Reading them and
  replacing them is stated as the laws of a locale; users of the laws see neither sectors nor
  mirrors.  Chains of clusters end at an entry that is not the number of a cluster.
\<close>

record cluster_map =
  fat :: "u32 \<Rightarrow> u32"
  clus :: "u32 \<Rightarrow> u8 list"

definition abs_vol :: "volume \<Rightarrow> disk \<Rightarrow> cluster_map" where
  "abs_vol V d = \<lparr>fat = (\<lambda>c. if valid V c then entry_at V d c else 0), clus = (\<lambda>c. if valid V c then data_at V d c else [])\<rparr>"

definition vol_inv :: "volume \<Rightarrow> disk \<Rightarrow> bool" where
  "vol_inv V d \<longleftrightarrow> geometry_ok V \<and> vol_ok V d"

definition in_chain :: "u32 \<Rightarrow> bool" where
  "in_chain c \<longleftrightarrow> 2 \<le> c \<and> c < FAT32_EOC"

text \<open>The clusters that are reached from one by following entries.\<close>

inductive linked :: "(u32 \<Rightarrow> u32) \<Rightarrow> u32 \<Rightarrow> u32 \<Rightarrow> bool" for nxt c where
  first: "in_chain c \<Longrightarrow> linked nxt c c"
| further: "linked nxt c x \<Longrightarrow> in_chain (nxt x) \<Longrightarrow> linked nxt c (nxt x)"

lemma not_in_chain_0 [simp]: "\<not> in_chain 0"
  by (simp add: in_chain_def)

lemma linked_cut:
  assumes "in_chain c"
  shows "linked nxt c x \<longleftrightarrow> x = c \<or> linked (nxt(c := 0)) (nxt c) x"
proof -
  define cut where "cut = nxt(c := 0)"
  have cut: "cut c = 0" "\<And>x. x \<noteq> c \<Longrightarrow> cut x = nxt x" by (simp_all add: cut_def)
  have "x = c \<or> linked cut (nxt c) x" if "linked nxt c x" using that
  proof induction
    case (further x)
    then show ?case using linked.first [of "nxt c" cut] linked.further [of cut "nxt c" x] cut(2) [of x] by (cases "x = c") auto
  qed simp
  moreover have "linked nxt c x" if "linked cut (nxt c) x" using that
  proof induction
    case first
    then show ?case using linked.further [OF linked.first [OF assms]] by simp
  next
    case (further x)
    then show ?case using linked.further [of nxt c x] cut by (cases "x = c") auto
  qed
  ultimately show ?thesis using linked.first [OF assms] by (auto simp: cut_def)
qed

lemma linked_not_in_chain: "\<not> in_chain c \<Longrightarrow> \<not> linked nxt c x"
proof
  assume "linked nxt c x" "\<not> in_chain c"
  then show False by induction auto
qed

locale cluster_store =
  fixes inv :: "'d \<Rightarrow> bool" and is_cluster :: "u32 \<Rightarrow> bool" and view :: "'d \<Rightarrow> cluster_map"
    and get :: "'d \<Rightarrow> u32 \<Rightarrow> u32 option" and set :: "'d \<Rightarrow> u32 \<Rightarrow> u32 \<Rightarrow> 'd option"
    and load :: "'d \<Rightarrow> u32 \<Rightarrow> u8 list \<Rightarrow> (int \<times> u8 list) option" and save :: "'d \<Rightarrow> u32 \<Rightarrow> u8 list \<Rightarrow> (int \<times> 'd) option"
  assumes range: "inv d \<Longrightarrow> is_cluster c \<Longrightarrow> in_chain c"
    and none: "\<not> is_cluster c \<Longrightarrow> fat (view d) c = 0"
    and clus_length: "inv d \<Longrightarrow> is_cluster c \<Longrightarrow> length (clus (view d) c) = 4096"
    and get: "inv d \<Longrightarrow> is_cluster c \<Longrightarrow> get d c = Some (fat (view d) c)"
    and set: "inv d \<Longrightarrow> is_cluster c \<Longrightarrow> \<exists>d'. set d c w = Some d' \<and> inv d'
      \<and> view d' = (view d)\<lparr>fat := (fat (view d))(c := w AND 0x0FFFFFFF)\<rparr>"
    and load: "inv d \<Longrightarrow> is_cluster c \<Longrightarrow> length buf = 4096 \<Longrightarrow> load d c buf = Some (0, clus (view d) c)"
    and save: "inv d \<Longrightarrow> is_cluster c \<Longrightarrow> length buf = 4096 \<Longrightarrow> \<exists>d'. save d c buf = Some (0, d') \<and> inv d'
      \<and> view d' = (view d)\<lparr>clus := (clus (view d))(c := buf)\<rparr>"
begin

text \<open>All entries lead to clusters of the volume or end a chain.\<close>

definition closed :: "'d \<Rightarrow> bool" where
  "closed d \<longleftrightarrow> (\<forall>c. in_chain (fat (view d) c) \<longrightarrow> is_cluster (fat (view d) c))"

lemma frees_all:
  assumes free: "\<And>d c. free d c = (if in_chain c then do { nxt \<leftarrow> get d c; d' \<leftarrow> set d c 0; free d' nxt } else Some d)"
    and "inv d" "closed d" "in_chain c \<Longrightarrow> is_cluster c"
  shows "\<exists>d'. free d c = Some d' \<and> inv d'
    \<and> view d' = (view d)\<lparr>fat := (\<lambda>x. if linked (fat (view d)) c x then 0 else fat (view d) x)\<rparr>"
  using assms(2-4)
proof (induction "card {x. fat (view d) x \<noteq> 0}" arbitrary: d c rule: less_induct)
  case less
  show ?case
  proof (cases "in_chain c")
    case False
    then show ?thesis using less.prems(1) linked_not_in_chain [OF False] by (simp add: free [of d c])
  next
    case True
    let ?f = "fat (view d)"
    have c: "is_cluster c" using True less.prems(3) by blast
    obtain d' where d': "set d c 0 = Some d'" "inv d'" "view d' = (view d)\<lparr>fat := ?f(c := 0)\<rparr>"
      using set [OF less.prems(1) c, of 0] by auto
    have step: "free d c = free d' (?f c)" using True get [OF less.prems(1) c] d'(1) by (simp add: free [of d c])
    have cut: "(\<lambda>x. if linked ?f c x then 0 else ?f x) = (\<lambda>x. if linked (?f(c := 0)) (?f c) x then 0 else (?f(c := 0)) x)"
      using linked_cut [OF True, of ?f] by auto
    show ?thesis
    proof (cases "in_chain (?f c)")
      case False
      then have "free d c = Some d'" by (simp add: step free [of d'])
      moreover have "view d' = (view d)\<lparr>fat := (\<lambda>x. if linked ?f c x then 0 else ?f x)\<rparr>"
        unfolding cut using d'(3) linked_not_in_chain [OF False] by (simp add: fun_upd_def)
      ultimately show ?thesis using d'(2) by simp
    next
      case more: True
      then have "?f c \<noteq> 0" by auto
      then have "{x. (?f(c := 0)) x \<noteq> 0} \<subset> {x. ?f x \<noteq> 0}" by auto
      then have "card {x. fat (view d') x \<noteq> 0} < card {x. ?f x \<noteq> 0}" by (simp add: d'(3) psubset_card_mono del: fun_upd_apply)
      moreover have "closed d'" using less.prems(2) by (auto simp: closed_def d'(3))
      moreover have "is_cluster (?f c)" using more less.prems(2) by (simp add: closed_def)
      ultimately obtain d'' where "free d' (?f c) = Some d''" "inv d''"
        "view d'' = (view d')\<lparr>fat := (\<lambda>x. if linked (fat (view d')) (?f c) x then 0 else fat (view d') x)\<rparr>"
        using less.hyps [of d' "?f c"] d'(2) by blast
      then show ?thesis unfolding step cut by (simp add: d'(3) cong: if_cong)
    qed
  qed
qed

end


lemma view_of:
  assumes "vol_inv V d" "vol_inv V d'"
    and "\<And>c'. valid V c' \<Longrightarrow> entry_at V d' c' = (if c' = c then w else entry_at V d c')"
    and "\<And>c'. valid V c' \<Longrightarrow> data_at V d' c' = data_at V d c'" and "valid V c"
  shows "abs_vol V d' = (abs_vol V d)\<lparr>fat := (fat (abs_vol V d))(c := w)\<rparr>"
  using assms(3-5) by (auto simp: abs_vol_def fun_eq_iff)

lemma data_at_same:
  assumes "geometry_ok V" "\<And>t. data_start V \<le> t \<Longrightarrow> t < vol_end V \<Longrightarrow> sec d' t = sec d t" "valid V c'"
  shows "data_at V d' c' = data_at V d c'"
  using assms(2) valid_bounds(7,8) [OF assms(1,3)] by (auto simp: data_at_def intro!: arg_cong [where f = concat] map_cong)

interpretation vol: cluster_store "vol_inv V" "valid V" "abs_vol V" "\<lambda>d. fat32_get_fat_entry d (v_part V)" "\<lambda>d. fat32_set_fat_entry d (v_part V)"
  "\<lambda>d. read_cluster d (v_part V)" "\<lambda>d. write_cluster d (v_part V)" for V
proof
  fix d c assume d: "vol_inv V d" and c: "valid V c"
  then have g: "geometry_ok V" "vol_ok V d" by (simp_all add: vol_inv_def)
  have "unat c < unat FAT32_EOC" using valid_bounds(3) [OF g(1) c] by simp
  then show "in_chain c" using c by (simp add: in_chain_def valid_def word_less_nat_alt)
  show "length (clus (abs_vol V d) c) = 4096" using length_data_at [OF g c] c by (simp add: abs_vol_def)
  show "fat32_get_fat_entry d (v_part V) c = Some (fat (abs_vol V d) c)" using get_entry_vol(1) [OF g c] c by (simp add: abs_vol_def)
  show "\<exists>d'. fat32_set_fat_entry d (v_part V) c w = Some d' \<and> vol_inv V d'
      \<and> abs_vol V d' = (abs_vol V d)\<lparr>fat := (fat (abs_vol V d))(c := w AND 0x0FFFFFFF)\<rparr>" for w
  proof -
    obtain d' where d': "fat32_set_fat_entry d (v_part V) c w = Some d'" "vol_ok V d'"
      "\<And>c'. valid V c' \<Longrightarrow> entry_at V d' c' = (if c' = c then w AND 0x0FFFFFFF else entry_at V d c')"
      "\<And>t. data_start V \<le> t \<Longrightarrow> t < vol_end V \<Longrightarrow> sec d' t = sec d t"
      using set_entry_vol [OF g c, of w] by metis
    have i: "vol_inv V d'" using g(1) d'(2) by (simp add: vol_inv_def)
    from view_of [OF d i d'(3) data_at_same [OF g(1) d'(4)] c] i d'(1) show ?thesis by auto
  qed
next
  fix d c and buf :: "u8 list" assume d: "vol_inv V d" and c: "valid V c" and l: "length buf = 4096"
  then have g: "geometry_ok V" "vol_ok V d" by (simp_all add: vol_inv_def)
  show "read_cluster d (v_part V) c buf = Some (0, clus (abs_vol V d) c)" using read_cluster_vol [OF g c l] c by (simp add: abs_vol_def)
  obtain d' where "write_cluster d (v_part V) c buf = Some (0, d')" "vol_ok V d'"
    "\<And>c'. valid V c' \<Longrightarrow> data_at V d' c' = (if c' = c then buf else data_at V d c')"
    "\<And>c'. valid V c' \<Longrightarrow> entry_at V d' c' = entry_at V d c'"
    using write_cluster_vol [OF g c l] by metis
  then show "\<exists>d'. write_cluster d (v_part V) c buf = Some (0, d') \<and> vol_inv V d'
      \<and> abs_vol V d' = (abs_vol V d)\<lparr>clus := (clus (abs_vol V d))(c := buf)\<rparr>"
    using g(1) c by (auto simp: vol_inv_def abs_vol_def fun_eq_iff)
qed (simp add: abs_vol_def)

section \<open>Properties of the table\<close>

lemma get_next_view:
  assumes "vol_inv V d" "valid V c"
  shows "get_next_cluster d (v_part V) c = Some (if fat (abs_vol V d) c \<ge> FAT32_EOC then 0 else fat (abs_vol V d) c)"
  using assms get_entry_vol(2) [of V d c] by (simp add: vol_inv_def abs_vol_def)

text \<open>
  C10.  On a volume of the expected layout the driver implements a map of entries and clusters: an entry or a
  cluster that is read is the one of the map; setting an entry changes it and no other entry and no
  cluster, and all copies of the table stay equal there; writing a cluster replaces its 4096 bytes
  and changes no other cluster and no entry.  No call fails, and the layout is kept.
\<close>

theorem volume_refines:
  assumes "vol_inv V d" "valid V c" "length buf = 4096"
  shows "fat32_get_fat_entry d (v_part V) c = Some (fat (abs_vol V d) c)
    \<and> read_cluster d (v_part V) c buf = Some (0, clus (abs_vol V d) c)
    \<and> (\<exists>d'. fat32_set_fat_entry d (v_part V) c w = Some d' \<and> vol_inv V d'
        \<and> abs_vol V d' = (abs_vol V d)\<lparr>fat := (fat (abs_vol V d))(c := w AND 0x0FFFFFFF)\<rparr>
        \<and> (\<forall>j<unat (num_fats (v_bpb V)). sec d' (fat_sector V c + j * fat_size V) = sec d' (fat_sector V c)))
    \<and> (\<exists>d'. write_cluster d (v_part V) c buf = Some (0, d') \<and> vol_inv V d'
        \<and> abs_vol V d' = (abs_vol V d)\<lparr>clus := (clus (abs_vol V d))(c := buf)\<rparr>)"
proof -
  have g: "geometry_ok V" "vol_ok V d" using assms(1) by (simp_all add: vol_inv_def)
  obtain d' where d': "fat32_set_fat_entry d (v_part V) c w = Some d'"
    "\<And>j. j < unat (num_fats (v_bpb V)) \<Longrightarrow> sec d' (fat_sector V c + j * fat_size V) = sec d' (fat_sector V c)"
    using set_entry_vol [OF g assms(2), of w] by metis
  have "\<exists>d''. fat32_set_fat_entry d (v_part V) c w = Some d'' \<and> vol_inv V d''
        \<and> abs_vol V d'' = (abs_vol V d)\<lparr>fat := (fat (abs_vol V d))(c := w AND 0x0FFFFFFF)\<rparr>
        \<and> (\<forall>j<unat (num_fats (v_bpb V)). sec d'' (fat_sector V c + j * fat_size V) = sec d'' (fat_sector V c))"
    using vol.set [OF assms(1,2), of w] d' by auto
  then show ?thesis using vol.get [OF assms(1,2)] vol.load [OF assms] vol.save [OF assms] by blast
qed

text \<open>
  C11.  The loop that frees a chain of clusters always ends, also when the chain runs into itself.
  It sets the entries of exactly the clusters that are reached from the first one to 0.
\<close>

theorem chain_freed:
  assumes "vol_inv V d" "\<And>x. in_chain (fat (abs_vol V d) x) \<Longrightarrow> valid V (fat (abs_vol V d) x)" "in_chain c \<Longrightarrow> valid V c"
  shows "\<exists>d'. free_chain d (v_part V) c = Some d' \<and> vol_inv V d'
    \<and> abs_vol V d' = (abs_vol V d)\<lparr>fat := (\<lambda>x. if linked (fat (abs_vol V d)) c x then 0 else fat (abs_vol V d) x)\<rparr>"
proof (rule vol.frees_all [OF _ assms(1) _ assms(3)])
  show "free_chain d (v_part V) c = (if in_chain c then fat32_get_fat_entry d (v_part V) c \<bind>
      (\<lambda>nxt. fat32_set_fat_entry d (v_part V) c 0 \<bind> (\<lambda>d'. free_chain d' (v_part V) nxt)) else Some d)" for d c
    by (subst free_chain.simps) (simp add: in_chain_def)
  show "vol.closed V d" using assms(2) by (simp add: vol.closed_def)
qed

lemma blank_from_spec:
  assumes "\<And>j. unat c \<le> j \<Longrightarrow> j < unat c + k \<Longrightarrow> \<exists>s w. read_sector d (fs + of_nat j div eps) = Some s
      \<and> read32 s (unat (of_nat j mod eps :: u32) * 4) = Some w \<and> (w AND 0x0FFFFFFF = 0 \<longleftrightarrow> P j)"
    and "unat c + k < 2 ^ 32"
  shows "blank_from k c d fs eps = Some (case first_from k (unat c) P of Some j \<Rightarrow> of_nat j | None \<Rightarrow> 0)"
  using assms
proof (induction k arbitrary: c)
  case (Suc k)
  have c1: "unat (c + 1) = Suc (unat c)" using Suc.prems(2) by (intro unat_Suc_lt) simp
  obtain s w where "read_sector d (fs + c div eps) = Some s" "read32 s (unat (c mod eps) * 4) = Some w" "w AND 0x0FFFFFFF = 0 \<longleftrightarrow> P (unat c)"
    using Suc.prems(1) [of "unat c"] by auto
  moreover have "blank_from k (c + 1) d fs eps = Some (case first_from k (unat (c + 1)) P of Some j \<Rightarrow> of_nat j | None \<Rightarrow> 0)"
    using Suc.prems by (intro Suc.IH) (simp_all add: c1)
  ultimately show ?case by (simp add: c1)
qed simp

lemma unat_product: "unat a * unat b < 2 ^ 32 \<Longrightarrow> unat (a * b) = unat a * unat b" for a b :: u32
  by (simp add: unat_word_ariths)

definition blank_word :: "volume \<Rightarrow> disk \<Rightarrow> nat \<Rightarrow> bool" where
  "blank_word V d j \<longleftrightarrow> the (read32 (sec d (fat_start V + j div 128)) (j mod 128 * 4)) AND 0x0FFFFFFF = 0"

lemma blank_word_read:
  assumes g: "geometry_ok V" "vol_ok V d" and j: "j < fat_size V * 128"
  shows "\<exists>s w. read_sector d (of_nat (fat_start V) + of_nat j div 128) = Some s
    \<and> read32 s (unat (of_nat j mod 128 :: u32) * 4) = Some w \<and> (w AND 0x0FFFFFFF = 0 \<longleftrightarrow> blank_word V d j)"
proof -
  have u: "unat (of_nat j :: u32) = j" using j g(1) by (simp add: geometry_ok_def unat_of_nat)
  then have "unat (of_nat j div 128 :: u32) = j div 128" by (simp add: unat_div)
  from arg_cong [OF this, of "of_nat :: nat \<Rightarrow> u32"] have q: "(of_nat j div 128 :: u32) = of_nat (j div 128)" by simp
  have s: "fat_start V + j div 128 < vol_end V"
    using j geometry_bounds(4,5) [OF g(1)] div_less_iff_less_mult [of 128 j "fat_size V"] by linarith
  have "j mod 128 * 4 + 4 \<le> length (sec d (fat_start V + j div 128))"
    using read_sector_vol(2) [OF g s] mod_less_divisor [of 128 j] by linarith
  from read_Some(2) [OF this] obtain w where "read32 (sec d (fat_start V + j div 128)) (j mod 128 * 4) = Some w" by blast
  then show ?thesis using read_sector_vol(1) [OF g s] by (simp add: q blank_word_def unat_mod u)
qed

lemma find_blank_first:
  assumes "vol_inv V d"
  shows "find_blank_cluster d (v_part V) = Some (case first_from (fat_size V * 128 - 2) 2 (blank_word V d) of Some j \<Rightarrow> of_nat j | None \<Rightarrow> 0)"
proof -
  have g: "geometry_ok V" "vol_ok V d" using assms by (simp_all add: vol_inv_def)
  have b: "bytes_per_sector (v_bpb V) = 512" "fat_size V \<le> 2 ^ 21" using g(1) by (simp_all add: geometry_ok_def)
  have k: "unat (fat_size_32 (v_bpb V) * 128) = fat_size V * 128" using b(2) by (subst unat_product) (simp_all add: fat_size_def)
  have fs: "v_lba V + ucast (reserved_sector_count (v_bpb V)) = of_nat (fat_start V)" by (simp add: fat_start_def)
  have "blank_from (fat_size V * 128 - 2) 2 d (of_nat (fat_start V)) 128
    = Some (case first_from (fat_size V * 128 - 2) (unat (2 :: u32)) (blank_word V d) of Some j \<Rightarrow> of_nat j | None \<Rightarrow> 0)"
    using blank_word_read [OF g] b(2) by (intro blank_from_spec) simp_all
  then show ?thesis by (simp add: find_blank_cluster_def part_bpb_vol [OF g(2)] Let_def b(1) k fs)
qed

text \<open>
  C33.  The search for a blank cluster returns the first cluster of the volume with the entry 0.  When
  there is none it returns 0 or, if the table has more entries than the volume has
  clusters, possibly a number behind the last cluster.
\<close>

theorem blank_cluster_first:
  assumes "vol_inv V d"
  shows "\<exists>c. find_blank_cluster d (v_part V) = Some c
    \<and> (if \<exists>x. valid V x \<and> fat (abs_vol V d) x = 0
       then valid V c \<and> fat (abs_vol V d) c = 0 \<and> (\<forall>x. valid V x \<and> x < c \<longrightarrow> fat (abs_vol V d) x \<noteq> 0)
       else c = 0 \<or> v_count V \<le> unat c)"
proof -
  have g: "geometry_ok V" using assms by (simp add: vol_inv_def)
  have b: "fat_size V \<le> 2 ^ 21" "v_count V \<le> 128 * fat_size V" using g by (simp_all add: geometry_ok_def)
  have entry: "valid V x \<Longrightarrow> fat (abs_vol V d) x = 0 \<longleftrightarrow> blank_word V d (unat x)" for x
    by (simp add: abs_vol_def entry_at_def blank_word_def fat_sector_def mult.commute)
  show ?thesis
  proof (cases "first_from (fat_size V * 128 - 2) 2 (blank_word V d)")
    case None
    then have "\<not> (valid V x \<and> fat (abs_vol V d) x = 0)" for x
      using entry [of x] valid_bounds(1,2) [OF g, of x] b(2) by (auto simp: first_from_None)
    with None show ?thesis by (auto simp: find_blank_first [OF assms])
  next
    case (Some j)
    then have j: "2 \<le> j" "j < fat_size V * 128" "blank_word V d j" "\<And>m. 2 \<le> m \<Longrightarrow> m < j \<Longrightarrow> \<not> blank_word V d m"
      by (auto simp: first_from_eq_Some)
    have u: "unat (of_nat j :: u32) = j" using j(2) b(1) by (simp add: unat_of_nat)
    have least: "j \<le> unat x" if "valid V x" "fat (abs_vol V d) x = 0" for x
      using that entry [OF that(1)] j(4) [of "unat x"] valid_bounds(1) [OF g that(1)] by force
    have "valid V (of_nat j) \<longleftrightarrow> j < v_count V" using j(1) u by (simp add: valid_def word_le_nat_alt)
    moreover have "fat (abs_vol V d) x \<noteq> 0" if "valid V x" "unat x < j" for x using least [OF that(1)] that(2) by fastforce
    moreover have "j < v_count V" if "valid V x" "fat (abs_vol V d) x = 0" for x
      using least [OF that] valid_bounds(2) [OF g that(1)] by linarith
    ultimately show ?thesis using Some entry [of "of_nat j"] j(3) u
      by (auto simp: find_blank_first [OF assms] word_less_nat_alt)
  qed
qed

lemma blank_is_free:
  assumes "vol_inv V d" "find_blank_cluster d (v_part V) = Some x" "valid V x"
  shows "fat (abs_vol V d) x = 0"
proof -
  have g: "geometry_ok V" using assms(1) by (simp add: vol_inv_def)
  obtain j where j: "first_from (fat_size V * 128 - 2) 2 (blank_word V d) = Some j" "x = of_nat j"
    using assms(2) valid_bounds(1) [OF g assms(3)] by (auto simp: find_blank_first [OF assms(1)] split: option.splits)
  have "fat_size V \<le> 2 ^ 21" using g by (simp add: geometry_ok_def)
  then have "j < 2 ^ 32" using conjunct1 [OF conjunct2 [OF first_from_SomeD [OF j(1)]]] by simp
  then have "unat x = j" using j(2) by (simp add: unat_of_nat)
  then show ?thesis using first_from_SomeD [OF j(1)] assms(3)
    by (simp add: abs_vol_def entry_at_def blank_word_def fat_sector_def mult.commute)
qed

text \<open>A file that is expanded continues with the first blank cluster, which ends the chain.\<close>

lemma expand_file_links:
  assumes "vol_inv V d" "valid V c" "find_blank_cluster d (v_part V) = Some x" "valid V x"
  shows "\<exists>d'. expand_file d (v_part V) c = Some (x, d') \<and> vol_inv V d'
    \<and> abs_vol V d' = (abs_vol V d)\<lparr>fat := (fat (abs_vol V d))(c := x AND 0x0FFFFFFF, x := FAT32_EOC)\<rparr>"
proof -
  obtain d1 where d1: "fat32_set_fat_entry d (v_part V) c x = Some d1" "vol_inv V d1"
    "abs_vol V d1 = (abs_vol V d)\<lparr>fat := (fat (abs_vol V d))(c := x AND 0x0FFFFFFF)\<rparr>"
    using vol.set [OF assms(1,2), of x] by blast
  obtain d2 where d2: "fat32_set_fat_entry d1 (v_part V) x FAT32_EOC = Some d2" "vol_inv V d2"
    "abs_vol V d2 = (abs_vol V d1)\<lparr>fat := (fat (abs_vol V d1))(x := FAT32_EOC AND 0x0FFFFFFF)\<rparr>"
    using vol.set [OF d1(2) assms(4), of FAT32_EOC] by blast
  have "\<not> x < 2" using assms(4) by (auto simp: valid_def)
  then show ?thesis using d1 d2 assms(3) by (simp add: expand_file_def)
qed

text \<open>The older function sets the entry, but overwrites the mirrors with the boot sector.\<close>

lemma fat_set_entry_view:
  assumes "vol_inv V d" "valid V c"
  shows "\<exists>d'. fat_set_entry d (v_part V) c w = Some d' \<and> vol_inv V d'
    \<and> abs_vol V d' = (abs_vol V d)\<lparr>fat := (fat (abs_vol V d))(c := w AND 0x0FFFFFFF)\<rparr>
    \<and> (\<forall>j. 1 \<le> j \<and> j < unat (num_fats (v_bpb V)) \<longrightarrow> sec d' (fat_sector V c + j * fat_size V) = sec d (unat (v_lba V)))"
proof -
  have g: "geometry_ok V" "vol_ok V d" using assms(1) by (simp_all add: vol_inv_def)
  obtain d' where d': "fat_set_entry d (v_part V) c w = Some d'" "vol_ok V d'"
    "\<And>c'. valid V c' \<Longrightarrow> entry_at V d' c' = (if c' = c then w AND 0x0FFFFFFF else entry_at V d c')"
    "\<And>t. data_start V \<le> t \<Longrightarrow> t < vol_end V \<Longrightarrow> sec d' t = sec d t"
    "\<And>j. 1 \<le> j \<Longrightarrow> j < unat (num_fats (v_bpb V)) \<Longrightarrow> sec d' (fat_sector V c + j * fat_size V) = sec d (unat (v_lba V))"
    using fat_set_entry_vol [OF g assms(2), of w] by metis
  have i: "vol_inv V d'" using g(1) d'(2) by (simp add: vol_inv_def)
  from view_of [OF assms(1) i d'(3) data_at_same [OF g(1) d'(4)] assms(2)] i d'(1,5) show ?thesis by auto
qed

section \<open>A small volume\<close>

definition example_fat :: "u8 list" where
  "example_fat = concat (map le32 ([0x0FFFFFF8, 0x0FFFFFFF, 0x0FFFFFFF, 4, 3] @ replicate 123 0))"

definition example_mbr :: "u8 list" where
  "example_mbr = replicate 454 0 @ le32 1 @ replicate 52 0 @ [0x55, 0xAA]"

definition example_boot :: "u8 list" where
  "example_boot = replicate 11 0 @ le16 512 @ [8] @ le16 1 @ [2] @ replicate 19 0 @ le32 1 @ replicate 4 0 @ le32 2 @ replicate 464 0"

definition example_disk :: disk where
  "example_disk = \<lparr>d_data = (\<lambda>s. if s = 0 then Some example_mbr else if s = 1 then Some example_boot
     else if s < 4 then Some example_fat else if s < 28 then Some (replicate 512 0) else None), d_fails = (\<lambda>_. False)\<rparr>"

definition example_volume :: volume where
  "example_volume = \<lparr>v_part = 0, v_lba = 1, v_bpb = \<lparr>bytes_per_sector = 512, sectors_per_cluster = 8, reserved_sector_count = 1,
     num_fats = 2, fat_size_32 = 1, root_cluster = 2\<rparr>, v_count = 5\<rparr>"

lemma example_sectors: "length example_fat = 512" "length example_mbr = 512" "length example_boot = 512"
  by code_simp+

lemma example_number: "v_part example_volume = 0" "v_count example_volume = 5"
  by (simp_all add: example_volume_def)

lemma example_part: "part_bpb example_disk 0 = Some (v_lba example_volume, v_bpb example_volume)"
  by code_simp

lemma example_layout:
  assumes "part_bpb d 0 = Some (v_lba example_volume, v_bpb example_volume)" "\<And>s. \<not> d_fails d s"
    and "\<And>s. s < 28 \<Longrightarrow> \<exists>buf. d_data d s = Some buf \<and> length buf = 512"
  shows "vol_inv example_volume d"
proof -
  have e: "vol_end example_volume = 28"
    by (simp add: vol_end_def data_start_def fat_start_def fat_size_def example_volume_def)
  have "of_nat s < (28 :: u32)" if "s < 28" for s using that by (simp add: word_less_nat_alt unat_of_nat)
  then have "vol_ok example_volume d" using assms by (simp add: vol_ok_def e example_number)
  moreover have "geometry_ok example_volume" unfolding geometry_ok_def e by (simp add: example_volume_def fat_size_def)
  ultimately show ?thesis by (simp add: vol_inv_def)
qed

lemma example_vol_inv: "vol_inv example_volume example_disk"
  using example_part example_sectors by (intro example_layout) (auto simp: example_disk_def)

lemma example_valid: "valid example_volume x \<longleftrightarrow> x = 2 \<or> x = 3 \<or> x = 4"
proof -
  have "valid example_volume x \<longleftrightarrow> unat x = 2 \<or> unat x = 3 \<or> unat x = 4" by (auto simp: valid_def example_volume_def word_le_nat_alt)
  then show ?thesis by (simp add: word_unat_eq_iff)
qed

lemma example_entries: "fat (abs_vol example_volume example_disk) x = (if x = 2 then 0x0FFFFFFF else if x = 3 then 4 else if x = 4 then 3 else 0)"
proof -
  have "entry_at example_volume example_disk 2 = 0x0FFFFFFF" "entry_at example_volume example_disk 3 = 4" "entry_at example_volume example_disk 4 = 3"
    by code_simp+
  then show ?thesis by (simp add: abs_vol_def example_valid)
qed

theorem volume_refines_witness:
  "vol_inv example_volume example_disk \<and> fat32_get_fat_entry example_disk 0 3 = Some 4
   \<and> (\<exists>d'. fat32_set_fat_entry example_disk 0 3 9 = Some d' \<and> fat (abs_vol example_volume d') 3 = 9)"
  using volume_refines [OF example_vol_inv, of 3 "replicate 4096 0" 9] example_vol_inv
  by (auto simp: example_valid example_entries example_number)

theorem chain_freed_witness:
  "\<exists>d'. free_chain example_disk 0 3 = Some d' \<and> fat (abs_vol example_volume d') 4 = 0 \<and> fat (abs_vol example_volume d') 2 = 0x0FFFFFFF"
proof -
  let ?f = "fat (abs_vol example_volume example_disk)"
  have "in_chain (?f x) \<Longrightarrow> valid example_volume (?f x)" for x
    by (auto simp: example_entries example_valid in_chain_def split: if_splits)
  then obtain d' where d': "free_chain example_disk (v_part example_volume) 3 = Some d'"
    "fat (abs_vol example_volume d') = (\<lambda>x. if linked ?f 3 x then 0 else ?f x)"
    using chain_freed [OF example_vol_inv, of 3] by (auto simp: example_valid)
  have f: "?f 3 = 4" "?f 2 = 0x0FFFFFFF" by (simp_all add: example_entries)
  have "linked ?f 3 (?f 3)" by (intro linked.further linked.first) (simp_all add: in_chain_def f)
  moreover have "x = 3 \<or> x = 4" if "linked ?f 3 x" for x
    using that by induction (auto simp: example_entries)
  then have "\<not> linked ?f 3 2" by fastforce
  ultimately show ?thesis using d' by (simp add: f example_number)
qed

theorem blank_cluster_first_witness:
  "\<exists>c. find_blank_cluster example_disk 0 = Some c \<and> (c = 0 \<or> 5 \<le> unat c)"
  using blank_cluster_first [OF example_vol_inv] by (auto simp: example_valid example_entries example_number split: if_splits)

end
