(* ===== verification/Fat_files.thy ===== *)
theory Fat_files
  imports Fat_table Paths
begin

text \<open>
  The upper half of the driver \<^verbatim>\<open>src/core/filesytem/fat32.h\<close>: names in 8.3 form,
  directory entries, the search for paths, and the operations on files and directories.

  A path is the array that holds it.  Local arrays that the code does not initialise have the
  contents \<open>g\<close> of 4096 bytes, local directory entries the contents \<open>e0\<close>, which
  are arguments.  Arrays whose length is computed are large enough, since the compiler rounds
  their size up to 16 bytes.
\<close>

section \<open>Directory entries\<close>

record DirEntry =
  de_name :: "u8 list"
  de_attr :: u8
  nt_reserved :: u8
  creation_time_tenths :: u8
  creation_time :: u16
  creation_date :: u16
  last_access_date :: u16
  first_cluster_hi :: u16
  write_time :: u16
  write_date :: u16
  first_cluster_lo :: u16
  file_size :: u32

definition entry_of :: "u8 list \<Rightarrow> DirEntry option" where
  "entry_of bs = do {
     name \<leftarrow> read_bytes bs 0 11;
     attr \<leftarrow> nth_opt bs 11;
     ntr \<leftarrow> nth_opt bs 12;
     tenths \<leftarrow> nth_opt bs 13;
     ctime \<leftarrow> read16 bs 14;
     cdate \<leftarrow> read16 bs 16;
     adate \<leftarrow> read16 bs 18;
     hi \<leftarrow> read16 bs 20;
     wtime \<leftarrow> read16 bs 22;
     wdate \<leftarrow> read16 bs 24;
     lo \<leftarrow> read16 bs 26;
     fsize \<leftarrow> read32 bs 28;
     Some \<lparr>de_name = name, de_attr = attr, nt_reserved = ntr, creation_time_tenths = tenths, creation_time = ctime,
       creation_date = cdate, last_access_date = adate, first_cluster_hi = hi, write_time = wtime, write_date = wdate,
       first_cluster_lo = lo, file_size = fsize\<rparr> }"

definition entry_bytes :: "DirEntry \<Rightarrow> u8 list" where
  "entry_bytes e = de_name e @ [de_attr e, nt_reserved e, creation_time_tenths e] @ le16 (creation_time e) @ le16 (creation_date e)
     @ le16 (last_access_date e) @ le16 (first_cluster_hi e) @ le16 (write_time e) @ le16 (write_date e)
     @ le16 (first_cluster_lo e) @ le32 (file_size e)"

text \<open>The entry of a number in a buffer of entries, read and written.\<close>

definition get_ent :: "u8 list \<Rightarrow> nat \<Rightarrow> DirEntry option" where
  "get_ent buf i = do { bs \<leftarrow> read_bytes buf (32 * i) 32; entry_of bs }"

definition put_ent :: "u8 list \<Rightarrow> nat \<Rightarrow> DirEntry \<Rightarrow> u8 list option" where
  "put_ent buf i e = put_all buf (32 * i) (entry_bytes e)"

definition get_entry_cluster :: "DirEntry \<Rightarrow> u32" where
  "get_entry_cluster e = push_bit 16 (ucast (first_cluster_hi e)) OR ucast (first_cluster_lo e)"

definition set_entry_cluster :: "u32 \<Rightarrow> DirEntry \<Rightarrow> DirEntry" where
  "set_entry_cluster c e = e\<lparr>first_cluster_lo := ucast c, first_cluster_hi := ucast (drop_bit 16 c)\<rparr>"

definition name0 :: "DirEntry \<Rightarrow> u8" where
  "name0 e = de_name e ! 0"

section \<open>Names\<close>

fun strchr :: "u8 list \<Rightarrow> u8 \<Rightarrow> nat \<Rightarrow> nat option option" where
  "strchr [] c i = None"
| "strchr (x # str) c i = (if x = 0 then Some (if c = 0 then Some i else None)
     else if x = c then Some (Some i) else strchr str c (Suc i))"

fun base_83 :: "nat \<Rightarrow> u8 list \<Rightarrow> nat option \<Rightarrow> nat \<Rightarrow> u8 list \<Rightarrow> u8 list option" where
  "base_83 0 src dot i dest = Some dest"
| "base_83 (Suc n) src dot i dest = do {
     c \<leftarrow> nth_opt src i;
     if c \<noteq> 0 \<and> dot \<noteq> Some i then base_83 n src dot (Suc i) (dest[i := toupper c]) else Some dest }"

definition format_name_83 :: "u8 list \<Rightarrow> u8 list option" where
  "format_name_83 src = do {
     dot \<leftarrow> strchr src 46 0;
     dest \<leftarrow> base_83 8 src dot 0 (replicate 11 32);
     (case dot of None \<Rightarrow> Some dest | Some p \<Rightarrow> name_ext 3 src 8 (Suc p) dest) }"

text \<open>The name behind the last slash of a path and the path in front of it.\<close>

definition last_slash :: "u8 list \<Rightarrow> nat" where
  "last_slash s = foldl (\<lambda>p i. if s ! i = 47 then i else p) 0 [0..<length s]"

definition parent_of :: "u8 list \<Rightarrow> u8 list" where
  "parent_of s = (if last_slash s = 0 then [47] else take (last_slash s) s) @ [0]"

definition name_of :: "u8 list \<Rightarrow> u8 list" where
  "name_of s = drop (Suc (last_slash s)) s @ [0]"

definition split_path :: "u8 list \<Rightarrow> (u8 list \<times> u8 list) option" where
  "split_path path = do {
     len \<leftarrow> strlen path;
     Some (parent_of (take (unat len) path), name_of (take (unat len) path)) }"

text \<open>\<^verbatim>\<open>find_parent_path\<close> is not called.  Trailing slashes of the path are left out first.\<close>

fun drop_slashes :: "u8 list \<Rightarrow> nat \<Rightarrow> nat" where
  "drop_slashes path 0 = 0"
| "drop_slashes path (Suc n) = (if n \<ge> 1 \<and> path ! n = 47 then drop_slashes path n else Suc n)"

fun slash_before :: "u8 list \<Rightarrow> nat \<Rightarrow> nat" where
  "slash_before path 0 = 0"
| "slash_before path (Suc n) = (if path ! n = 47 then n else slash_before path n)"

definition find_parent_path :: "u8 list \<Rightarrow> u8 list \<Rightarrow> u8 list option" where
  "find_parent_path path parent = do {
     len \<leftarrow> strlen path;
     let root = do { p \<leftarrow> upd_opt parent 0 47; upd_opt p 1 0 };
     if len = 0 \<or> len = 1 \<and> path ! 0 = 47 then root
     else do {
       let last_slash = slash_before path (drop_slashes path (unat len));
       if last_slash = 0 then root
       else do { (_, p) \<leftarrow> strncpy parent path (last_slash + 1); upd_opt p last_slash 0 } } }"

section \<open>The search by sectors\<close>

text \<open>
  The result of a scan: the entry that ends the search, or the cluster to continue with and
  whether it was found.  A name that is missing in the last place is not reported.
\<close>

fun fde_entries :: "nat \<Rightarrow> nat \<Rightarrow> u8 list \<Rightarrow> u8 list \<Rightarrow> bool \<Rightarrow> u32 \<times> bool \<Rightarrow> (DirEntry + u32 \<times> bool) option" where
  "fde_entries 0 i sector name83 deeper acc = Some (Inr acc)"
| "fde_entries (Suc k) i sector name83 deeper acc = do {
     e \<leftarrow> get_ent sector i;
     if name0 e = 0 then Some (Inr acc)
     else if de_attr e AND 0x0F = 0 \<and> de_name e = name83 then
       (if deeper then fde_entries k (Suc i) sector name83 deeper (get_entry_cluster e, True) else Some (Inl e))
     else fde_entries k (Suc i) sector name83 deeper acc }"

fun fde_sectors :: "nat \<Rightarrow> nat \<Rightarrow> disk \<Rightarrow> u32 \<Rightarrow> u8 list \<Rightarrow> bool \<Rightarrow> u32 \<times> bool \<Rightarrow> (DirEntry + u32 \<times> bool) option" where
  "fde_sectors 0 s d lba name83 deeper acc = Some (Inr acc)"
| "fde_sectors (Suc k) s d lba name83 deeper acc = do {
     sector \<leftarrow> read_sector d (lba + of_nat s);
     r \<leftarrow> fde_entries 16 0 sector name83 deeper acc;
     (case r of Inl e \<Rightarrow> Some (Inl e) | Inr acc' \<Rightarrow> fde_sectors k (Suc s) d lba name83 deeper acc') }"

definition token_len :: "u8 list \<Rightarrow> nat" where
  "token_len token = length (takeWhile (\<lambda>c. c \<noteq> 0 \<and> c \<noteq> 47) token)"

lemma token_len_shorter:
  assumes "nth_opt token 0 = Some c" "c \<noteq> 0" "nth_opt token (token_len token) = Some t"
  shows "length (drop (if t = 47 then Suc (token_len token) else token_len token) token) < length token"
  using assms by (cases token) (auto simp: token_len_def nth_opt_def split: if_splits)

function fde_loop :: "disk \<Rightarrow> u32 \<Rightarrow> BPB_FAT32 \<Rightarrow> DirEntry \<Rightarrow> u8 list \<Rightarrow> u32 \<Rightarrow> (bool \<times> DirEntry) option" where
  "fde_loop d bpb_sector_id bpb e0 token current_cluster = do {
     c \<leftarrow> nth_opt token 0;
     if c = 0 then Some (True, e0)
     else do {
       t \<leftarrow> nth_opt token (token_len token);
       if token_len token \<ge> 64 then None
       else do {
         name83 \<leftarrow> format_name_83 (take (token_len token) token @ [0]);
         r \<leftarrow> fde_sectors (unat (sectors_per_cluster bpb)) 0 d (bpb_sector_id + cluster_to_lba bpb current_cluster) name83 (t = 47)
           (current_cluster, False);
         (case r of
           Inl e \<Rightarrow> Some (True, e)
         | Inr (current', found) \<Rightarrow>
             if \<not> found \<and> t = 47 then Some (False, e0)
             else fde_loop d bpb_sector_id bpb e0 (drop (if t = 47 then Suc (token_len token) else token_len token) token) current') } } }"
  by pat_completeness auto
termination
  by (relation "measure (\<lambda>(_, _, _, _, token, _). length token)") (use token_len_shorter in auto)

definition find_dir_entry :: "disk \<Rightarrow> u8 \<Rightarrow> DirEntry \<Rightarrow> u8 list \<Rightarrow> (bool \<times> DirEntry) option" where
  "find_dir_entry d part e0 path = do {
     (lba, bpb) \<leftarrow> part_bpb d part;
     c \<leftarrow> nth_opt path 0;
     fde_loop d lba bpb e0 (if c = 47 then drop 1 path else path) (root_cluster bpb) }"

definition get_file_size :: "disk \<Rightarrow> u8 \<Rightarrow> DirEntry \<Rightarrow> u8 list \<Rightarrow> u64 option" where
  "get_file_size d part e0 path = do {
     (rs, e) \<leftarrow> find_dir_entry d part e0 path;
     Some (if rs then ucast (file_size e) else - 1) }"

section \<open>The search by clusters\<close>

text \<open>A scan of entries stops, finds something, or passes over all of them.\<close>

datatype 'a scan = Stop | Hit 'a | Pass

fun fcp_entries :: "nat \<Rightarrow> nat \<Rightarrow> u8 list \<Rightarrow> u8 list \<Rightarrow> u32 scan option" where
  "fcp_entries 0 i buf token = Some Pass"
| "fcp_entries (Suc k) i buf token = do {
     e \<leftarrow> get_ent buf i;
     if name0 e = 0 then Some Stop
     else if name0 e = 0xE5 \<or> de_attr e = 0x0F then fcp_entries k (Suc i) buf token
     else do {
       m \<leftarrow> match_name token (de_name e);
       if m then Some (Hit (get_entry_cluster e)) else fcp_entries k (Suc i) buf token } }"

lemma split_loop_level:
  "split_loop str delim index rs cd j res = Some (r, res') \<Longrightarrow> res' ! 0 \<noteq> 0 \<Longrightarrow> index \<le> cd + count_list str delim"
  by (induction str delim index rs cd j res rule: split_loop.induct)
    (auto simp: upd_opt_eq_Some bind_eq_Some_conv split: if_splits)

text \<open>The components of the path are taken in turn; each is searched in the first cluster of its directory.\<close>

function fcp_loop :: "disk \<Rightarrow> u8 \<Rightarrow> u8 list \<Rightarrow> u8 list \<Rightarrow> nat \<Rightarrow> u32 \<Rightarrow> u8 list \<Rightarrow> u32 option" where
  "fcp_loop d part g cur_path j cluster token0 = do {
     (_, token) \<leftarrow> split_n cur_path 47 j token0 64;
     if token ! 0 = 0 then Some cluster
     else do {
       (_, buf) \<leftarrow> read_cluster d part cluster g;
       r \<leftarrow> fcp_entries 128 0 buf token;
       (case r of Hit cluster' \<Rightarrow> fcp_loop d part g cur_path (Suc j) cluster' token | _ \<Rightarrow> Some 0) } }"
  by pat_completeness auto
termination
  by (relation "measure (\<lambda>(_, _, _, cur_path, j, _, _). Suc (count_list cur_path 47) - j)")
    (auto simp: split_n_def dest!: split_loop_level)

definition find_cluster_from_path :: "disk \<Rightarrow> u8 \<Rightarrow> u8 list \<Rightarrow> u8 list \<Rightarrow> u32 option" where
  "find_cluster_from_path d part g path = do {
     c0 \<leftarrow> nth_opt path 0;
     if c0 \<noteq> 47 then Some 0
     else do {
       c1 \<leftarrow> nth_opt path 1;
       root \<leftarrow> get_root_dir_cluster d part;
       if c1 = 0 then Some root
       else do {
         len \<leftarrow> strlen path;
         fcp_loop d part g (take (Suc (unat len)) path) 1 root (take 65 g) } } }"

section \<open>Reading\<close>

text \<open>Following a chain; the inner result is missing when the chain ends.\<close>

fun skip_clusters :: "nat \<Rightarrow> disk \<Rightarrow> u8 \<Rightarrow> u32 \<Rightarrow> u32 option option" where
  "skip_clusters 0 d part cluster = Some (Some cluster)"
| "skip_clusters (Suc k) d part cluster = do {
     cluster' \<leftarrow> get_next_cluster d part cluster;
     if cluster' \<ge> FAT32_EOC then Some None else skip_clusters k d part cluster' }"

text \<open>The offset in a cluster is that of the first byte and 0 afterwards, so it is below 4096.\<close>

function read_loop :: "disk \<Rightarrow> u8 \<Rightarrow> u32 \<Rightarrow> u8 list \<Rightarrow> u8 list \<Rightarrow> nat \<Rightarrow> nat \<Rightarrow> nat \<Rightarrow> (int \<times> u8 list) option" where
  "read_loop d part cluster tmp buf total_read offset_in_cluster sz =
     (if sz = 0 \<or> cluster \<ge> FAT32_EOC then Some (int total_read, buf)
      else if offset_in_cluster \<ge> 4096 then None
      else do {
        (r, tmp') \<leftarrow> read_cluster d part cluster tmp;
        if r \<noteq> 0 then Some (- 3, buf)
        else do {
          let to_copy = min (4096 - offset_in_cluster) sz;
          bytes \<leftarrow> read_bytes tmp' offset_in_cluster to_copy;
          buf' \<leftarrow> put_all buf total_read bytes;
          cluster' \<leftarrow> (if sz - to_copy > 0 then get_next_cluster d part cluster else Some cluster);
          read_loop d part cluster' tmp' buf' (total_read + to_copy) 0 (sz - to_copy) } })"
  by pat_completeness auto
termination
  by (relation "measure (\<lambda>(_, _, _, _, _, _, _, sz). sz)") auto

definition fat32_read_file_bytes :: "disk \<Rightarrow> u8 \<Rightarrow> u8 list \<Rightarrow> DirEntry \<Rightarrow> u8 list \<Rightarrow> u8 list \<Rightarrow> u64 \<Rightarrow> u64 \<Rightarrow> (int \<times> u8 list) option" where
  "fat32_read_file_bytes d part g e0 path buf offset sz = do {
     cluster \<leftarrow> find_cluster_from_path d part g path;
     if cluster = 0 then Some (- 1, buf)
     else do {
       file_size \<leftarrow> get_file_size d part e0 path;
       if offset \<ge> file_size then Some (0, buf)
       else do {
         let sz = (if offset + sz > file_size then file_size - offset else sz);
         c \<leftarrow> skip_clusters (unat (offset div 4096)) d part cluster;
         (case c of None \<Rightarrow> Some (- 2, buf)
          | Some cluster' \<Rightarrow> read_loop d part cluster' g buf 0 (unat (offset mod 4096)) (unat sz)) } } }"

section \<open>Status\<close>

record DirentStat =
  st_creation_date :: u16
  st_creation_time :: u16
  st_modified_date :: u16
  st_modified_time :: u16
  st_last_access_date :: u16
  st_name :: "u8 list"
  st_size :: u32
  st_type :: path_type
  st_parent_cluster_id :: u32

definition stat0 :: DirentStat where
  "stat0 = \<lparr>st_creation_date = 0, st_creation_time = 0, st_modified_date = 0, st_modified_time = 0, st_last_access_date = 0,
     st_name = replicate 65 0, st_size = 0, st_type = PATH_NOT_FOUND, st_parent_cluster_id = 0\<rparr>"

text \<open>
  The comparison of as many bytes as the name in the path has, up to the first difference; behind
  the eleventh byte it leaves the array of the formatted name.
\<close>

definition same_prefix :: "u8 list \<Rightarrow> u8 list \<Rightarrow> nat \<Rightarrow> bool option" where
  "same_prefix a b n = (if n \<le> 11 then Some (take n a = take n b) else if a \<noteq> b then Some False else None)"

fun stat_entries :: "nat \<Rightarrow> nat \<Rightarrow> u8 list \<Rightarrow> nat \<Rightarrow> u8 list \<Rightarrow> DirEntry scan option" where
  "stat_entries 0 i buf n name83 = Some Pass"
| "stat_entries (Suc k) i buf n name83 = do {
     e \<leftarrow> get_ent buf i;
     if de_attr e = 0 then Some Stop
     else if de_attr e = 0xE5 \<or> de_attr e = 0x0F then stat_entries k (Suc i) buf n name83
     else do {
       m \<leftarrow> same_prefix (de_name e) name83 n;
       if m then Some (Hit e) else stat_entries k (Suc i) buf n name83 } }"

partial_function (option) stat_loop :: "disk \<Rightarrow> u8 \<Rightarrow> nat \<Rightarrow> u8 list \<Rightarrow> u32 \<Rightarrow> u8 list \<Rightarrow> DirEntry option option" where
  "stat_loop d part n name83 current_cluster buffer = do {
     (_, buffer') \<leftarrow> read_cluster d part current_cluster buffer;
     r \<leftarrow> stat_entries 128 0 buffer' n name83;
     (case r of
       Stop \<Rightarrow> Some None
     | Hit e \<Rightarrow> Some (Some e)
     | Pass \<Rightarrow> do { nxt \<leftarrow> get_next_cluster d part current_cluster; stat_loop d part n name83 nxt buffer' }) }"

definition stat_of :: "u8 list \<Rightarrow> u32 \<Rightarrow> DirEntry \<Rightarrow> DirentStat" where
  "stat_of name parent_cluster_id e = \<lparr>st_creation_date = creation_date e, st_creation_time = creation_time e,
     st_modified_date = write_date e, st_modified_time = write_time e, st_last_access_date = last_access_date e,
     st_name = (put_slice 0 name (replicate 65 0))[11 := 0], st_size = file_size e,
     st_type = (if de_attr e = 0x10 then PATH_DIRECTORY else PATH_FILE), st_parent_cluster_id = parent_cluster_id\<rparr>"

definition fat32_stat :: "disk \<Rightarrow> u8 \<Rightarrow> u8 list \<Rightarrow> u8 list \<Rightarrow> DirentStat option" where
  "fat32_stat d part g path = do {
     c0 \<leftarrow> nth_opt path 0;
     if c0 \<noteq> 47 then Some stat0
     else do {
       c1 \<leftarrow> nth_opt path 1;
       if c1 = 0 then Some (stat0\<lparr>st_name := put_slice 0 [47, 0] (st_name stat0), st_type := PATH_DIRECTORY\<rparr>)
       else do {
         (parent_path, name) \<leftarrow> split_path path;
         current_cluster \<leftarrow> find_cluster_from_path d part g parent_path;
         name83 \<leftarrow> format_name_83 name;
         r \<leftarrow> stat_loop d part (length name - 1) name83 current_cluster g;
         Some (case r of None \<Rightarrow> stat0 | Some e \<Rightarrow> stat_of name current_cluster e) } } }"

section \<open>Changing entries\<close>

text \<open>
  What the operations on entries share: the clusters of a directory are searched for an entry with the attribute and
  the name, which is changed by \<open>f\<close> and written back.  The flag of the result says that the
  search ended at an empty entry.
\<close>

fun change_entries :: "nat \<Rightarrow> nat \<Rightarrow> u8 list \<Rightarrow> u8 \<Rightarrow> u8 list \<Rightarrow> (DirEntry \<Rightarrow> DirEntry) \<Rightarrow> u8 list scan option" where
  "change_entries 0 i buf attr name83 f = Some Pass"
| "change_entries (Suc k) i buf attr name83 f = do {
     e \<leftarrow> get_ent buf i;
     if name0 e = 0 then Some Stop
     else if de_attr e = attr \<and> de_name e = name83 then map_option Hit (put_ent buf i (f e))
     else change_entries k (Suc i) buf attr name83 f }"

partial_function (option) change_loop :: "disk \<Rightarrow> u8 \<Rightarrow> u8 \<Rightarrow> u8 list \<Rightarrow> (DirEntry \<Rightarrow> DirEntry) \<Rightarrow> u32 \<Rightarrow> u8 list \<Rightarrow> (bool \<times> disk) option" where
  "change_loop d part attr name83 f current_parent_cluster_id buffer =
     (if current_parent_cluster_id < 2 then Some (False, d)
      else do {
        (_, buffer') \<leftarrow> read_cluster d part current_parent_cluster_id buffer;
        r \<leftarrow> change_entries 128 0 buffer' attr name83 f;
        (case r of
          Stop \<Rightarrow> Some (True, d)
        | Hit buffer'' \<Rightarrow> do { (_, d') \<leftarrow> write_cluster d part current_parent_cluster_id buffer''; Some (False, d') }
        | Pass \<Rightarrow> do {
            nxt \<leftarrow> get_next_cluster d part current_parent_cluster_id;
            change_loop d part attr name83 f nxt buffer' }) })"

definition change_stat_entry :: "disk \<Rightarrow> u8 \<Rightarrow> u8 list \<Rightarrow> u8 \<Rightarrow> (DirEntry \<Rightarrow> DirEntry) \<Rightarrow> DirentStat \<Rightarrow> (bool \<times> disk) option" where
  "change_stat_entry d part g attr f stat = do {
     this_name83 \<leftarrow> format_name_83 (st_name stat);
     change_loop d part attr this_name83 f (st_parent_cluster_id stat) g }"

definition set_file_first_cluster :: "disk \<Rightarrow> u8 \<Rightarrow> u8 list \<Rightarrow> u8 list \<Rightarrow> u32 \<Rightarrow> disk option" where
  "set_file_first_cluster d part g path cluster = do {
     stat \<leftarrow> fat32_stat d part g path;
     if st_type stat = PATH_NOT_FOUND \<or> st_type stat = PATH_DIRECTORY then Some d
     else map_option snd (change_stat_entry d part g 0x20 (set_entry_cluster cluster) stat) }"

definition set_file_size :: "disk \<Rightarrow> u8 \<Rightarrow> u8 list \<Rightarrow> u8 list \<Rightarrow> u32 \<Rightarrow> disk option" where
  "set_file_size d part g path new_size = do {
     stat \<leftarrow> fat32_stat d part g path;
     map_option snd (change_stat_entry d part g 0x20 (\<lambda>e. e\<lparr>file_size := new_size\<rparr>) stat) }"

section \<open>Writing\<close>

text \<open>One cluster is read, changed and written back; the result is 0 or the error code.\<close>

definition write_one :: "disk \<Rightarrow> u8 \<Rightarrow> u32 \<Rightarrow> u8 list \<Rightarrow> nat \<Rightarrow> nat \<Rightarrow> nat \<Rightarrow> (int \<times> disk) option" where
  "write_one d part cluster buf total_written offset_in_cluster to_copy = do {
     (r, tmp) \<leftarrow> read_cluster d part cluster (replicate 4096 0);
     if r \<noteq> 0 then Some (- 4, d)
     else do {
       bytes \<leftarrow> read_bytes buf total_written to_copy;
       tmp' \<leftarrow> put_all tmp offset_in_cluster bytes;
       (w, d') \<leftarrow> write_cluster d part cluster tmp';
       Some (if w \<noteq> 0 then - 5 else 0, d') } }"

text \<open>The cluster behind a cluster.  The chain is only extended when its end is reported by the marker.\<close>

definition next_or_expand :: "disk \<Rightarrow> u8 \<Rightarrow> u32 \<Rightarrow> (u32 option \<times> disk) option" where
  "next_or_expand d part cluster = do {
     cluster' \<leftarrow> get_next_cluster d part cluster;
     if cluster' \<ge> FAT32_EOC then do {
       (new_cluster, d') \<leftarrow> expand_file d part cluster';
       Some (if new_cluster = 0 then None else Some new_cluster, d') }
     else Some (Some cluster', d) }"

text \<open>The inner result is an error code, or the number of bytes that were written.\<close>

function write_loop :: "disk \<Rightarrow> u8 \<Rightarrow> u32 \<Rightarrow> u8 list \<Rightarrow> nat \<Rightarrow> nat \<Rightarrow> nat \<Rightarrow> ((int + nat) \<times> disk) option" where
  "write_loop d part cluster buf total_written offset_in_cluster sz =
     (if sz = 0 \<or> cluster \<ge> FAT32_EOC then Some (Inr total_written, d)
      else if offset_in_cluster \<ge> 4096 then None
      else do {
        let to_copy = min (4096 - offset_in_cluster) sz;
        (code, d1) \<leftarrow> write_one d part cluster buf total_written offset_in_cluster to_copy;
        if code \<noteq> 0 then Some (Inl code, d1)
        else if sz - to_copy = 0 then Some (Inr (total_written + to_copy), d1)
        else do {
          (nxt, d2) \<leftarrow> next_or_expand d1 part cluster;
          (case nxt of
            None \<Rightarrow> Some (Inl (- 7), d2)
          | Some cluster' \<Rightarrow> write_loop d2 part cluster' buf (total_written + to_copy) 0 (sz - to_copy)) } })"
  by pat_completeness auto
termination
  by (relation "measure (\<lambda>(_, _, _, _, _, _, sz). sz)") auto

definition fat32_write_file_bytes :: "disk \<Rightarrow> u8 \<Rightarrow> u8 list \<Rightarrow> DirEntry \<Rightarrow> u8 list \<Rightarrow> u8 list \<Rightarrow> u64 \<Rightarrow> u64 \<Rightarrow> (int \<times> disk) option" where
  "fat32_write_file_bytes d part g e0 path buf offset sz = do {
     cluster0 \<leftarrow> find_cluster_from_path d part g path;
     (cluster, d1) \<leftarrow> (if cluster0 = 0 then do {
         c \<leftarrow> find_blank_cluster d part;
         if c < 2 then Some (0, d)
         else do {
           d' \<leftarrow> fat32_set_fat_entry d part c FAT32_EOC;
           d'' \<leftarrow> set_file_first_cluster d' part g path c;
           Some (c, d'') } }
       else Some (cluster0, d));
     if cluster0 = 0 \<and> cluster < 2 then Some (- 6, d)
     else do {
       file_size \<leftarrow> get_file_size d1 part e0 path;
       if offset > file_size then Some (- 2, d1)
       else do {
         c \<leftarrow> skip_clusters (unat (offset div 4096)) d1 part cluster;
         (case c of None \<Rightarrow> Some (- 3, d1)
          | Some cluster' \<Rightarrow> do {
              (r, d2) \<leftarrow> write_loop d1 part cluster' buf 0 (unat (offset mod 4096)) (unat sz);
              (case r of
                Inl code \<Rightarrow> Some (code, d2)
              | Inr total_written \<Rightarrow>
                  if offset + of_nat total_written > file_size
                  then map_option (Pair 0) (set_file_size d2 part g path (ucast (offset + of_nat total_written)))
                  else Some (0, d2)) }) } } }"

section \<open>Removing\<close>

definition is_root :: "u8 list \<Rightarrow> bool option" where
  "is_root path = do { c0 \<leftarrow> nth_opt path 0; if c0 \<noteq> 47 then Some False else map_option (\<lambda>c. c = 0) (nth_opt path 1) }"

text \<open>The tests at the start of the operations: the error code, or the status of the path.\<close>

definition check_path :: "disk \<Rightarrow> u8 \<Rightarrow> u8 list \<Rightarrow> u8 list \<Rightarrow> int \<Rightarrow> path_type \<Rightarrow> int \<Rightarrow> (int + DirentStat) option" where
  "check_path d part g path root_code wrong wrong_code = do {
     c0 \<leftarrow> nth_opt path 0;
     if c0 \<noteq> 47 then Some (Inl (- EINVAL))
     else do {
       root \<leftarrow> is_root path;
       if root then Some (Inl root_code)
       else do {
         stat \<leftarrow> fat32_stat d part g path;
         Some (if st_type stat = PATH_NOT_FOUND then Inl (- ENOENT)
           else if st_type stat = wrong then Inl wrong_code else Inr stat) } } }"

definition fat32_truncate_file :: "disk \<Rightarrow> u8 \<Rightarrow> u8 list \<Rightarrow> u8 list \<Rightarrow> (int \<times> disk) option" where
  "fat32_truncate_file d part g path = do {
     r \<leftarrow> check_path d part g path (- EISDIR) PATH_DIRECTORY (- EISDIR);
     (case r of Inl code \<Rightarrow> Some (code, d)
      | Inr stat \<Rightarrow> do {
          this_cluster_id \<leftarrow> find_cluster_from_path d part g path;
          d1 \<leftarrow> free_chain d part this_cluster_id;
          (stopped, d2) \<leftarrow> change_stat_entry d1 part g 0x20 (\<lambda>e. (set_entry_cluster 0 e)\<lparr>file_size := 0\<rparr>) stat;
          Some (if stopped then - 1 else 0, d2) }) }"

text \<open>The entry is marked as deleted before the clusters of the path are looked up.\<close>

definition fat32_unlink_file :: "disk \<Rightarrow> u8 \<Rightarrow> u8 list \<Rightarrow> u8 list \<Rightarrow> (int \<times> disk) option" where
  "fat32_unlink_file d part g path = do {
     r \<leftarrow> check_path d part g path (- EISDIR) PATH_DIRECTORY (- EISDIR);
     (case r of Inl code \<Rightarrow> Some (code, d)
      | Inr stat \<Rightarrow> do {
          (stopped, d1) \<leftarrow> change_stat_entry d part g 0x20 (\<lambda>e. e\<lparr>de_name := (de_name e)[0 := 0xE5]\<rparr>) stat;
          if stopped then Some (- 1, d1)
          else do {
            this_cluster_id \<leftarrow> find_cluster_from_path d1 part g path;
            d2 \<leftarrow> free_chain d1 part this_cluster_id;
            Some (0, d2) } }) }"

definition zero_entry :: DirEntry where
  "zero_entry = \<lparr>de_name = replicate 11 0, de_attr = 0, nt_reserved = 0, creation_time_tenths = 0, creation_time = 0, creation_date = 0,
     last_access_date = 0, first_cluster_hi = 0, write_time = 0, write_date = 0, first_cluster_lo = 0, file_size = 0\<rparr>"

definition fat32_unlink_file_entry :: "disk \<Rightarrow> u8 \<Rightarrow> u8 list \<Rightarrow> u8 list \<Rightarrow> (int \<times> disk) option" where
  "fat32_unlink_file_entry d part g path = do {
     r \<leftarrow> check_path d part g path (- EISDIR) PATH_DIRECTORY (- EISDIR);
     (case r of Inl code \<Rightarrow> Some (code, d)
      | Inr stat \<Rightarrow> do {
          (stopped, d1) \<leftarrow> change_stat_entry d part g 0x20 (\<lambda>_. zero_entry) stat;
          Some (if stopped then - 1 else 0, d1) }) }"

text \<open>
  A directory counts as empty when all entries are deleted, begin with the letter A, or are the
  entries of the directory itself and its parent.
\<close>

fun empty_entries :: "nat \<Rightarrow> nat \<Rightarrow> u8 list \<Rightarrow> unit scan option" where
  "empty_entries 0 i buf = Some Pass"
| "empty_entries (Suc k) i buf = do {
     e \<leftarrow> get_ent buf i;
     if name0 e = 0 then Some Stop
     else if name0 e \<noteq> 0xE5 \<and> name0 e \<noteq> 0x41 \<and> take 2 (de_name e) \<noteq> [46, 32] \<and> take 3 (de_name e) \<noteq> [46, 46, 32]
     then Some (Hit ())
     else empty_entries k (Suc i) buf }"

partial_function (option) empty_loop :: "disk \<Rightarrow> u8 \<Rightarrow> u32 \<Rightarrow> u8 list \<Rightarrow> (bool \<times> u8 list) option" where
  "empty_loop d part current_cluster_id buffer =
     (if current_cluster_id < 2 then Some (True, buffer)
      else do {
        (_, buffer') \<leftarrow> read_cluster d part current_cluster_id buffer;
        r \<leftarrow> empty_entries 128 0 buffer';
        (case r of
          Stop \<Rightarrow> Some (True, buffer')
        | Hit _ \<Rightarrow> Some (False, buffer')
        | Pass \<Rightarrow> do { nxt \<leftarrow> get_next_cluster d part current_cluster_id; empty_loop d part nxt buffer' }) })"

definition fat32_rmdir :: "disk \<Rightarrow> u8 \<Rightarrow> u8 list \<Rightarrow> u8 list \<Rightarrow> (int \<times> disk) option" where
  "fat32_rmdir d part g path = do {
     r \<leftarrow> check_path d part g path (- EINVAL) PATH_FILE (- EINVAL);
     (case r of Inl code \<Rightarrow> Some (code, d)
      | Inr stat \<Rightarrow> do {
          this_cluster_id \<leftarrow> find_cluster_from_path d part g path;
          (empty, buffer) \<leftarrow> empty_loop d part this_cluster_id g;
          if \<not> empty then Some (- 1, d)
          else do {
            (stopped, d1) \<leftarrow> change_stat_entry d part buffer 0x10 (\<lambda>e. e\<lparr>de_name := (de_name e)[0 := 0xE5]\<rparr>) stat;
            if stopped then Some (- 1, d1)
            else do { d2 \<leftarrow> free_chain d1 part this_cluster_id; Some (0, d2) } } }) }"

definition fat32_rmdir_entry :: "disk \<Rightarrow> u8 \<Rightarrow> u8 list \<Rightarrow> u8 list \<Rightarrow> (int \<times> disk) option" where
  "fat32_rmdir_entry d part g path = do {
     r \<leftarrow> check_path d part g path (- EINVAL) PATH_FILE (- EINVAL);
     (case r of Inl code \<Rightarrow> Some (code, d)
      | Inr stat \<Rightarrow> do {
          _ \<leftarrow> find_cluster_from_path d part g path;
          (stopped, d1) \<leftarrow> change_stat_entry d part g 0x10 (\<lambda>_. zero_entry) stat;
          Some (if stopped then - 1 else 0, d1) }) }"

section \<open>Creating\<close>

text \<open>The date and the times of a new entry are constants.\<close>

definition new_entry :: "u8 list \<Rightarrow> u8 \<Rightarrow> u32 \<Rightarrow> DirEntry" where
  "new_entry name attr cluster = \<lparr>de_name = name, de_attr = attr, nt_reserved = 0, creation_time_tenths = 0x44, creation_time = 0x9c1a,
     creation_date = 0x5b13, last_access_date = 0x5b13, first_cluster_hi = ucast (drop_bit 16 cluster AND 0xFFFF), write_time = 0x9c33,
     write_date = 0x5b13, first_cluster_lo = ucast (cluster AND 0xFFFF), file_size = 0\<rparr>"

definition create_dirent_entry :: "disk \<Rightarrow> u8 \<Rightarrow> u8 \<Rightarrow> u8 list \<Rightarrow> (u32 \<times> DirEntry) option" where
  "create_dirent_entry d part attr dirent_name = do {
     new_blank_cluster_id \<leftarrow> find_blank_cluster d part;
     Some (new_blank_cluster_id, new_entry dirent_name attr new_blank_cluster_id) }"

fun blank_entries :: "nat \<Rightarrow> nat \<Rightarrow> u8 list \<Rightarrow> nat scan option" where
  "blank_entries 0 i buf = Some Pass"
| "blank_entries (Suc k) i buf = do {
     e \<leftarrow> get_ent buf i;
     if name0 e = 0xE5 \<or> name0 e = 0 then Some (Hit i) else blank_entries k (Suc i) buf }"

text \<open>
  The search for a place for an entry, which is written there: the result says whether there
  was one, and the last cluster of the directory that was read.
\<close>

partial_function (option) place_loop :: "disk \<Rightarrow> u8 \<Rightarrow> DirEntry \<Rightarrow> u32 \<Rightarrow> u32 \<Rightarrow> u8 list \<Rightarrow> (bool \<times> u32 \<times> disk) option" where
  "place_loop d part e current_parent_cluster_id parent_cluster_last_id buffer =
     (if current_parent_cluster_id < 2 then Some (False, parent_cluster_last_id, d)
      else do {
        (_, buffer') \<leftarrow> read_cluster d part current_parent_cluster_id buffer;
        r \<leftarrow> blank_entries 128 0 buffer';
        (case r of
          Hit i \<Rightarrow> do {
            buffer'' \<leftarrow> put_ent buffer' i e;
            (_, d') \<leftarrow> write_cluster d part current_parent_cluster_id buffer'';
            Some (True, parent_cluster_last_id, d') }
        | _ \<Rightarrow> do {
            nxt \<leftarrow> get_next_cluster d part current_parent_cluster_id;
            place_loop d part e nxt current_parent_cluster_id buffer' }) })"

definition dot_entries :: "u32 \<Rightarrow> u32 \<Rightarrow> u8 list" where
  "dot_entries this_cluster parent_cluster = entry_bytes (new_entry (46 # replicate 10 32) 0x10 this_cluster)
     @ entry_bytes (new_entry (46 # 46 # replicate 9 32) 0x10 parent_cluster) @ replicate 4032 0"

text \<open>A directory without a place for the entry is extended by a cluster that begins with it.\<close>

definition grow_directory :: "disk \<Rightarrow> u8 \<Rightarrow> u32 \<Rightarrow> u32 \<Rightarrow> u8 \<Rightarrow> u8 list \<Rightarrow> (u32 \<times> disk) option" where
  "grow_directory d part parent_cluster_last_id blank_block_id attr dirent_name = do {
     d1 \<leftarrow> extend_dirent_cluster d part parent_cluster_last_id blank_block_id;
     (new_cluster, entry) \<leftarrow> create_dirent_entry d1 part attr dirent_name;
     (_, d2) \<leftarrow> write_cluster d1 part blank_block_id (entry_bytes entry @ replicate 4064 0);
     Some (new_cluster, d2) }"

definition make_dots :: "disk \<Rightarrow> u8 \<Rightarrow> bool \<Rightarrow> u32 \<Rightarrow> u32 \<Rightarrow> disk option" where
  "make_dots d part as_dir new_cluster parent_cluster_id = (if as_dir
     then map_option snd (write_cluster d part new_cluster (dot_entries new_cluster parent_cluster_id)) else Some d)"

text \<open>
  The blank cluster for the entry is found when the entry is written, before the
  table is changed; without a place it is found after the directory was extended.
\<close>

definition fat32_create :: "disk \<Rightarrow> u8 \<Rightarrow> u8 list \<Rightarrow> u8 list \<Rightarrow> bool \<Rightarrow> (u64 \<times> disk) option" where
  "fat32_create d part g path as_dir = do {
     c0 \<leftarrow> nth_opt path 0;
     if c0 \<noteq> 47 then Some (- 1, d)
     else do {
       (parent_path, name) \<leftarrow> split_path path;
       parent_cluster_id \<leftarrow> find_cluster_from_path d part g parent_path;
       dirent_name \<leftarrow> format_name_83 name;
       let attr = (if as_dir then 0x10 else 0x20);
       (blank, entry) \<leftarrow> create_dirent_entry d part attr dirent_name;
       (found, parent_cluster_last_id, d1) \<leftarrow> place_loop d part entry parent_cluster_id parent_cluster_id g;
       (new_dirent_first_cluster, d2) \<leftarrow> (if found then Some (blank, d1)
         else grow_directory d1 part parent_cluster_last_id blank attr dirent_name);
       d3 \<leftarrow> make_dots d2 part as_dir new_dirent_first_cluster parent_cluster_id;
       d4 \<leftarrow> fat_set_entry d3 part new_dirent_first_cluster FAT32_EOC;
       Some (0, d4) } }"

section \<open>Renaming\<close>

text \<open>The last entry of the name in a cluster; an entry that is not found is not initialised.\<close>

fun named_entries :: "nat \<Rightarrow> nat \<Rightarrow> u8 list \<Rightarrow> u8 list \<Rightarrow> DirEntry option \<Rightarrow> DirEntry option option" where
  "named_entries 0 i buf name83 acc = Some acc"
| "named_entries (Suc k) i buf name83 acc = do {
     e \<leftarrow> get_ent buf i;
     named_entries k (Suc i) buf name83 (if de_name e = name83 then Some e else acc) }"

partial_function (option) named_loop :: "disk \<Rightarrow> u8 \<Rightarrow> u8 list \<Rightarrow> u32 \<Rightarrow> u8 list \<Rightarrow> (DirEntry option \<times> u8 list) option" where
  "named_loop d part name83 current_parent_cluster_id buffer =
     (if current_parent_cluster_id < 2 then Some (None, buffer)
      else do {
        (_, buffer') \<leftarrow> read_cluster d part current_parent_cluster_id buffer;
        r \<leftarrow> named_entries 128 0 buffer' name83 None;
        (case r of
          Some e \<Rightarrow> Some (Some e, buffer')
        | None \<Rightarrow> do {
            nxt \<leftarrow> get_next_cluster d part current_parent_cluster_id;
            named_loop d part name83 nxt buffer' }) })"

definition place_renamed :: "disk \<Rightarrow> u8 \<Rightarrow> DirEntry \<Rightarrow> u32 \<Rightarrow> u8 list \<Rightarrow> disk option" where
  "place_renamed d part entry des_parent_cluster_id buffer = do {
     (found, last_id, d1) \<leftarrow> place_loop d part entry des_parent_cluster_id des_parent_cluster_id buffer;
     if found then Some d1
     else do {
       blank_block_id \<leftarrow> find_blank_cluster d1 part;
       d2 \<leftarrow> extend_dirent_cluster d1 part last_id blank_block_id;
       map_option snd (write_cluster d2 part blank_block_id (entry_bytes entry @ replicate 4064 0)) } }"

text \<open>The entry of a moved directory for its parent.\<close>

definition set_parent :: "disk \<Rightarrow> u8 \<Rightarrow> u8 list \<Rightarrow> u8 list \<Rightarrow> u32 \<Rightarrow> disk option" where
  "set_parent d part g path_des des_parent_cluster_id = do {
     des_cluster_id \<leftarrow> find_cluster_from_path d part g path_des;
     (_, buf) \<leftarrow> read_cluster d part des_cluster_id g;
     e1 \<leftarrow> get_ent buf 1;
     buf' \<leftarrow> put_ent buf 1 (set_entry_cluster des_parent_cluster_id e1);
     map_option snd (write_cluster d part des_cluster_id buf') }"

text \<open>The function ends without a value; its result is the disk, or -1 for paths that are not absolute.\<close>

definition fat32_rename :: "disk \<Rightarrow> u8 \<Rightarrow> u8 list \<Rightarrow> DirEntry \<Rightarrow> u8 list \<Rightarrow> u8 list \<Rightarrow> bool \<Rightarrow> (u64 + disk) option" where
  "fat32_rename d part g e0 path_src path_des as_dir = do {
     c0 \<leftarrow> nth_opt path_des 0;
     c1 \<leftarrow> nth_opt path_src 0;
     if c0 \<noteq> 47 \<or> c1 \<noteq> 47 then Some (Inl (- 1))
     else do {
       (src_parent, src_name) \<leftarrow> split_path path_src;
       src_cluster \<leftarrow> find_cluster_from_path d part g src_parent;
       src_name83 \<leftarrow> format_name_83 src_name;
       (r, buffer) \<leftarrow> named_loop d part src_name83 src_cluster g;
       (des_parent, des_name) \<leftarrow> split_path path_des;
       des_parent_cluster_id \<leftarrow> find_cluster_from_path d part g des_parent;
       des_name83 \<leftarrow> format_name_83 des_name;
       let entry = (case r of Some e \<Rightarrow> e | None \<Rightarrow> e0)\<lparr>de_name := des_name83\<rparr>;
       d1 \<leftarrow> place_renamed d part entry des_parent_cluster_id buffer;
       if as_dir then do {
         (_, d2) \<leftarrow> fat32_rmdir_entry d1 part g path_src;
         map_option Inr (set_parent d2 part g path_des des_parent_cluster_id) }
       else do { (_, d2) \<leftarrow> fat32_unlink_file_entry d1 part g path_src; Some (Inr d2) } } }"

declare read_loop.simps [simp del] write_loop.simps [simp del] fde_loop.simps [simp del] fcp_loop.simps [simp del]

end
