(* ===== verification/Fat_correct.thy ===== *)
theory Fat_correct
  imports Fat_files
begin

text \<open>
  What the file operations of \<^verbatim>\<open>Fat_files\<close> compute on a volume of the layout of \<^verbatim>\<open>Fat_table\<close>: reading
  and writing along the chain of a file, the two ways to format a name, the bytes of directory
  entries, creation, and that no operation changes the sizes of sectors.
\<close>

section \<open>Chains\<close>

fun chain :: "(u32 \<Rightarrow> u32) \<Rightarrow> u32 \<Rightarrow> u32 list \<Rightarrow> bool" where
  "chain nxt c [] \<longleftrightarrow> \<not> in_chain c"
| "chain nxt c (x # cs) \<longleftrightarrow> x = c \<and> in_chain c \<and> chain nxt (nxt c) cs"

lemma chain_unique: "chain nxt c cs \<Longrightarrow> chain nxt c ds \<Longrightarrow> cs = ds"
proof (induction cs arbitrary: c ds)
  case Nil
  then show ?case by (cases ds) auto
next
  case (Cons x cs)
  then show ?case by (cases ds) auto
qed

lemma chain_suffix: "chain nxt c (cs @ x # ds) \<Longrightarrow> chain nxt x (x # ds)"
  by (induction cs arbitrary: c) auto

lemma chain_distinct: "chain nxt c cs \<Longrightarrow> distinct cs"
proof (induction cs arbitrary: c)
  case (Cons x cs)
  have "x \<notin> set cs"
  proof
    assume "x \<in> set cs"
    then obtain as bs where cs: "cs = as @ x # bs" by (meson split_list)
    have "chain nxt x (x # cs)" using Cons.prems by simp
    moreover from this have "chain nxt x (x # bs)" using chain_suffix [of nxt x "x # as" x bs] by (simp add: cs)
    ultimately have "x # cs = x # bs" by (rule chain_unique)
    then show False by (simp add: cs)
  qed
  with Cons show ?case by auto
qed simp

text \<open>The bytes of a chain.\<close>

definition content :: "cluster_map \<Rightarrow> u32 list \<Rightarrow> u8 list" where
  "content m cs = concat (map (clus m) cs)"

definition chain_on :: "volume \<Rightarrow> disk \<Rightarrow> u32 \<Rightarrow> u32 list \<Rightarrow> bool" where
  "chain_on V d c cs \<longleftrightarrow> vol_inv V d \<and> chain (fat (abs_vol V d)) c cs \<and> (\<forall>x\<in>set cs. valid V x)"

lemma chain_on_Cons:
  "chain_on V d c (x # cs) \<longleftrightarrow> x = c \<and> valid V c \<and> in_chain c \<and> chain_on V d (fat (abs_vol V d) c) cs"
  by (auto simp: chain_on_def)

lemma length_content: "chain_on V d c cs \<Longrightarrow> length (content (abs_vol V d) cs) = 4096 * length cs"
  unfolding content_def by (rule length_concat_const) (auto simp: chain_on_def vol.clus_length)

lemma next_on:
  assumes "chain_on V d c (x # y # cs)"
  shows "get_next_cluster d (v_part V) c = Some y" "chain_on V d y (y # cs)"
proof -
  let ?n = "fat (abs_vol V d) c"
  have c: "vol_inv V d" "valid V c" "in_chain ?n" "?n = y" using assms by (auto simp: chain_on_def)
  have "\<not> FAT32_EOC \<le> ?n" using c(3) by (auto simp: in_chain_def)
  then show "get_next_cluster d (v_part V) c = Some y" using get_next_view [OF c(1,2)] c(4) by simp
  show "chain_on V d y (y # cs)" using assms by (auto simp: chain_on_def)
qed

lemma skip_on:
  assumes "chain_on V d c cs" "k < length cs"
  shows "skip_clusters k d (v_part V) c = Some (Some (cs ! k)) \<and> chain_on V d (cs ! k) (drop k cs)"
  using assms
proof (induction k arbitrary: c cs)
  case 0
  then show ?case by (cases cs) (auto simp: chain_on_Cons)
next
  case (Suc k)
  then obtain x y cs' where cs: "cs = x # y # cs'" by (metis Suc_less_eq length_Cons length_Suc_conv less_Suc_eq_0_disj less_nat_zero_code list.exhaust list.size(3))
  note n = next_on [OF Suc.prems(1) [unfolded cs]]
  have "in_chain y" using n(2) by (simp add: chain_on_Cons)
  then have "\<not> FAT32_EOC \<le> y" by (auto simp: in_chain_def)
  then show ?case using n(1) Suc.IH [OF n(2)] Suc.prems(2) by (simp add: cs)
qed

section \<open>Reading a file\<close>

lemma slice_split:
  assumes "length xs = 4096" "off < 4096"
  shows "slice off n (xs @ ys) = slice off (min (4096 - off) n) xs @ slice 0 (n - min (4096 - off) n) ys"
  using assms by (cases "n \<le> 4096 - off") (auto simp: slice_def min_def)

lemma read_loop_on:
  assumes "chain_on V d c cs" "length tmp = 4096" "off < 4096" "off + sz \<le> 4096 * length cs" "tot + sz \<le> length buf"
  shows "read_loop d (v_part V) c tmp buf tot off sz
    = Some (int (tot + sz), put_slice tot (slice off sz (content (abs_vol V d) cs)) buf)"
  using assms
proof (induction cs arbitrary: c tmp buf tot off sz)
  case Nil
  then show ?case by (simp add: read_loop.simps put_slice_def slice_def)
next
  case (Cons x cs)
  show ?case
  proof (cases "sz = 0")
    case True
    then show ?thesis by (simp add: read_loop.simps put_slice_def slice_def)
  next
    case False
    define k where "k = min (4096 - off) sz"
    let ?m = "abs_vol V d"
    have c: "vol_inv V d" "valid V c" "in_chain c" "x = c" using Cons.prems(1) by (auto simp: chain_on_def)
    have l: "length (clus ?m c) = 4096" using vol.clus_length [OF c(1,2)] .
    have k: "0 < k" "k \<le> sz" "off + k \<le> 4096" using False Cons.prems(3) by (auto simp: k_def)
    define buf' where "buf' = put_slice tot (slice off k (clus ?m c)) buf"
    have lk: "length (slice off k (clus ?m c)) = k" using l k(3) by simp
    have p: "put_all buf tot (slice off k (clus ?m c)) = Some buf'" "length buf' = length buf"
      using lk k(2) Cons.prems(5) by (auto simp: put_all_spec buf'_def)
    have step: "read_loop d (v_part V) c tmp buf tot off sz = (if sz - k > 0 then get_next_cluster d (v_part V) c else Some c)
        \<bind> (\<lambda>c'. read_loop d (v_part V) c' (clus ?m c) buf' (tot + k) 0 (sz - k))"
      using False c(3) Cons.prems(3) vol.load [OF c(1,2) Cons.prems(2)] k(3) l p(1)
      by (subst read_loop.simps) (auto simp: in_chain_def read_bytes_def Let_def simp flip: k_def)
    have split: "slice off sz (content ?m (x # cs)) = slice off k (clus ?m c) @ slice 0 (sz - k) (content ?m cs)"
      using slice_split [OF l Cons.prems(3), of sz "content ?m cs"] c(4) by (simp add: content_def k_def)
    show ?thesis
    proof (cases "sz - k = 0")
      case True
      then show ?thesis unfolding step split using k(2) by (simp add: read_loop.simps buf'_def slice_def)
    next
      case rest: False
      then have k4: "k = 4096 - off" by (auto simp: k_def min_def split: if_splits)
      obtain y cs' where cs: "cs = y # cs'" using rest k4 Cons.prems(3,4) by (cases cs) auto
      note n = next_on [OF Cons.prems(1) [unfolded cs]]
      have lc: "length (content ?m cs) = 4096 * length cs" using length_content n(2) unfolding cs by blast
      have "read_loop d (v_part V) y (clus ?m c) buf' (tot + k) 0 (sz - k)
        = Some (int (tot + k + (sz - k)), put_slice (tot + k) (slice 0 (sz - k) (content ?m cs)) buf')"
        using n(2) l Cons.prems(3,4,5) k4 rest p(2) unfolding cs by (intro Cons.IH [unfolded cs]) auto
      moreover have "put_slice (tot + k) (slice 0 (sz - k) (content ?m cs)) buf' = put_slice tot (slice off sz (content ?m (x # cs))) buf"
        unfolding split buf'_def using put_slice_put_slice [of tot "slice off k (clus ?m c)" "slice 0 (sz - k) (content ?m cs)" buf]
          lk lc Cons.prems(4,5) k4 rest by simp
      ultimately show ?thesis unfolding step using rest n(1) k(2) by simp
    qed
  qed
qed

lemma offset_split: "unat (offset div 4096) = unat offset div 4096" "unat (offset mod 4096) = unat offset mod 4096" for offset :: u64
  by (simp_all add: unat_div unat_mod)

lemma content_drop:
  assumes "chain_on V d c cs" "q \<le> length cs"
  shows "content (abs_vol V d) cs = content (abs_vol V d) (take q cs) @ content (abs_vol V d) (drop q cs)"
    "length (content (abs_vol V d) (take q cs)) = 4096 * q"
proof -
  show "content (abs_vol V d) cs = content (abs_vol V d) (take q cs) @ content (abs_vol V d) (drop q cs)"
    by (simp add: content_def flip: concat_append map_append)
  show "length (content (abs_vol V d) (take q cs)) = 4096 * q"
    unfolding content_def using assms
    by (subst length_concat_const [where n = 4096]) (auto simp: chain_on_def vol.clus_length dest: in_set_takeD)
qed

text \<open>The chain behind the clusters that are skipped, and its bytes.\<close>

lemma skip_content:
  assumes "chain_on V d c cs" "k div 4096 < length cs"
  shows "slice (k mod 4096) n (content (abs_vol V d) (drop (k div 4096) cs)) = slice k n (content (abs_vol V d) cs)"
proof -
  let ?m = "abs_vol V d" and ?q = "k div 4096"
  have "slice (length xs + j) n (xs @ ys) = slice j n ys" for xs ys :: "u8 list" and j by (simp add: slice_def)
  from this [of "content ?m (take ?q cs)" "k mod 4096" "content ?m (drop ?q cs)"] show ?thesis
    using content_drop [OF assms(1), of ?q] assms(2) by simp
qed

text \<open>
  C13.  Reading a file.  When the path leads to a chain of clusters that is long enough for the size of the file, reading
  returns the number of bytes asked for, less what is behind the end of the file, and the buffer
  begins with exactly these bytes of the chain; nothing else of it changes.
\<close>

theorem file_read:
  assumes "chain_on V d c cs" "length g = 4096" "find_cluster_from_path d (v_part V) g path = Some c"
    and "get_file_size d (v_part V) e0 path = Some fsz" "unat fsz \<le> 4096 * length cs"
    and "offset < fsz" "unat offset + unat sz < 2 ^ 64" "n = min (unat sz) (unat fsz - unat offset)" "n \<le> length buf"
  shows "fat32_read_file_bytes d (v_part V) g e0 path buf offset sz
    = Some (int n, put_slice 0 (slice (unat offset) n (content (abs_vol V d) cs)) buf)"
proof -
  have o: "unat offset < unat fsz" using assms(6) by (simp add: word_less_nat_alt)
  then have q: "unat offset div 4096 < length cs" using assms(5) by (simp add: less_mult_imp_div_less mult.commute)
  then have "cs \<noteq> []" by auto
  then have "c \<noteq> 0" using assms(1) by (cases cs) (auto simp: chain_on_Cons)
  have s: "unat (if fsz < offset + sz then fsz - offset else sz) = n"
  proof -
    have "unat (offset + sz) = unat offset + unat sz" using assms(7) by (simp add: unat_word_ariths)
    moreover have "unat (fsz - offset) = unat fsz - unat offset" using o by (simp add: unat_sub_if')
    ultimately show ?thesis using o assms(8) by (auto simp: word_less_nat_alt)
  qed
  note k = skip_on [OF assms(1) q]
  have "read_loop d (v_part V) (cs ! (unat offset div 4096)) g buf 0 (unat offset mod 4096) n
    = Some (int (0 + n), put_slice 0 (slice (unat offset mod 4096) n (content (abs_vol V d) (drop (unat offset div 4096) cs))) buf)"
  proof (rule read_loop_on [OF conjunct2 [OF k] assms(2)])
    have "unat offset + n \<le> 4096 * length cs" using assms(5,8) o by linarith
    then show "unat offset mod 4096 + n \<le> 4096 * length (drop (unat offset div 4096) cs)"
      unfolding length_drop diff_mult_distrib2 using mult_div_mod_eq [of 4096 "unat offset"] by linarith
  qed (use assms(9) in simp_all)
  moreover have "\<not> fsz \<le> offset" using assms(6) by simp
  ultimately show ?thesis using assms(3,4) \<open>c \<noteq> 0\<close> k s
    by (simp add: fat32_read_file_bytes_def offset_split skip_content [OF assms(1) q] Let_def)
qed

section \<open>Writing a file\<close>

lemma put_slice_split:
  assumes "length xs = 4096" "off + length as \<le> 4096" "off + length as = 4096 \<or> bs = []"
  shows "put_slice off (as @ bs) (xs @ ys) = put_slice off as xs @ put_slice 0 bs ys"
proof -
  have "bs \<noteq> [] \<Longrightarrow> off + (length as + length bs) - 4096 = length bs" using assms(3) by auto
  then show ?thesis using assms by (cases "bs = []") (auto simp: put_slice_def)
qed

lemma slice_append: "k \<le> n \<Longrightarrow> slice off n xs = slice off k xs @ slice (off + k) (n - k) xs"
  by (simp add: slice_def add.commute flip: take_add drop_drop)

lemma chain_on_clus:
  assumes "chain_on V d c cs" "vol_inv V d'" "fat (abs_vol V d') = fat (abs_vol V d)"
  shows "chain_on V d' c cs"
  using assms by (simp add: chain_on_def)

lemma content_other: "(\<And>x. x \<in> set cs \<Longrightarrow> clus m' x = clus m x) \<Longrightarrow> content m' cs = content m cs"
  by (simp add: content_def cong: map_cong)

lemma write_step:
  assumes c: "chain_on V d c (x # cs)" and k: "off + k \<le> 4096" "tot + k \<le> length buf" "0 < k"
  obtains d1 where "write_cluster d (v_part V) c (put_slice off (slice tot k buf) (clus (abs_vol V d) c)) = Some (0, d1)" "vol_inv V d1"
    "fat (abs_vol V d1) = fat (abs_vol V d)" "\<And>y. y \<noteq> c \<Longrightarrow> clus (abs_vol V d1) y = clus (abs_vol V d) y"
    "clus (abs_vol V d1) c = put_slice off (slice tot k buf) (clus (abs_vol V d) c)"
proof -
  have v: "vol_inv V d" "valid V c" using c by (auto simp: chain_on_def)
  have "length (put_slice off (slice tot k buf) (clus (abs_vol V d) c)) = 4096"
    using vol.clus_length [OF v] k by simp
  from vol.save [OF v this] that show ?thesis by auto
qed

lemma write_loop_on:
  assumes "chain_on V d c cs" "off < 4096" "off + sz \<le> 4096 * length cs" "tot + sz \<le> length buf"
  shows "\<exists>d'. write_loop d (v_part V) c buf tot off sz = Some (Inr (tot + sz), d') \<and> vol_inv V d' \<and> fat (abs_vol V d') = fat (abs_vol V d)
    \<and> content (abs_vol V d') cs = put_slice off (slice tot sz buf) (content (abs_vol V d) cs)
    \<and> (\<forall>x. x \<notin> set cs \<longrightarrow> clus (abs_vol V d') x = clus (abs_vol V d) x)"
  using assms
proof (induction cs arbitrary: d c tot off sz)
  case Nil
  then show ?case by (auto simp: write_loop.simps put_slice_def slice_def chain_on_def)
next
  case (Cons x cs)
  have c: "vol_inv V d" "valid V c" "in_chain c" "x = c" "c \<notin> set cs"
    using Cons.prems(1) chain_distinct [of "fat (abs_vol V d)" c "x # cs"] by (auto simp: chain_on_def)
  show ?case
  proof (cases "sz = 0")
    case True
    then show ?thesis using c(1) by (auto simp: write_loop.simps put_slice_def slice_def)
  next
    case False
    define k where "k = min (4096 - off) sz"
    have k: "0 < k" "k \<le> sz" "off + k \<le> 4096" "tot + k \<le> length buf" using False Cons.prems(2,4) by (auto simp: k_def)
    obtain d1 where d1: "write_cluster d (v_part V) c (put_slice off (slice tot k buf) (clus (abs_vol V d) c)) = Some (0, d1)" "vol_inv V d1"
      "fat (abs_vol V d1) = fat (abs_vol V d)" "\<And>y. y \<noteq> c \<Longrightarrow> clus (abs_vol V d1) y = clus (abs_vol V d) y"
      "clus (abs_vol V d1) c = put_slice off (slice tot k buf) (clus (abs_vol V d) c)"
      using write_step [OF Cons.prems(1) k(3,4,1)] by metis
    have l: "length (clus (abs_vol V d) c) = 4096" using vol.clus_length [OF c(1,2)] .
    have "write_one d (v_part V) c buf tot off k = Some (0, d1)"
      using vol.load [OF c(1,2), of "replicate 4096 0"] k l d1(1) by (simp add: write_one_def read_bytes_def put_all_spec)
    then have step: "write_loop d (v_part V) c buf tot off sz = (if sz - k = 0 then Some (Inr (tot + k), d1) else do {
        (nxt, d2) \<leftarrow> next_or_expand d1 (v_part V) c;
        (case nxt of None \<Rightarrow> Some (Inl (- 7), d2) | Some c' \<Rightarrow> write_loop d2 (v_part V) c' buf (tot + k) 0 (sz - k)) })"
      using False c(3) Cons.prems(2) by (subst write_loop.simps) (auto simp: in_chain_def Let_def simp flip: k_def)
    have other: "content (abs_vol V d1) cs = content (abs_vol V d) cs" using d1(4) c(5) by (intro content_other) metis
    have sl: "slice tot sz buf = slice tot k buf @ slice (tot + k) (sz - k) buf" by (rule slice_append [OF k(2)])
    have lk: "length (slice tot k buf) = k" using k(4) by simp
    show ?thesis
    proof (cases "sz - k = 0")
      case True
      then have "content (abs_vol V d1) (x # cs) = put_slice off (slice tot sz buf) (content (abs_vol V d) (x # cs))"
        using other d1(5) c(4) l lk k put_slice_split [OF l, of off "slice tot k buf" "[]" "content (abs_vol V d) cs"]
        by (simp add: content_def sl) (simp add: slice_def put_slice_def)
      then show ?thesis unfolding step using True k(2) d1 c(4) by auto
    next
      case rest: False
      then have k4: "off + k = 4096" using Cons.prems(2) by (auto simp: k_def min_def split: if_splits)
      obtain y cs' where cs: "cs = y # cs'" using rest k4 Cons.prems(3) by (cases cs) auto
      note n = next_on [OF chain_on_clus [OF Cons.prems(1) d1(2,3), unfolded cs]]
      have sz: "0 + (sz - k) \<le> 4096 * length cs" using Cons.prems(3) k4 by auto
      have "\<not> FAT32_EOC \<le> y" using n(2) by (auto simp: chain_on_Cons in_chain_def)
      then have y: "next_or_expand d1 (v_part V) c = Some (Some y, d1)" using n(1) by (simp add: next_or_expand_def)
      obtain d' where d': "write_loop d1 (v_part V) y buf (tot + k) 0 (sz - k) = Some (Inr (tot + k + (sz - k)), d')" "vol_inv V d'"
        "fat (abs_vol V d') = fat (abs_vol V d1)" "content (abs_vol V d') cs = put_slice 0 (slice (tot + k) (sz - k) buf) (content (abs_vol V d1) cs)"
        "\<forall>x. x \<notin> set cs \<longrightarrow> clus (abs_vol V d') x = clus (abs_vol V d1) x"
        using Cons.IH [OF n(2) [folded cs], of 0 "sz - k" "tot + k"] sz Cons.prems(4) k(2) by auto
      have "clus (abs_vol V d') c = put_slice off (slice tot k buf) (clus (abs_vol V d) c)" using d'(5) d1(5) c(5) by simp
      then have "content (abs_vol V d') (x # cs) = put_slice off (slice tot sz buf) (content (abs_vol V d) (x # cs))"
        using other d'(4) c(4) l lk k4 put_slice_split [OF l, of off "slice tot k buf" "slice (tot + k) (sz - k) buf" "content (abs_vol V d) cs"]
        by (simp add: content_def sl)
      then show ?thesis unfolding step using rest k(2) d' d1(3,4) y c(4) by auto
    qed
  qed
qed

lemma put_slice_behind: "put_slice (length xs + j) bs (xs @ ys) = xs @ put_slice j bs ys"
  by (simp add: put_slice_def)

lemma content_put_drop:
  assumes c: "chain_on V d c cs" and q: "k div 4096 < length cs"
    and e: "content m' (drop (k div 4096) cs) = put_slice (k mod 4096) bs (content (abs_vol V d) (drop (k div 4096) cs))"
    and o: "\<And>x. x \<in> set (take (k div 4096) cs) \<Longrightarrow> clus m' x = clus (abs_vol V d) x"
  shows "content m' cs = put_slice k bs (content (abs_vol V d) cs)"
proof -
  let ?q = "k div 4096" and ?m = "abs_vol V d"
  have "content m' cs = content m' (take ?q cs) @ content m' (drop ?q cs)" by (simp add: content_def flip: concat_append map_append)
  also have "content m' (take ?q cs) = content ?m (take ?q cs)" using o by (rule content_other)
  also note e
  also have "content ?m (take ?q cs) @ put_slice (k mod 4096) bs (content ?m (drop ?q cs)) = put_slice (length (content ?m (take ?q cs)) + k mod 4096) bs (content ?m (take ?q cs) @ content ?m (drop ?q cs))"
    by (rule put_slice_behind [symmetric])
  also have "length (content ?m (take ?q cs)) + k mod 4096 = k" using content_drop(2) [OF c, of ?q] q by simp
  also have "content ?m (take ?q cs) @ content ?m (drop ?q cs) = content ?m cs" using content_drop(1) [OF c, of ?q] q by simp
  finally show ?thesis .
qed

text \<open>
  C12.  Writing inside a file.  When the path leads to a chain of clusters that is long enough for the size of
  the file and the bytes to write end inside the file, writing returns 0 and replaces exactly these bytes of
  the chain.  No entry of the table and no cluster outside the chain changes.
\<close>

theorem file_written:
  assumes "chain_on V d c cs" "find_cluster_from_path d (v_part V) g path = Some c"
    and "get_file_size d (v_part V) e0 path = Some fsz" "unat fsz \<le> 4096 * length cs"
    and "0 < sz" "unat offset + unat sz \<le> unat fsz" "unat sz \<le> length buf"
  shows "\<exists>d'. fat32_write_file_bytes d (v_part V) g e0 path buf offset sz = Some (0, d') \<and> vol_inv V d'
    \<and> content (abs_vol V d') cs = put_slice (unat offset) (take (unat sz) buf) (content (abs_vol V d) cs)
    \<and> fat (abs_vol V d') = fat (abs_vol V d) \<and> (\<forall>x. x \<notin> set cs \<longrightarrow> clus (abs_vol V d') x = clus (abs_vol V d) x)"
proof -
  let ?q = "unat offset div 4096"
  have o: "unat offset < unat fsz" using assms(5,6) by (simp add: word_less_nat_alt)
  then have q: "?q < length cs" using assms(4) by (simp add: less_mult_imp_div_less mult.commute)
  then have "c \<noteq> 0" using assms(1) by (cases cs) (auto simp: chain_on_Cons)
  note k = skip_on [OF assms(1) q]
  have "unat offset mod 4096 + unat sz \<le> 4096 * length (drop ?q cs)"
    unfolding length_drop diff_mult_distrib2 using assms(4,6) mult_div_mod_eq [of 4096 "unat offset"] by linarith
  then obtain d' where d': "write_loop d (v_part V) (cs ! ?q) buf 0 (unat offset mod 4096) (unat sz) = Some (Inr (unat sz), d')" "vol_inv V d'"
    "fat (abs_vol V d') = fat (abs_vol V d)"
    "content (abs_vol V d') (drop ?q cs) = put_slice (unat offset mod 4096) (slice 0 (unat sz) buf) (content (abs_vol V d) (drop ?q cs))"
    "\<forall>x. x \<notin> set (drop ?q cs) \<longrightarrow> clus (abs_vol V d') x = clus (abs_vol V d) x"
    using write_loop_on [OF conjunct2 [OF k], of "unat offset mod 4096" "unat sz" 0 buf] assms(7) by auto
  have "distinct (take ?q cs @ drop ?q cs)" using assms(1) by (auto simp: chain_on_def intro: chain_distinct)
  then have "x \<notin> set (drop ?q cs)" if "x \<in> set (take ?q cs)" for x using that by (auto simp only: distinct_append)
  then have cont: "content (abs_vol V d') cs = put_slice (unat offset) (take (unat sz) buf) (content (abs_vol V d) cs)"
    using d'(4,5) content_put_drop [OF assms(1) q, of "abs_vol V d'" "slice 0 (unat sz) buf"] by (simp add: slice_def)
  have "unat (offset + sz) = unat offset + unat sz" using assms(6) unat_bound [of fsz] by (simp add: unat_word_ariths)
  then have "\<not> fsz < offset + of_nat (unat sz)" "\<not> fsz < offset" using assms(6) by (simp_all add: word_less_nat_alt)
  then have "fat32_write_file_bytes d (v_part V) g e0 path buf offset sz = Some (0, d')"
    using assms(2,3) \<open>c \<noteq> 0\<close> k d'(1) by (simp add: fat32_write_file_bytes_def offset_split)
  then show ?thesis using d'(2,3,5) cont by (auto dest: in_set_dropD)
qed

section \<open>Directory entries as bytes\<close>

lemma length_entry_bytes: "length (de_name e) = 11 \<Longrightarrow> length (entry_bytes e) = 32"
  by (simp add: entry_bytes_def)

lemma read16_at: "i = length xs \<Longrightarrow> read16 (xs @ le16 w @ ys) i = Some w"
  by (subst read16_drop) simp

lemma read32_at: "i = length xs \<Longrightarrow> read32 (xs @ le32 w @ ys) i = Some w"
  by (subst read32_drop) simp

lemma entry_of_bytes:
  assumes "length (de_name e) = 11"
  shows "entry_of (entry_bytes e) = Some e"
proof -
  let ?a = "[de_attr e, nt_reserved e, creation_time_tenths e]"
  have r: "read16 (entry_bytes e) 14 = Some (creation_time e)" "read16 (entry_bytes e) 16 = Some (creation_date e)"
    "read16 (entry_bytes e) 18 = Some (last_access_date e)" "read16 (entry_bytes e) 20 = Some (first_cluster_hi e)"
    "read16 (entry_bytes e) 22 = Some (write_time e)" "read16 (entry_bytes e) 24 = Some (write_date e)"
    "read16 (entry_bytes e) 26 = Some (first_cluster_lo e)" "read32 (entry_bytes e) 28 = Some (file_size e)"
    using assms
      read16_at [of 14 "de_name e @ ?a" "creation_time e"]
      read16_at [of 16 "de_name e @ ?a @ le16 (creation_time e)" "creation_date e"]
      read16_at [of 18 "de_name e @ ?a @ le16 (creation_time e) @ le16 (creation_date e)" "last_access_date e"]
      read16_at [of 20 "de_name e @ ?a @ le16 (creation_time e) @ le16 (creation_date e) @ le16 (last_access_date e)" "first_cluster_hi e"]
      read16_at [of 22 "de_name e @ ?a @ le16 (creation_time e) @ le16 (creation_date e) @ le16 (last_access_date e) @ le16 (first_cluster_hi e)" "write_time e"]
      read16_at [of 24 "de_name e @ ?a @ le16 (creation_time e) @ le16 (creation_date e) @ le16 (last_access_date e) @ le16 (first_cluster_hi e) @ le16 (write_time e)" "write_date e"]
      read16_at [of 26 "de_name e @ ?a @ le16 (creation_time e) @ le16 (creation_date e) @ le16 (last_access_date e) @ le16 (first_cluster_hi e) @ le16 (write_time e) @ le16 (write_date e)" "first_cluster_lo e"]
      read32_at [of 28 "de_name e @ ?a @ le16 (creation_time e) @ le16 (creation_date e) @ le16 (last_access_date e) @ le16 (first_cluster_hi e) @ le16 (write_time e) @ le16 (write_date e) @ le16 (first_cluster_lo e)" "file_size e" "[]"]
    by (simp_all add: entry_bytes_def)
  have b: "read_bytes (entry_bytes e) 0 11 = Some (de_name e)" "nth_opt (entry_bytes e) 11 = Some (de_attr e)"
    "nth_opt (entry_bytes e) 12 = Some (nt_reserved e)" "nth_opt (entry_bytes e) 13 = Some (creation_time_tenths e)"
    using assms by (simp_all add: entry_bytes_def read_bytes_def slice_def nth_opt_def nth_append)
  show ?thesis by (simp add: entry_of_def r b)
qed

lemma get_ent_same: "slice (32 * i) 32 buf = entry_bytes e \<Longrightarrow> length (de_name e) = 11 \<Longrightarrow> get_ent buf i = Some e"
  using length_entry_bytes [of e] by (auto simp: get_ent_def read_bytes_def entry_of_bytes dest!: arg_cong [where f = length])

lemma entry_put:
  assumes "put_ent buf i e = Some buf'" "length (de_name e) = 11"
  shows "get_ent buf' i = Some e" "\<And>j. j \<noteq> i \<Longrightarrow> get_ent buf' j = get_ent buf j" "length buf' = length buf"
proof -
  have l: "length (entry_bytes e) = 32" by (rule length_entry_bytes [OF assms(2)])
  then have b: "32 * i + 32 \<le> length buf" "buf' = put_slice (32 * i) (entry_bytes e) buf"
    using assms(1) by (auto simp: put_ent_def put_all_spec split: if_splits)
  have lb: "length buf' = length buf" using b l by simp
  have "slice (32 * i) 32 buf' = entry_bytes e" using slice_put_slice_same [of "32 * i" "entry_bytes e" buf] b l by simp
  moreover have "get_ent buf' j = get_ent buf j" if "j \<noteq> i" for j
  proof (cases "32 * j + 32 \<le> length buf")
    case True
    have "32 * j + 32 \<le> 32 * i \<or> 32 * i + 32 \<le> 32 * j" using that by linarith
    then have "slice (32 * j) 32 buf' = slice (32 * j) 32 buf" using b l True by (simp add: slice_put_slice_other)
    then show ?thesis by (simp add: get_ent_def read_bytes_def lb)
  next
    case False
    then show ?thesis by (simp add: get_ent_def read_bytes_def lb)
  qed
  ultimately show "get_ent buf' i = Some e" "\<And>j. j \<noteq> i \<Longrightarrow> get_ent buf' j = get_ent buf j" "length buf' = length buf"
    using get_ent_same [OF _ assms(2)] lb by blast+
qed

text \<open>
  An entry that is written to a buffer is read back from its place, and the entries at all other
  places stay as they are.
\<close>

theorem entry_written_read:
  assumes "put_ent buf i e = Some buf'" "length (de_name e) = 11"
  shows "get_ent buf' i = Some e \<and> (\<forall>j. j \<noteq> i \<longrightarrow> get_ent buf' j = get_ent buf j) \<and> length buf' = length buf"
  using entry_put [OF assms] by blast

theorem entry_written_read_witness:
  "put_ent (replicate 64 0) 1 zero_entry = Some (replicate 64 0) \<and> get_ent (replicate 64 0) 1 = Some zero_entry"
proof -
  have "put_ent (replicate 64 0) 1 zero_entry = Some (replicate 64 0)" by code_simp
  with entry_written_read [OF this] show ?thesis by (simp add: zero_entry_def)
qed

section \<open>Names in 8.3 form\<close>

text \<open>The length of the part of a name in front of the first dot or the end.\<close>

definition base_len :: "u8 list \<Rightarrow> nat" where
  "base_len src = length (takeWhile (\<lambda>c. c \<noteq> 0 \<and> c \<noteq> 46) src)"

lemma strchr_dot:
  "strchr src 46 i = (if base_len src < length src then Some (if src ! base_len src = 46 then Some (i + base_len src) else None) else None)"
  by (induction src "46 :: u8" i rule: strchr.induct) (auto simp: base_len_def)

lemma base_len_before: "j < base_len src \<Longrightarrow> src ! j \<noteq> 0 \<and> src ! j \<noteq> 46"
  using nth_mem [of j "takeWhile (\<lambda>c. c \<noteq> 0 \<and> c \<noteq> 46) src"] set_takeWhileD takeWhile_nth [of j "\<lambda>c. c \<noteq> 0 \<and> c \<noteq> 46" src]
  by (fastforce simp: base_len_def)

lemma base_len_at: "base_len src < length src \<Longrightarrow> src ! base_len src = 0 \<or> src ! base_len src = 46"
  using nth_length_takeWhile [of "\<lambda>c. c \<noteq> 0 \<and> c \<noteq> 46" src] by (auto simp: base_len_def)

lemma base_loops_agree:
  assumes "base_len src < length src" "i \<le> base_len src" "dot = (if src ! base_len src = 46 then Some (base_len src) else None)"
  shows "\<exists>f. name_base n src i fmt = Some (min (i + n) (base_len src), f) \<and> base_83 n src dot i fmt = Some f"
  using assms(2)
proof (induction n arbitrary: i fmt)
  case 0
  then show ?case by simp
next
  case (Suc n)
  show ?case
  proof (cases "i = base_len src")
    case True
    then show ?thesis using assms(1,3) base_len_at [OF assms(1)] by (auto simp: nth_opt_def)
  next
    case False
    then have "i < base_len src" using Suc.prems by simp
    then show ?thesis using assms(1,3) base_len_before [of i src] Suc.IH [of "Suc i" "fmt[i := toupper (src ! i)]"]
      by (auto simp: nth_opt_def)
  qed
qed

text \<open>
  C34.  The two ways to bring a name into 8.3 form agree on names whose part in front of the
  dot has at most eight characters: the test of a directory entry against a name compares it with the
  formatted name.
\<close>

theorem name_formats_agree:
  assumes "base_len src \<le> 8" "base_len src < length src" "format_name_83 src = Some f" "length name = 11"
  shows "match_name src name = Some (name = f)"
proof -
  let ?q = "base_len src"
  let ?dot = "if src ! ?q = 46 then Some ?q else None"
  obtain b where b: "name_base 8 src 0 (replicate 11 32) = Some (?q, b)" "base_83 8 src ?dot 0 (replicate 11 32) = Some b"
    using base_loops_agree [OF assms(2) _ refl, of 0 8] assms(1) by (auto simp: min_def)
  have f: "(if src ! ?q = 46 then name_ext 3 src 8 (Suc ?q) b else Some b) = Some f"
    using assms(3) b(2) assms(2) by (auto simp: format_name_83_def strchr_dot split: if_splits)
  have "match_name src name = (if src ! ?q = 46 then name_ext 3 src 8 (Suc ?q) b else Some b) \<bind> (\<lambda>f'. Some (name = f'))"
    using assms(2,4) by (simp add: match_name_def b(1) nth_opt_def)
  then show ?thesis by (simp add: f)
qed

theorem name_formats_agree_witness:
  "match_name [97, 46, 116, 0] [65, 32, 32, 32, 32, 32, 32, 32, 84, 32, 32] = Some True"
proof -
  have f: "format_name_83 [97, 46, 116, 0] = Some [65, 32, 32, 32, 32, 32, 32, 32, 84, 32, 32]" by code_simp
  have q: "base_len [97, 46, 116, 0] = 1" by code_simp
  show ?thesis using name_formats_agree [OF _ _ f, of "[65, 32, 32, 32, 32, 32, 32, 32, 84, 32, 32]"] by (simp add: q)
qed

text \<open>On longer names they differ: only one of them keeps the extension.\<close>

lemma long_names_differ:
  "match_name [97, 97, 97, 97, 97, 97, 97, 97, 97, 46, 116, 0] [65, 65, 65, 65, 65, 65, 65, 65, 32, 32, 32] = Some True"
  "format_name_83 [97, 97, 97, 97, 97, 97, 97, 97, 97, 46, 116, 0] = Some [65, 65, 65, 65, 65, 65, 65, 65, 84, 32, 32]"
  by code_simp+

section \<open>Sectors keep their size\<close>

text \<open>
  All sectors of a disk have 512 bytes.  An operation keeps the disk when this stays true and no sector
  is added or lost.
\<close>

definition disk_wf :: "disk \<Rightarrow> bool" where
  "disk_wf d \<longleftrightarrow> (\<forall>s buf. d_data d s = Some buf \<longrightarrow> length buf = 512)"

definition disk_kept :: "disk \<Rightarrow> disk \<Rightarrow> bool" where
  "disk_kept d d' \<longleftrightarrow> disk_wf d' \<and> dom (d_data d') = dom (d_data d) \<and> d_fails d' = d_fails d"

lemma kept_refl: "disk_wf d \<Longrightarrow> disk_kept d d"
  by (simp add: disk_kept_def)

lemma kept_trans: "disk_kept d d1 \<Longrightarrow> (disk_wf d1 \<Longrightarrow> disk_kept d1 d2) \<Longrightarrow> disk_kept d d2"
  by (auto simp: disk_kept_def)

lemma kept_wf: "disk_kept d d' \<Longrightarrow> disk_wf d'"
  by (simp add: disk_kept_def)

lemma read_sector_wf: "disk_wf d \<Longrightarrow> read_sector d lba = Some buf \<Longrightarrow> length buf = 512"
  by (simp add: disk_wf_def read_sector_def)

lemma put_all_length: "put_all buf i xs = Some buf' \<Longrightarrow> length buf' = length buf"
  by (auto simp: put_all_spec put_slice_def split: if_splits)

lemma write_sector_kept: "disk_wf d \<Longrightarrow> length buf = 512 \<Longrightarrow> disk_kept d (snd (write_sector d lba buf))"
  by (auto simp: disk_kept_def disk_wf_def write_sector_def Let_def)

lemma write_mirrors_kept: "disk_wf d \<Longrightarrow> length buf = 512 \<Longrightarrow> disk_kept d (write_mirrors k i d sector fsz buf)"
  by (induction k arbitrary: i d) (auto intro: kept_refl kept_trans [OF write_sector_kept])

lemma write_sectors_kept: "disk_wf d \<Longrightarrow> write_sectors k i d first buf = Some (r, d') \<Longrightarrow> disk_kept d d'"
proof (induction k arbitrary: i d)
  case (Suc k)
  let ?s = "slice (i * 512) 512 buf"
  let ?d = "snd (write_sector d (first + of_nat i) ?s)"
  have s: "length ?s = 512" "d' = ?d \<or> write_sectors k (Suc i) ?d first buf = Some (r, d')"
    using Suc.prems(2) by (auto simp: bind_eq_Some_conv read_bytes_def split_beta Let_def split: if_splits)
  note k = write_sector_kept [OF Suc.prems(1) s(1), of "first + of_nat i"]
  show ?case using s(2) k kept_trans [OF k] Suc.IH by blast
qed (auto intro: kept_refl)

lemma write_cluster_kept: "disk_wf d \<Longrightarrow> write_cluster d part c buf = Some (r, d') \<Longrightarrow> disk_kept d d'"
  by (auto simp: write_cluster_def bind_eq_Some_conv intro: kept_refl write_sectors_kept split: if_splits)

lemma mirrored_kept:
  "disk_wf d \<Longrightarrow> length b1 = 512 \<Longrightarrow> length b2 = 512 \<Longrightarrow> disk_kept d (write_mirrors k i (snd (write_sector d s b1)) s' fsz b2)"
  by (rule kept_trans [OF write_sector_kept write_mirrors_kept])

lemma set_entry_kept: "disk_wf d \<Longrightarrow> fat32_set_fat_entry d part c w = Some d' \<Longrightarrow> disk_kept d d'"
  by (auto simp: fat32_set_fat_entry_def bind_eq_Some_conv dest!: put_all_length dest: read_sector_wf
      intro!: mirrored_kept)

lemma fat_set_entry_kept: "disk_wf d \<Longrightarrow> fat_set_entry d part c w = Some d' \<Longrightarrow> disk_kept d d'"
  by (auto simp: fat_set_entry_def Let_def bind_eq_Some_conv dest!: put_all_length dest: read_sector_wf
      intro!: mirrored_kept)

lemma put_fat_word_kept: "disk_wf d \<Longrightarrow> put_fat_word d fs eps c w = Some d' \<Longrightarrow> disk_kept d d'"
  by (auto simp: put_fat_word_def bind_eq_Some_conv dest!: put_all_length dest: read_sector_wf intro!: write_sector_kept split: if_splits)

lemmas disk_ops_kept = write_cluster_kept set_entry_kept fat_set_entry_kept put_fat_word_kept

lemma extend_kept: "disk_wf d \<Longrightarrow> extend_dirent_cluster d part l b = Some d' \<Longrightarrow> disk_kept d d'"
  by (auto simp: extend_dirent_cluster_def bind_eq_Some_conv Let_def) (meson kept_trans kept_wf disk_ops_kept)

lemma expand_kept: "disk_wf d \<Longrightarrow> expand_file d part c = Some (x, d') \<Longrightarrow> disk_kept d d'"
  by (auto simp: expand_file_def bind_eq_Some_conv intro: kept_refl split: if_splits) (meson kept_trans kept_wf disk_ops_kept)

lemma free_chain_kept: "free_chain d part c = Some d' \<Longrightarrow> disk_wf d \<Longrightarrow> disk_kept d d'"
  by (induction rule: free_chain.raw_induct [rotated, consumes 1])
    (auto simp: bind_eq_Some_conv intro: kept_refl kept_trans [OF set_entry_kept] split: if_splits)

lemma change_loop_kept: "change_loop d part attr name83 f c buf = Some (r, d') \<Longrightarrow> disk_wf d \<Longrightarrow> disk_kept d d'"
  by (induction "(r, d')" arbitrary: r d' rule: change_loop.raw_induct [rotated, consumes 1])
    (auto intro: kept_refl write_cluster_kept split: Option.bind_split_asm if_split_asm scan.split_asm)

lemma place_loop_kept: "place_loop d part e c l buf = Some (r, l', d') \<Longrightarrow> disk_wf d \<Longrightarrow> disk_kept d d'"
  by (induction "(r, l', d')" arbitrary: r l' d' rule: place_loop.raw_induct [rotated, consumes 1])
    (auto intro: kept_refl write_cluster_kept split: Option.bind_split_asm if_split_asm scan.split_asm)

lemma change_stat_kept: "change_stat_entry d part g attr f stat = Some (r, d') \<Longrightarrow> disk_wf d \<Longrightarrow> disk_kept d d'"
  by (auto simp: change_stat_entry_def bind_eq_Some_conv intro: change_loop_kept)

lemma set_file_kept:
  "set_file_first_cluster d part g path c = Some d' \<Longrightarrow> disk_wf d \<Longrightarrow> disk_kept d d'"
  "set_file_size d part g path n = Some d' \<Longrightarrow> disk_wf d \<Longrightarrow> disk_kept d d'"
  by (auto simp: set_file_first_cluster_def set_file_size_def bind_eq_Some_conv intro: kept_refl change_stat_kept split: if_split_asm)

lemma write_one_kept: "write_one d part c buf tot off k = Some (r, d') \<Longrightarrow> disk_wf d \<Longrightarrow> disk_kept d d'"
  by (auto simp: write_one_def bind_eq_Some_conv intro: kept_refl write_cluster_kept split: if_split_asm)

lemma next_or_expand_kept: "next_or_expand d part c = Some (r, d') \<Longrightarrow> disk_wf d \<Longrightarrow> disk_kept d d'"
  by (auto simp: next_or_expand_def bind_eq_Some_conv intro: kept_refl expand_kept split: if_split_asm)

lemma write_loop_kept: "write_loop d part c buf tot off sz = Some (r, d') \<Longrightarrow> disk_wf d \<Longrightarrow> disk_kept d d'"
proof (induction sz arbitrary: d c tot off rule: less_induct)
  case (less sz)
  define k where "k = min (4096 - off) sz"
  show ?case
  proof (cases "sz = 0 \<or> c \<ge> FAT32_EOC \<or> off \<ge> 4096")
    case True
    then show ?thesis using less.prems by (subst (asm) write_loop.simps) (auto intro: kept_refl split: if_split_asm)
  next
    case False
    then obtain code d1 where d1: "write_one d part c buf tot off k = Some (code, d1)"
      using less.prems(1) by (subst (asm) write_loop.simps) (auto simp: bind_eq_Some_conv Let_def k_def)
    note kept1 = write_one_kept [OF d1 less.prems(2)]
    show ?thesis
    proof (cases "code \<noteq> 0 \<or> sz - k = 0")
      case True
      then have "d' = d1" using less.prems(1) False d1 by (subst (asm) write_loop.simps) (auto simp: Let_def simp flip: k_def split: if_split_asm)
      then show ?thesis using kept1 by simp
    next
      case go: False
      then obtain nxt d2 where d2: "next_or_expand d1 part c = Some (nxt, d2)"
        "(case nxt of None \<Rightarrow> Some (Inl (- 7), d2) | Some c' \<Rightarrow> write_loop d2 part c' buf (tot + k) 0 (sz - k)) = Some (r, d')"
        using less.prems(1) False d1 by (subst (asm) write_loop.simps) (auto simp: bind_eq_Some_conv Let_def simp flip: k_def)
      have "sz - k < sz" using False by (auto simp: k_def)
      then have "disk_wf d2 \<Longrightarrow> disk_kept d2 d'" using d2(2) less.IH by (auto intro: kept_refl split: option.split_asm)
      then show ?thesis using kept1 next_or_expand_kept [OF d2(1)] kept_wf kept_trans by meson
    qed
  qed
qed

lemma fat32_truncate_file_kept: "fat32_truncate_file d part g path = Some (r, d') \<Longrightarrow> disk_wf d \<Longrightarrow> disk_kept d d'"
  by (auto simp: fat32_truncate_file_def split: Option.bind_split_asm sum.split_asm if_split_asm)
    (meson kept_refl kept_trans kept_wf change_stat_kept free_chain_kept)+

lemma fat32_unlink_file_kept: "fat32_unlink_file d part g path = Some (r, d') \<Longrightarrow> disk_wf d \<Longrightarrow> disk_kept d d'"
  by (auto simp: fat32_unlink_file_def split: Option.bind_split_asm sum.split_asm if_split_asm)
    (meson kept_refl kept_trans kept_wf change_stat_kept free_chain_kept)+

lemma fat32_unlink_file_entry_kept: "fat32_unlink_file_entry d part g path = Some (r, d') \<Longrightarrow> disk_wf d \<Longrightarrow> disk_kept d d'"
  by (auto simp: fat32_unlink_file_entry_def split: Option.bind_split_asm sum.split_asm if_split_asm)
    (meson kept_refl kept_trans kept_wf change_stat_kept free_chain_kept)+

lemma fat32_rmdir_kept: "fat32_rmdir d part g path = Some (r, d') \<Longrightarrow> disk_wf d \<Longrightarrow> disk_kept d d'"
  by (auto simp: fat32_rmdir_def split: Option.bind_split_asm sum.split_asm if_split_asm)
    (meson kept_refl kept_trans kept_wf change_stat_kept free_chain_kept)+

lemma fat32_rmdir_entry_kept: "fat32_rmdir_entry d part g path = Some (r, d') \<Longrightarrow> disk_wf d \<Longrightarrow> disk_kept d d'"
  by (auto simp: fat32_rmdir_entry_def split: Option.bind_split_asm sum.split_asm if_split_asm)
    (meson kept_refl kept_trans kept_wf change_stat_kept free_chain_kept)+

lemma grow_directory_kept: "grow_directory d part l b attr name = Some (c, d') \<Longrightarrow> disk_wf d \<Longrightarrow> disk_kept d d'"
  by (auto simp: grow_directory_def bind_eq_Some_conv) (meson kept_trans kept_wf extend_kept write_cluster_kept)

lemma make_dots_kept: "make_dots d part as_dir c p = Some d' \<Longrightarrow> disk_wf d \<Longrightarrow> disk_kept d d'"
  by (auto simp: make_dots_def intro: kept_refl write_cluster_kept split: if_split_asm)

lemma fat32_create_kept:
  assumes "fat32_create d part g path as_dir = Some (r, d')" "disk_wf d"
  shows "disk_kept d d'"
proof (cases "nth_opt path 0 = Some 47")
  case False
  then show ?thesis using assms by (auto simp: fat32_create_def bind_eq_Some_conv intro: kept_refl)
next
  case True
  then obtain entry p found l d1 x attr name c d2 d3 where
    "place_loop d part entry p p g = Some (found, l, d1)"
    "(if found then Some (x, d1) else grow_directory d1 part l x attr name) = Some (c, d2)"
    "make_dots d2 part as_dir c p = Some d3" "fat_set_entry d3 part c FAT32_EOC = Some d'"
    using assms(1) by (auto simp: fat32_create_def Let_def bind_eq_Some_conv split del: if_split)
  then show ?thesis using assms(2) place_loop_kept grow_directory_kept make_dots_kept fat_set_entry_kept
    by (auto split: if_split_asm) (meson kept_trans kept_wf)+
qed

lemma place_renamed_kept: "place_renamed d part e c buf = Some d' \<Longrightarrow> disk_wf d \<Longrightarrow> disk_kept d d'"
  by (auto simp: place_renamed_def bind_eq_Some_conv intro: place_loop_kept split: if_split_asm)
    (meson kept_trans kept_wf extend_kept write_cluster_kept place_loop_kept)

lemma set_parent_kept: "set_parent d part g path c = Some d' \<Longrightarrow> disk_wf d \<Longrightarrow> disk_kept d d'"
  by (auto simp: set_parent_def bind_eq_Some_conv intro: write_cluster_kept)

lemma fat32_rename_kept:
  assumes "fat32_rename d part g e0 src des as_dir = Some (Inr d')" "disk_wf d"
  shows "disk_kept d d'"
proof -
  obtain entry c buffer d1 where d1: "place_renamed d part entry c buffer = Some d1"
    "(if as_dir then do { (_, d2) \<leftarrow> fat32_rmdir_entry d1 part g src; map_option Inr (set_parent d2 part g des c) }
      else do { (_, d2) \<leftarrow> fat32_unlink_file_entry d1 part g src; Some (Inr d2) }) = Some (Inr d' :: u64 + disk)"
    using assms(1) by (auto simp: fat32_rename_def Let_def bind_eq_Some_conv split: if_split_asm)
  then obtain r d2 where "fat32_rmdir_entry d1 part g src = Some (r, d2) \<and> set_parent d2 part g des c = Some d'
      \<or> fat32_unlink_file_entry d1 part g src = Some (r, d')"
    by (auto simp: bind_eq_Some_conv split: if_split_asm)
  then show ?thesis using d1(1) assms(2) place_renamed_kept fat32_rmdir_entry_kept fat32_unlink_file_entry_kept set_parent_kept
    by (meson kept_trans kept_wf)
qed

lemma fat32_write_kept:
  assumes "fat32_write_file_bytes d part g e0 path buf offset sz = Some (r, d')" "disk_wf d"
  shows "disk_kept d d'"
proof -
  obtain c0 where c0: "find_cluster_from_path d part g path = Some c0" using assms(1) by (auto simp: fat32_write_file_bytes_def bind_eq_Some_conv)
  obtain c d1 where d1: "(if c0 = 0 then do {
         c \<leftarrow> find_blank_cluster d part;
         if c < 2 then Some (0, d)
         else do {
           d' \<leftarrow> fat32_set_fat_entry d part c FAT32_EOC;
           d'' \<leftarrow> set_file_first_cluster d' part g path c;
           Some (c, d'') } }
       else Some (c0, d)) = Some (c, d1)"
    using assms(1) c0 by (auto simp: fat32_write_file_bytes_def bind_eq_Some_conv split del: if_split)
  have k: "disk_kept d d1"
    using d1 assms(2) by (auto simp: bind_eq_Some_conv intro: kept_refl kept_trans [OF set_entry_kept set_file_kept(1)] split: if_split_asm)
  have "disk_kept d1 d'" if "\<not> (c0 = 0 \<and> c < 2)"
    using assms(1) that kept_wf [OF k]
    by (auto simp: fat32_write_file_bytes_def c0 d1 intro: kept_refl write_loop_kept
        kept_trans [OF write_loop_kept set_file_kept(2)] split: Option.bind_split_asm if_split_asm option.split_asm sum.split_asm)
  moreover have "d' = d" if "c0 = 0 \<and> c < 2"
    using assms(1) that unfolding fat32_write_file_bytes_def c0 Option.bind.simps d1 split by simp
  ultimately show ?thesis using k kept_trans kept_refl [OF assms(2)] by blast
qed

text \<open>The operations that change a disk, as steps.\<close>

inductive fat_step :: "u8 \<Rightarrow> disk \<Rightarrow> disk \<Rightarrow> bool" for part where
  created: "fat32_create d part g path as_dir = Some (r, d') \<Longrightarrow> fat_step part d d'"
| written: "fat32_write_file_bytes d part g e0 path buf offset sz = Some (r, d') \<Longrightarrow> fat_step part d d'"
| truncated: "fat32_truncate_file d part g path = Some (r, d') \<Longrightarrow> fat_step part d d'"
| unlinked: "fat32_unlink_file d part g path = Some (r, d') \<Longrightarrow> fat_step part d d'"
| removed: "fat32_rmdir d part g path = Some (r, d') \<Longrightarrow> fat_step part d d'"
| renamed: "fat32_rename d part g e0 src des as_dir = Some (Inr d') \<Longrightarrow> fat_step part d d'"


section \<open>Creating a file or directory\<close>

lemma length_base_83: "base_83 n src dot i dest = Some f \<Longrightarrow> length f = length dest"
  by (induction n src dot i dest rule: base_83.induct) (auto simp: bind_eq_Some_conv split: if_split_asm)

lemma length_name_ext: "name_ext n src i j dest = Some f \<Longrightarrow> length f = length dest"
  by (induction n src i j dest rule: name_ext.induct) (auto simp: bind_eq_Some_conv split: if_split_asm)

lemma length_format_name: "format_name_83 src = Some f \<Longrightarrow> length f = 11"
  by (auto simp: format_name_83_def bind_eq_Some_conv dest!: length_base_83 length_name_ext split: option.split_asm)

lemma blank_entries_place: "blank_entries k i buf = Some (Hit j) \<Longrightarrow> \<exists>e. get_ent buf j = Some e"
  by (induction k i buf rule: blank_entries.induct) (auto simp: bind_eq_Some_conv split: if_split_asm)

lemma put_ent_place:
  assumes "get_ent buf i = Some e0" "length (de_name e) = 11"
  shows "put_ent buf i e = Some (put_slice (32 * i) (entry_bytes e) buf)" "length (put_slice (32 * i) (entry_bytes e) buf) = length buf"
proof -
  have b: "32 * i + 32 \<le> length buf" using assms(1) by (auto simp: get_ent_def read_bytes_def split: if_split_asm)
  then show "put_ent buf i e = Some (put_slice (32 * i) (entry_bytes e) buf)"
    using length_entry_bytes [OF assms(2)] by (simp add: put_ent_def put_all_spec)
  show "length (put_slice (32 * i) (entry_bytes e) buf) = length buf" using b length_entry_bytes [OF assms(2)] by simp
qed

lemma place_found:
  assumes p: "vol_inv V d" "valid V p" "length g = 4096"
    and hit: "blank_entries 128 0 (clus (abs_vol V d) p) = Some (Hit i)" and e: "length (de_name e) = 11"
  shows "\<exists>d'. place_loop d (v_part V) e p l g = Some (True, l, d') \<and> vol_inv V d'
    \<and> abs_vol V d' = (abs_vol V d)\<lparr>clus := (clus (abs_vol V d))(p := put_slice (32 * i) (entry_bytes e) (clus (abs_vol V d) p))\<rparr>"
proof -
  let ?buf = "clus (abs_vol V d) p"
  obtain e0 where "get_ent ?buf i = Some e0" using blank_entries_place [OF hit] by blast
  note put = put_ent_place [OF this e]
  have l: "length (put_slice (32 * i) (entry_bytes e) ?buf) = 4096" using put(2) vol.clus_length [OF p(1,2)] by simp
  have "\<not> p < 2" using p(2) by (auto simp: valid_def)
  then show ?thesis using vol.save [OF p(1,2) l] vol.load [OF p] hit put(1) by (subst place_loop.simps) auto
qed

lemma length_dot_entries: "length (dot_entries a b) = 4096"
  by (simp add: dot_entries_def length_entry_bytes new_entry_def)

lemma make_dots_view:
  assumes "vol_inv V d" "valid V x"
  shows "\<exists>d'. make_dots d (v_part V) as_dir x p = Some d' \<and> vol_inv V d'
    \<and> abs_vol V d' = (if as_dir then (abs_vol V d)\<lparr>clus := (clus (abs_vol V d))(x := dot_entries x p)\<rparr> else abs_vol V d)"
  using assms vol.save [OF assms length_dot_entries, of x p] by (auto simp: make_dots_def)


section \<open>A volume with a file\<close>

text \<open>The root directory in cluster 2 holds the file \<^verbatim>\<open>A.TXT\<close> of 10 bytes in cluster 3; cluster 4 is blank.\<close>

definition file_fat :: "u8 list" where
  "file_fat = concat (map le32 ([0x0FFFFFF8, 0x0FFFFFFF, 0x0FFFFFFF, 0x0FFFFFFF] @ replicate 124 0))"

definition file_entry :: DirEntry where
  "file_entry = (new_entry [65, 32, 32, 32, 32, 32, 32, 32, 84, 88, 84] 0x20 3)\<lparr>file_size := 10\<rparr>"

definition file_disk :: disk where
  "file_disk = \<lparr>d_data = (\<lambda>s. if s = 0 then Some example_mbr else if s = 1 then Some example_boot
     else if s < 4 then Some file_fat else if s = 4 then Some (entry_bytes file_entry @ replicate 480 0)
     else if s < 28 then Some (replicate 512 7) else None), d_fails = (\<lambda>_. False)\<rparr>"

definition file_path :: "u8 list" where
  "file_path = [47, 65, 46, 84, 88, 84, 0]"

lemma length_file_entry: "length (de_name file_entry) = 11"
  by (simp add: file_entry_def new_entry_def)

lemma file_vol_inv: "vol_inv example_volume file_disk"
proof (rule example_layout)
  show "part_bpb file_disk 0 = Some (v_lba example_volume, v_bpb example_volume)" by code_simp
  have "length file_fat = 512" by code_simp
  then show "\<exists>buf. d_data file_disk s = Some buf \<and> length buf = 512" if "s < 28" for s
    using that example_sectors length_entry_bytes [OF length_file_entry] by (auto simp: file_disk_def)
qed (simp add: file_disk_def)

lemma file_entries: "fat (abs_vol example_volume file_disk) x = (if x = 2 \<or> x = 3 then 0x0FFFFFFF else 0)"
proof -
  have "entry_at example_volume file_disk 2 = 0x0FFFFFFF" "entry_at example_volume file_disk 3 = 0x0FFFFFFF" "entry_at example_volume file_disk 4 = 0"
    by code_simp+
  then show ?thesis by (auto simp: abs_vol_def example_valid)
qed

lemma file_chain: "chain_on example_volume file_disk 3 [3]"
  using file_vol_inv by (simp add: chain_on_def file_entries in_chain_def example_valid)

lemma file_root: "clus (abs_vol example_volume file_disk) 2 = entry_bytes file_entry @ replicate 480 0 @ replicate 3584 7"
proof -
  have "sec file_disk 4 = entry_bytes file_entry @ replicate 480 0" by (simp add: sec_def file_disk_def)
  moreover have "sec file_disk s = replicate 512 7" if "4 < s" "s < 12" for s
  proof -
    have "unat (of_nat s :: u32) = s" using that by (simp add: unat_of_nat)
    then show ?thesis using that by (simp add: sec_def file_disk_def word_unat_eq_iff word_less_nat_alt)
  qed
  moreover have "clus_sector example_volume 2 = 4" by code_simp
  ultimately have "data_at example_volume file_disk 2 = entry_bytes file_entry @ replicate 480 0 @ concat (replicate 7 (replicate 512 7))"
    by (simp add: data_at_def upt_rec numeral_eq_Suc)
  also have "concat (replicate 7 (replicate 512 (7 :: u8))) = replicate 3584 7" by (simp add: numeral_eq_Suc flip: replicate_add)
  finally show ?thesis by (simp add: abs_vol_def example_valid)
qed

abbreviation (input) zeros :: "u8 list" where "zeros \<equiv> replicate 4096 0"

lemma file_found: "find_cluster_from_path file_disk 0 zeros file_path = Some 3"
proof -
  let ?buf = "clus (abs_vol example_volume file_disk) 2" and ?path = "take (Suc 6) file_path"
  define token where "token = [65, 46, 84, 88, 84] @ replicate 60 (0 :: u8)"
  have r: "get_root_dir_cluster file_disk 0 = Some 2" "strlen file_path = Some 6" "nth_opt file_path 0 = Some 47" "nth_opt file_path 1 = Some 65"
    by code_simp+
  have t1: "split_n ?path 47 1 (replicate 65 0) 64 = Some (True, token)" unfolding token_def by code_simp
  have t2: "split_n ?path 47 (Suc 1) token 64 = Some (False, token[0 := 0])" unfolding token_def by code_simp
  have load: "read_cluster file_disk 0 2 zeros = Some (0, ?buf)"
    using vol.load [OF file_vol_inv, of 2 zeros] by (simp add: example_valid example_number)
  have e: "get_ent ?buf 0 = Some file_entry"
    by (rule get_ent_same [OF _ length_file_entry]) (simp add: file_root slice_def length_entry_bytes [OF length_file_entry])
  have m: "match_name token (de_name file_entry) = Some True" "name0 file_entry = 65" "de_attr file_entry = 0x20" "get_entry_cluster file_entry = 3"
    unfolding token_def by code_simp+
  have "(128 :: nat) = Suc 127" by simp
  then have h: "fcp_entries 128 0 ?buf token = Some (Hit 3)" using e m by (simp only: fcp_entries.simps) simp
  have "fcp_loop file_disk 0 zeros ?path (Suc 1) 3 token = Some 3"
    by (subst fcp_loop.simps) (simp add: t2 [simplified], simp add: token_def)
  then have "fcp_loop file_disk 0 zeros ?path 1 2 (replicate 65 0) = Some 3"
    by (subst fcp_loop.simps) (simp add: t1 [simplified] load h, simp add: token_def)
  then show ?thesis using r by (simp add: find_cluster_from_path_def)
qed

lemma file_size_found: "get_file_size file_disk 0 e0 file_path = Some 10"
  by code_simp

theorem file_read_witness:
  "\<exists>bytes. length bytes = 4 \<and> fat32_read_file_bytes file_disk 0 zeros zero_entry file_path [1, 2, 3, 4, 5] 6 9 = Some (4, bytes @ [5])"
proof -
  have l: "length (content (abs_vol example_volume file_disk) [3]) = 4096" using length_content [OF file_chain] by simp
  have "fat32_read_file_bytes file_disk (v_part example_volume) zeros zero_entry file_path [1, 2, 3, 4, 5] 6 9
    = Some (int 4, put_slice 0 (slice (unat (6 :: u64)) 4 (content (abs_vol example_volume file_disk) [3])) [1, 2, 3, 4, 5])"
    by (rule file_read [OF file_chain _ _ file_size_found [folded example_number(1)]])
      (simp_all add: file_found example_number word_less_nat_alt)
  then show ?thesis using l by (auto simp: example_number put_slice_def)
qed

theorem file_written_witness:
  "\<exists>d'. fat32_write_file_bytes file_disk 0 zeros zero_entry file_path [1, 2, 3] 5 3 = Some (0, d')
     \<and> take 3 (drop 5 (content (abs_vol example_volume d') [3])) = [1, 2, 3]"
proof -
  have l: "length (content (abs_vol example_volume file_disk) [3]) = 4096" using length_content [OF file_chain] by simp
  have "\<exists>d'. fat32_write_file_bytes file_disk (v_part example_volume) zeros zero_entry file_path [1, 2, 3] 5 3 = Some (0, d')
    \<and> vol_inv example_volume d'
    \<and> content (abs_vol example_volume d') [3] = put_slice (unat (5 :: u64)) (take (unat (3 :: u64)) [1, 2, 3]) (content (abs_vol example_volume file_disk) [3])
    \<and> fat (abs_vol example_volume d') = fat (abs_vol example_volume file_disk)
    \<and> (\<forall>x. x \<notin> set [3] \<longrightarrow> clus (abs_vol example_volume d') x = clus (abs_vol example_volume file_disk) x)"
    by (rule file_written [OF file_chain _ file_size_found [folded example_number(1)]])
      (simp_all add: file_found example_number word_less_nat_alt)
  then show ?thesis using l by (auto simp: example_number put_slice_def)
qed

lemma file_disk_wf: "disk_wf file_disk"
proof -
  have "length file_fat = 512" by code_simp
  then show ?thesis using example_sectors length_entry_bytes [OF length_file_entry] by (auto simp: disk_wf_def file_disk_def)
qed

lemma file_blank: "find_blank_cluster file_disk 0 = Some 4"
  by code_simp

lemma file_place: "blank_entries 128 0 (clus (abs_vol example_volume file_disk) 2) = Some (Hit 1)"
proof -
  let ?buf = "clus (abs_vol example_volume file_disk) 2"
  have e: "get_ent ?buf 0 = Some file_entry" "get_ent ?buf 1 = Some zero_entry"
  proof -
    show "get_ent ?buf 0 = Some file_entry"
      by (rule get_ent_same [OF _ length_file_entry]) (simp add: file_root slice_def length_entry_bytes [OF length_file_entry])
    have "entry_bytes zero_entry = replicate 32 0" by code_simp
    then show "get_ent ?buf 1 = Some zero_entry"
      by (intro get_ent_same) (simp_all add: file_root slice_def length_entry_bytes [OF length_file_entry] zero_entry_def)
  qed
  have n: "name0 file_entry = 65" "name0 zero_entry = 0" by code_simp+
  have "(128 :: nat) = Suc (Suc 126)" by simp
  then show ?thesis using e n by (simp only: blank_entries.simps) simp
qed



end
