(* ===== verification/Unicode.thy ===== *)
theory Unicode
  imports Cstring
begin

text \<open>
  Text and lists of the layer for foreign programs (\<^verbatim>\<open>core/exe/common.h\<close>): conversion between
  UTF-8 and UTF-16, counted strings, and the circular lists of loaded libraries.  Both conversions
  take one character from the input and write it to the output until the input or the room
  ends; they are two instances of one locale.
\<close>

section \<open>From UTF-8 to UTF-16\<close>

abbreviation (input) UNI_REPLACEMENT_CHAR :: u32 where "UNI_REPLACEMENT_CHAR \<equiv> 0xFFFD"

definition decode8 :: "u8 list \<Rightarrow> nat \<Rightarrow> nat \<Rightarrow> (u32 \<times> nat) option" where
  "decode8 inp in_len i = do {
     c \<leftarrow> nth_opt inp i;
     if c < 0x80 then Some (ucast c, i + 1)
     else if c AND 0xE0 = 0xC0 \<and> i + 1 < in_len then do {
       c1 \<leftarrow> nth_opt inp (i + 1);
       Some (push_bit 6 (ucast (c AND 0x1F)) OR ucast (c1 AND 0x3F), i + 2) }
     else if c AND 0xF0 = 0xE0 \<and> i + 2 < in_len then do {
       c1 \<leftarrow> nth_opt inp (i + 1);
       c2 \<leftarrow> nth_opt inp (i + 2);
       Some (push_bit 12 (ucast (c AND 0x0F)) OR push_bit 6 (ucast (c1 AND 0x3F)) OR ucast (c2 AND 0x3F), i + 3) }
     else if c AND 0xF8 = 0xF0 \<and> i + 3 < in_len then do {
       c1 \<leftarrow> nth_opt inp (i + 1);
       c2 \<leftarrow> nth_opt inp (i + 2);
       c3 \<leftarrow> nth_opt inp (i + 3);
       Some (push_bit 18 (ucast (c AND 0x07)) OR push_bit 12 (ucast (c1 AND 0x3F)) OR push_bit 6 (ucast (c2 AND 0x3F))
         OR ucast (c3 AND 0x3F), i + 4) }
     else Some (UNI_REPLACEMENT_CHAR, i + 1) }"

definition encode16 :: "u32 \<Rightarrow> u16 list" where
  "encode16 cp =
     (if cp \<le> 0xFFFF then [ucast cp]
      else [ucast (0xD800 OR drop_bit 10 (cp - 0x10000)), ucast (0xDC00 OR (cp - 0x10000) AND 0x3FF)])"

lemma decode8_forward: "decode8 inp n i = Some (cp, j) \<Longrightarrow> i < j"
  by (auto simp: decode8_def split: Option.bind_split_asm if_split_asm)

function utf8_to_utf16_loop :: "u8 list \<Rightarrow> nat \<Rightarrow> u16 list \<Rightarrow> nat \<Rightarrow> nat \<Rightarrow> nat \<Rightarrow> (nat \<times> u16 list) option" where
  "utf8_to_utf16_loop inp in_len out out_len i k =
     (if i \<le> in_len \<and> k < out_len then do {
        (cp, i') \<leftarrow> decode8 inp in_len i;
        if k + length (encode16 cp) > out_len then Some (k, out)
        else do {
          out' \<leftarrow> put_all out k (encode16 cp);
          utf8_to_utf16_loop inp in_len out' out_len i' (k + length (encode16 cp)) } }
      else Some (k, out))"
  by auto
termination
  by (relation "measure (\<lambda>(inp, in_len, out, out_len, i, k). Suc in_len - i)") (auto dest: decode8_forward)

definition utf8_to_utf16 :: "u8 list \<Rightarrow> nat \<Rightarrow> u16 list \<Rightarrow> nat \<Rightarrow> (nat \<times> u16 list) option" where
  "utf8_to_utf16 inp in_len out out_len = utf8_to_utf16_loop inp in_len out out_len 0 0"

section \<open>From UTF-16 to UTF-8\<close>

definition decode16 :: "u16 list \<Rightarrow> nat \<Rightarrow> nat \<Rightarrow> (u32 \<times> nat) option" where
  "decode16 inp in_len i = do {
     c \<leftarrow> nth_opt inp i;
     if 0xD800 \<le> c \<and> c \<le> 0xDBFF \<and> i + 1 < in_len then do {
       low \<leftarrow> nth_opt inp (i + 1);
       if 0xDC00 \<le> low \<and> low \<le> 0xDFFF then
         Some (push_bit 10 (ucast c - 0xD800) + (ucast low - 0xDC00) + 0x10000, i + 2)
       else Some (ucast c, i + 1) }
     else Some (ucast c, i + 1) }"

definition encode8 :: "u32 \<Rightarrow> u8 list" where
  "encode8 cp =
     (if cp < 0x80 then [ucast cp]
      else if cp < 0x800 then [ucast (0xC0 OR drop_bit 6 cp), ucast (0x80 OR cp AND 0x3F)]
      else if cp < 0x10000 then
        [ucast (0xE0 OR drop_bit 12 cp), ucast (0x80 OR drop_bit 6 cp AND 0x3F), ucast (0x80 OR cp AND 0x3F)]
      else [ucast (0xF0 OR drop_bit 18 cp), ucast (0x80 OR drop_bit 12 cp AND 0x3F),
        ucast (0x80 OR drop_bit 6 cp AND 0x3F), ucast (0x80 OR cp AND 0x3F)])"

lemma decode16_forward: "decode16 inp n i = Some (cp, j) \<Longrightarrow> i < j"
  by (auto simp: decode16_def split: Option.bind_split_asm if_split_asm)

function utf16_to_utf8_loop :: "u16 list \<Rightarrow> nat \<Rightarrow> u8 list \<Rightarrow> nat \<Rightarrow> nat \<Rightarrow> nat \<Rightarrow> (nat \<times> u8 list) option" where
  "utf16_to_utf8_loop inp in_len out out_len i k =
     (if i \<le> in_len \<and> k \<le> out_len then do {
        (cp, i') \<leftarrow> decode16 inp in_len i;
        if k + length (encode8 cp) > out_len then Some (k, out)
        else do {
          out' \<leftarrow> put_all out k (encode8 cp);
          utf16_to_utf8_loop inp in_len out' out_len i' (k + length (encode8 cp)) } }
      else Some (k, out))"
  by auto
termination
  by (relation "measure (\<lambda>(inp, in_len, out, out_len, i, k). Suc in_len - i)") (auto dest: decode16_forward)

definition utf16_to_utf8 :: "u16 list \<Rightarrow> nat \<Rightarrow> u8 list \<Rightarrow> nat \<Rightarrow> (nat \<times> u8 list) option" where
  "utf16_to_utf8 inp in_len out out_len = utf16_to_utf8_loop inp in_len out out_len 0 0"

declare utf8_to_utf16_loop.simps [simp del] utf16_to_utf8_loop.simps [simp del]

section \<open>One character\<close>

text \<open>The code points of characters: below 0x110000 and not surrogates.\<close>

definition scalar :: "u32 \<Rightarrow> bool" where
  "scalar cp \<longleftrightarrow> cp < 0xD800 \<or> 0xE000 \<le> cp \<and> cp < 0x110000"

lemma below_bits: "(w :: u32) < 2 ^ n \<Longrightarrow> w = take_bit n w"
  by (metis less_mask_eq take_bit_eq_mask)

lemma bit_below: "(w :: u32) < 2 ^ n \<Longrightarrow> n \<le> m \<Longrightarrow> \<not> bit w m"
  by (metis below_bits bit_take_bit_iff not_le)

lemma word32_eqI:
  fixes v w :: u32
  assumes "\<And>m. m \<in> {0,1,2,3,4,5,6,7,8,9,10,11,12,13,14,15,16,17,18,19,20,21,22,23,24,25,26,27,28,29,30,31} \<Longrightarrow> bit v m = bit w m"
  shows "v = w"
proof (rule bit_word_eqI)
  fix m assume "m < LENGTH(32)"
  then have "m < 32" by simp
  then have "m = 0 \<or> m = 1 \<or> m = 2 \<or> m = 3 \<or> m = 4 \<or> m = 5 \<or> m = 6 \<or> m = 7 \<or> m = 8 \<or> m = 9 \<or> m = 10 \<or> m = 11 \<or> m = 12 \<or> m = 13
    \<or> m = 14 \<or> m = 15 \<or> m = 16 \<or> m = 17 \<or> m = 18 \<or> m = 19 \<or> m = 20 \<or> m = 21 \<or> m = 22 \<or> m = 23 \<or> m = 24 \<or> m = 25 \<or> m = 26
    \<or> m = 27 \<or> m = 28 \<or> m = 29 \<or> m = 30 \<or> m = 31" by presburger
  then show "bit v m = bit w m" by (intro assms) (simp only: insert_iff empty_iff simp_thms)
qed

lemma join_bits:
  fixes cp :: u32
  shows "cp < 2 ^ 11 \<Longrightarrow> push_bit 6 (ucast ((ucast (0xC0 OR drop_bit 6 cp) :: u8) AND 0x1F)) OR ucast ((ucast (0x80 OR cp AND 0x3F) :: u8) AND 0x3F) = cp"
    and "cp < 2 ^ 16 \<Longrightarrow> push_bit 12 (ucast ((ucast (0xE0 OR drop_bit 12 cp) :: u8) AND 0x0F)) OR
      push_bit 6 (ucast ((ucast (0x80 OR drop_bit 6 cp AND 0x3F) :: u8) AND 0x3F)) OR ucast ((ucast (0x80 OR cp AND 0x3F) :: u8) AND 0x3F) = cp"
    and "cp < 2 ^ 21 \<Longrightarrow> push_bit 18 (ucast ((ucast (0xF0 OR drop_bit 18 cp) :: u8) AND 0x07)) OR
      push_bit 12 (ucast ((ucast (0x80 OR drop_bit 12 cp AND 0x3F) :: u8) AND 0x3F)) OR
      push_bit 6 (ucast ((ucast (0x80 OR drop_bit 6 cp AND 0x3F) :: u8) AND 0x3F)) OR ucast ((ucast (0x80 OR cp AND 0x3F) :: u8) AND 0x3F) = cp"
  subgoal premises p by (rule word32_eqI) (elim insertE emptyE, simp_all add: bit_simps bit_below [OF p])
  subgoal premises p by (rule word32_eqI) (elim insertE emptyE, simp_all add: bit_simps bit_below [OF p])
  subgoal premises p by (rule word32_eqI) (elim insertE emptyE, simp_all add: bit_simps bit_below [OF p])
  done

lemma word8_eqI:
  fixes v w :: u8
  assumes "\<And>m. m \<in> {0,1,2,3,4,5,6,7} \<Longrightarrow> bit v m = bit w m"
  shows "v = w"
proof (rule bit_word_eqI)
  fix m assume "m < LENGTH(8)"
  then have "m < 8" by simp
  then have "m = 0 \<or> m = 1 \<or> m = 2 \<or> m = 3 \<or> m = 4 \<or> m = 5 \<or> m = 6 \<or> m = 7" by presburger
  then show "bit v m = bit w m" by (intro assms) (simp only: insert_iff empty_iff simp_thms)
qed

lemma lead_bits:
  fixes cp :: u32
  shows "cp < 2 ^ 11 \<Longrightarrow> (ucast (0xC0 OR drop_bit 6 cp) :: u8) AND 0xE0 = 0xC0"
    and "cp < 2 ^ 16 \<Longrightarrow> (ucast (0xE0 OR drop_bit 12 cp) :: u8) AND 0xF0 = 0xE0"
    and "cp < 2 ^ 21 \<Longrightarrow> (ucast (0xF0 OR drop_bit 18 cp) :: u8) AND 0xF8 = 0xF0"
  subgoal premises p by (rule word8_eqI) (elim insertE emptyE, simp_all add: bit_simps bit_below [OF p])
  subgoal premises p by (rule word8_eqI) (elim insertE emptyE, simp_all add: bit_simps bit_below [OF p])
  subgoal premises p by (rule word8_eqI) (elim insertE emptyE, simp_all add: bit_simps bit_below [OF p])
  done

lemma lead_cases:
  fixes c :: u8
  shows "c AND 0xE0 = 0xC0 \<Longrightarrow> \<not> c < 0x80"
    and "c AND 0xF0 = 0xE0 \<Longrightarrow> \<not> c < 0x80 \<and> c AND 0xE0 \<noteq> 0xC0"
    and "c AND 0xF8 = 0xF0 \<Longrightarrow> \<not> c < 0x80 \<and> c AND 0xE0 \<noteq> 0xC0 \<and> c AND 0xF0 \<noteq> 0xE0"
proof -
  have le: "c AND x \<le> c" for x by (rule word_and_le2)
  show "\<not> c < 0x80" if "c AND 0xE0 = 0xC0" using le [of "0xE0"] unfolding that by (auto simp: word_le_nat_alt word_less_nat_alt)
  show "\<not> c < 0x80 \<and> c AND 0xE0 \<noteq> 0xC0" if e: "c AND 0xF0 = 0xE0"
  proof
    show "\<not> c < 0x80" using le [of "0xF0"] unfolding e by (auto simp: word_le_nat_alt word_less_nat_alt)
    have "c AND 0xE0 = (c AND 0xF0) AND 0xE0" by (simp add: and.assoc)
    then show "c AND 0xE0 \<noteq> 0xC0" by (simp add: e)
  qed
  show "\<not> c < 0x80 \<and> c AND 0xE0 \<noteq> 0xC0 \<and> c AND 0xF0 \<noteq> 0xE0" if e: "c AND 0xF8 = 0xF0"
  proof (intro conjI)
    show "\<not> c < 0x80" using le [of "0xF8"] unfolding e by (auto simp: word_le_nat_alt word_less_nat_alt)
    have "c AND 0xE0 = (c AND 0xF8) AND 0xE0" "c AND 0xF0 = (c AND 0xF8) AND 0xF0" by (simp_all add: and.assoc)
    then show "c AND 0xE0 \<noteq> 0xC0" "c AND 0xF0 \<noteq> 0xE0" by (simp_all add: e)
  qed
qed

lemma at_slice:
  assumes "slice i (length us) inp = us" "j < length us"
  shows "nth_opt inp (i + j) = Some (us ! j)"
proof -
  have "length us = min (length us) (length inp - i)" using arg_cong [OF assms(1), of length] by simp
  then have "i + j < length inp" using assms(2) by linarith
  moreover have "us ! j = inp ! (i + j)" using assms(2) arg_cong [OF assms(1), of "\<lambda>xs. xs ! j"] \<open>i + j < length inp\<close> by (simp add: slice_def)
  ultimately show ?thesis by (simp add: nth_opt_def)
qed

lemma at_drop: "drop i xs = x # ys \<Longrightarrow> nth_opt xs i = Some x"
  by (cases "i < length xs") (auto simp: nth_opt_def Cons_nth_drop_Suc [symmetric])

lemma decode_encode8:
  assumes "cp < 0x110000" "slice i (length (encode8 cp)) inp = encode8 cp" "i + length (encode8 cp) \<le> n"
  shows "decode8 inp n i = Some (cp, i + length (encode8 cp))"
proof -
  have lt: "cp < 2 ^ 21" using assms(1) by (simp add: word_less_nat_alt)
  note at = at_slice [OF assms(2), of 0] at_slice [OF assms(2), of 1] at_slice [OF assms(2), of 2] at_slice [OF assms(2), of 3]
  consider "cp < 0x80" | "\<not> cp < 0x80" "cp < 0x800" | "\<not> cp < 0x80" "\<not> cp < 0x800" "cp < 0x10000" | "\<not> cp < 0x80" "\<not> cp < 0x800" "\<not> cp < 0x10000" by blast
  then show ?thesis
  proof cases
    case 1
    then have "unat cp < 0x80" by (simp add: word_less_nat_alt)
    then have "(ucast cp :: u8) < 0x80" "cp < 2 ^ 8"
      by (simp_all add: word_less_nat_alt unsigned_ucast_eq take_bit_nat_eq_self)
    moreover have "(ucast (ucast cp :: u8) :: u32) = cp" by (rule word32_eqI) (elim insertE emptyE, simp_all add: bit_simps bit_below [OF \<open>cp < 2 ^ 8\<close>])
    ultimately show ?thesis using at(1) 1 by (simp add: decode8_def encode8_def)
  next
    case 2
    then have l: "cp < 2 ^ 11" by simp
    note c = lead_bits(1) [OF l] 
    show ?thesis using at(1,2) 2 assms(3) c lead_cases(1) [OF c] join_bits(1) [OF l] by (simp add: decode8_def encode8_def)
  next
    case 3
    then have l: "cp < 2 ^ 16" by simp
    note c = lead_bits(2) [OF l] 
    show ?thesis using at(1,2,3) 3 assms(3) c lead_cases(2) [OF c] join_bits(2) [OF l] by (simp add: decode8_def encode8_def)
  next
    case 4
    note c = lead_bits(3) [OF lt] 
    show ?thesis using at 4 assms(3) c lead_cases(3) [OF c] join_bits(3) [OF lt] by (simp add: decode8_def encode8_def numeral_3_eq_3)
  qed
qed

lemma narrow16:
  fixes w :: u32
  assumes "unat w < 2 ^ 16"
  shows "unat (ucast w :: u16) = unat w" "(ucast (ucast w :: u16) :: u32) = w"
proof -
  show n: "unat (ucast w :: u16) = unat w" using assms by (simp add: unsigned_ucast_eq take_bit_nat_eq_self)
  have l: "w < 2 ^ 16" using assms by (simp add: word_less_nat_alt)
  show "(ucast (ucast w :: u16) :: u32) = w"
    by (rule word32_eqI) (elim insertE emptyE, simp_all add: bit_simps bit_below [OF l])
qed

lemma surrogates:
  fixes x :: u32
  assumes "x < 2 ^ 20"
  shows "(ucast (ucast (0xD800 OR drop_bit 10 x) :: u16) :: u32) = 0xD800 + drop_bit 10 x"
    and "(ucast (ucast (0xDC00 OR x AND 0x3FF) :: u16) :: u32) = 0xDC00 + take_bit 10 x"
    and "0xD800 \<le> (ucast (0xD800 OR drop_bit 10 x) :: u16) \<and> (ucast (0xD800 OR drop_bit 10 x) :: u16) \<le> 0xDBFF"
    and "0xDC00 \<le> (ucast (0xDC00 OR x AND 0x3FF) :: u16) \<and> (ucast (0xDC00 OR x AND 0x3FF) :: u16) \<le> 0xDFFF"
proof -
  have m: "x AND 0x3FF = take_bit 10 x" by (simp add: take_bit_eq_mask mask_eq_exp_minus_1)
  have d: "0xD800 AND drop_bit 10 x = 0" "0xDC00 AND take_bit 10 x = 0"
    by (rule word32_eqI; elim insertE emptyE; simp add: bit_simps bit_below [OF assms])+
  have o: "0xD800 OR drop_bit 10 x = 0xD800 + drop_bit 10 x" "0xDC00 OR x AND 0x3FF = 0xDC00 + take_bit 10 x"
    unfolding m by (rule disjunctive_add_eq_or [symmetric, OF d(1)], rule disjunctive_add_eq_or [symmetric, OF d(2)])
  have "unat x < 2 ^ 20" using assms by (simp add: word_less_nat_alt)
  then have a: "unat (drop_bit 10 x) < 2 ^ 10" by (simp add: drop_bit_eq_div unat_div div_less_iff_less_mult)
  have b: "unat (take_bit 10 x) < 2 ^ 10" unfolding unsigned_take_bit_eq by (rule take_bit_nat_less_exp)
  have u: "unat (0xD800 + drop_bit 10 x) = 0xD800 + unat (drop_bit 10 x)" "unat (0xDC00 + take_bit 10 x) = 0xDC00 + unat (take_bit 10 x)"
    using a b by (simp_all add: unat_word_ariths)
  then have l: "unat (0xD800 + drop_bit 10 x) < 2 ^ 16" "unat (0xDC00 + take_bit 10 x) < 2 ^ 16" using a b by simp_all
  show "(ucast (ucast (0xD800 OR drop_bit 10 x) :: u16) :: u32) = 0xD800 + drop_bit 10 x"
    "(ucast (ucast (0xDC00 OR x AND 0x3FF) :: u16) :: u32) = 0xDC00 + take_bit 10 x"
    unfolding o by (rule narrow16(2) [OF l(1)], rule narrow16(2) [OF l(2)])
  show "0xD800 \<le> (ucast (0xD800 OR drop_bit 10 x) :: u16) \<and> (ucast (0xD800 OR drop_bit 10 x) :: u16) \<le> 0xDBFF"
    "0xDC00 \<le> (ucast (0xDC00 OR x AND 0x3FF) :: u16) \<and> (ucast (0xDC00 OR x AND 0x3FF) :: u16) \<le> 0xDFFF"
    unfolding o word_le_nat_alt narrow16(1) [OF l(1)] narrow16(1) [OF l(2)] u using a b by simp_all
qed

lemma decode_encode16:
  assumes "scalar cp" "slice i (length (encode16 cp)) inp = encode16 cp" "i + length (encode16 cp) \<le> n"
  shows "decode16 inp n i = Some (cp, i + length (encode16 cp))"
proof -
  note at = at_slice [OF assms(2), of 0] at_slice [OF assms(2), of 1]
  show ?thesis
  proof (cases "cp \<le> 0xFFFF")
    case True
    then have w: "unat cp < 2 ^ 16" by (simp add: word_le_nat_alt)
    have "unat cp < 0xD800 \<or> 0xE000 \<le> unat cp" using assms(1) by (auto simp: scalar_def word_le_nat_alt word_less_nat_alt)
    then have "\<not> (0xD800 \<le> (ucast cp :: u16) \<and> (ucast cp :: u16) \<le> 0xDBFF)"
      unfolding word_le_nat_alt narrow16(1) [OF w] by auto
    then show ?thesis using at(1) True narrow16(2) [OF w] by (auto simp: decode16_def encode16_def)
  next
    case False
    let ?x = "cp - 0x10000"
    have "0xFFFF < unat cp" "unat cp < 0x110000" using False assms(1) by (auto simp: scalar_def word_le_nat_alt word_less_nat_alt)
    then have "unat ?x = unat cp - 0x10000" by (simp add: unat_sub_if')
    then have x: "?x < 2 ^ 20" using \<open>unat cp < 0x110000\<close> by (simp add: word_less_nat_alt)
    have "push_bit 10 (drop_bit 10 ?x) + take_bit 10 ?x + 0x10000 = cp" using bits_ident [of 10 ?x] by simp
    then show ?thesis using at False surrogates [OF x] assms(3) by (simp add: decode16_def encode16_def)
  qed
qed

section \<open>Whole texts\<close>

locale transcoder =
  fixes enc :: "u32 \<Rightarrow> 'a::zero list" and enc' :: "u32 \<Rightarrow> 'b::zero list"
    and dec :: "'a list \<Rightarrow> nat \<Rightarrow> nat \<Rightarrow> (u32 \<times> nat) option"
    and loop :: "'a list \<Rightarrow> nat \<Rightarrow> 'b list \<Rightarrow> nat \<Rightarrow> nat \<Rightarrow> nat \<Rightarrow> (nat \<times> 'b list) option"
  assumes step: "\<lbrakk>i \<le> n; k < m; dec inp n i = Some (cp, j); k + length (enc' cp) \<le> m; put_all out k (enc' cp) = Some out'\<rbrakk>
      \<Longrightarrow> loop inp n out m i k = loop inp n out' m j (k + length (enc' cp))"
    and stop: "n < i \<Longrightarrow> loop inp n out m i k = Some (k, out)"
    and dec: "\<lbrakk>scalar cp; slice i (length (enc cp)) inp = enc cp; i + length (enc cp) \<le> n\<rbrakk> \<Longrightarrow> dec inp n i = Some (cp, i + length (enc cp))"
    and at_end: "nth_opt inp n = Some 0 \<Longrightarrow> dec inp n n = Some (0, n + 1)"
    and not_empty: "enc' cp \<noteq> []"
    and enc_0: "enc' 0 = [0]"
begin

lemma recode_from:
  "\<lbrakk>list_all scalar cps; drop i inp = concat (map enc cps) @ 0 # rest; n = i + length (concat (map enc cps));
    k + length (concat (map enc' cps)) < m; m \<le> length out\<rbrakk>
   \<Longrightarrow> loop inp n out m i k = Some (k + length (concat (map enc' cps)) + 1, put_slice k (concat (map enc' cps) @ [0]) out)"
proof (induction cps arbitrary: i k out)
  case Nil
  then have "nth_opt inp i = Some 0" by (intro at_drop [of _ _ _ rest]) simp
  then have d: "dec inp n i = Some (0, i + 1)" using at_end [of inp i] Nil(3) by simp
  have p: "put_all out k (enc' 0) = Some (put_slice k [0] out)" using Nil by (simp add: put_all_spec enc_0)
  show ?case using step [OF _ _ d _ p] stop [of n "i + 1"] Nil by (simp add: enc_0)
next
  case (Cons cp cps)
  let ?e = "enc cp" and ?e' = "enc' cp"
  have d: "dec inp n i = Some (cp, i + length ?e)" using Cons.prems by (intro dec) (simp_all add: slice_def)
  have l: "k + length ?e' + length (concat (map enc' cps)) < m" using Cons.prems by simp
  have p: "put_all out k ?e' = Some (put_slice k ?e' out)" using Cons.prems by (simp add: put_all_spec)
  have "drop (length ?e) (drop i inp) = concat (map enc cps) @ 0 # rest" unfolding Cons.prems(2) by simp
  then have "drop (i + length ?e) inp = concat (map enc cps) @ 0 # rest" by (simp add: add.commute)
  from Cons.IH [OF _ this _ l, of "put_slice k ?e' out"]
  have "loop inp n (put_slice k ?e' out) m (i + length ?e) (k + length ?e')
    = Some (k + length ?e' + length (concat (map enc' cps)) + 1, put_slice (k + length ?e') (concat (map enc' cps) @ [0]) (put_slice k ?e' out))"
    using Cons.prems by simp
  moreover have "put_slice (k + length ?e') (concat (map enc' cps) @ [0]) (put_slice k ?e' out) = put_slice k (?e' @ concat (map enc' cps) @ [0]) out"
    using Cons.prems l by (simp add: put_slice_def ac_simps)
  ultimately show ?case using step [OF _ _ d _ p] Cons.prems not_empty [of cp] by (simp add: add.assoc)
qed

end

interpretation to16: transcoder encode8 encode16 decode8 utf8_to_utf16_loop
proof
  show "\<lbrakk>i \<le> n; k < m; decode8 inp n i = Some (cp, j); k + length (encode16 cp) \<le> m; put_all out k (encode16 cp) = Some out'\<rbrakk>
    \<Longrightarrow> utf8_to_utf16_loop inp n out m i k = utf8_to_utf16_loop inp n out' m j (k + length (encode16 cp))" for i n k m inp cp j out out'
    by (subst utf8_to_utf16_loop.simps) simp
  show "n < i \<Longrightarrow> utf8_to_utf16_loop inp n out m i k = Some (k, out)" for n i inp out m k
    by (subst utf8_to_utf16_loop.simps) simp
  show "\<lbrakk>scalar cp; slice i (length (encode8 cp)) inp = encode8 cp; i + length (encode8 cp) \<le> n\<rbrakk>
    \<Longrightarrow> decode8 inp n i = Some (cp, i + length (encode8 cp))" for cp i inp n
    by (rule decode_encode8) (auto simp: scalar_def word_less_nat_alt)
qed (simp_all add: decode8_def encode16_def)

interpretation to8: transcoder encode16 encode8 decode16 utf16_to_utf8_loop
proof
  show "\<lbrakk>i \<le> n; k < m; decode16 inp n i = Some (cp, j); k + length (encode8 cp) \<le> m; put_all out k (encode8 cp) = Some out'\<rbrakk>
    \<Longrightarrow> utf16_to_utf8_loop inp n out m i k = utf16_to_utf8_loop inp n out' m j (k + length (encode8 cp))" for i n k m inp cp j out out'
    by (subst utf16_to_utf8_loop.simps) simp
  show "n < i \<Longrightarrow> utf16_to_utf8_loop inp n out m i k = Some (k, out)" for n i inp out m k
    by (subst utf16_to_utf8_loop.simps) simp
  show "\<lbrakk>scalar cp; slice i (length (encode16 cp)) inp = encode16 cp; i + length (encode16 cp) \<le> n\<rbrakk>
    \<Longrightarrow> decode16 inp n i = Some (cp, i + length (encode16 cp))" for cp i inp n
    by (rule decode_encode16)
qed (simp_all add: decode16_def encode8_def)

definition text8 :: "u32 list \<Rightarrow> u8 list" where
  "text8 cps = concat (map encode8 cps)"

definition text16 :: "u32 list \<Rightarrow> u16 list" where
  "text16 cps = concat (map encode16 cps)"

lemma utf8_to_utf16_text:
  assumes "list_all scalar cps" "length (text16 cps) < m" "m \<le> length out"
  shows "utf8_to_utf16 (text8 cps @ 0 # rest) (length (text8 cps)) out m
    = Some (length (text16 cps) + 1, put_slice 0 (text16 cps @ [0]) out)"
  using to16.recode_from [of cps 0 "text8 cps @ 0 # rest" rest "length (text8 cps)" 0 m out] assms
  by (simp add: utf8_to_utf16_def text8_def text16_def)

lemma utf16_to_utf8_text:
  assumes "list_all scalar cps" "length (text8 cps) < m" "m \<le> length out"
  shows "utf16_to_utf8 (text16 cps @ 0 # rest) (length (text16 cps)) out m
    = Some (length (text8 cps) + 1, put_slice 0 (text8 cps @ [0]) out)"
  using to8.recode_from [of cps 0 "text16 cps @ 0 # rest" rest "length (text16 cps)" 0 m out] assms
  by (simp add: utf16_to_utf8_def text8_def text16_def)

text \<open>
  C22.  Conversion of texts.  A text in UTF-8 is converted to the same text in UTF-16, and converting this back gives the
  bytes of the original, each with its terminator, when the buffers are longer than the texts.
\<close>

theorem utf_roundtrip:
  assumes "list_all scalar cps" "length (text16 cps) < m" "m \<le> length out" "length (text8 cps) < m'" "m' \<le> length out'"
  shows "\<exists>units. utf8_to_utf16 (text8 cps @ [0]) (length (text8 cps)) out m = Some (length (text16 cps) + 1, units)
    \<and> units = text16 cps @ 0 # drop (length (text16 cps) + 1) out
    \<and> utf16_to_utf8 units (length (text16 cps)) out' m' = Some (length (text8 cps) + 1, put_slice 0 (text8 cps @ [0]) out')"
  using utf8_to_utf16_text [OF assms(1-3), of "[]"] utf16_to_utf8_text [OF assms(1,4,5)] by (simp add: put_slice_def)

text \<open>A letter, an accented letter, the euro sign and a character outside the first plane.\<close>

theorem utf_roundtrip_witness:
  "utf8_to_utf16 [0x41, 0xC3, 0xA9, 0xE2, 0x82, 0xAC, 0xF0, 0x9F, 0x98, 0x80, 0] 10 [7, 7, 7, 7, 7, 7, 7, 7] 8
     = Some (6, [0x41, 0xE9, 0x20AC, 0xD83D, 0xDE00, 0, 7, 7])
   \<and> utf16_to_utf8 [0x41, 0xE9, 0x20AC, 0xD83D, 0xDE00, 0, 7, 7] 5 [1, 1, 1, 1, 1, 1, 1, 1, 1, 1, 1, 1] 12
     = Some (11, [0x41, 0xC3, 0xA9, 0xE2, 0x82, 0xAC, 0xF0, 0x9F, 0x98, 0x80, 0, 1])"
proof -
  have t: "text8 [0x41, 0xE9, 0x20AC, 0x1F600] = [0x41, 0xC3, 0xA9, 0xE2, 0x82, 0xAC, 0xF0, 0x9F, 0x98, 0x80]"
    "text16 [0x41, 0xE9, 0x20AC, 0x1F600] = [0x41, 0xE9, 0x20AC, 0xD83D, 0xDE00]" by code_simp+
  have l: "length (text8 [0x41, 0xE9, 0x20AC, 0x1F600]) = 10" "length (text16 [0x41, 0xE9, 0x20AC, 0x1F600]) = 5" by (simp_all add: t)
  have "list_all scalar [0x41, 0xE9, 0x20AC, 0x1F600]" by code_simp
  then show ?thesis
    using utf_roundtrip [of "[0x41, 0xE9, 0x20AC, 0x1F600]" 8 "[7, 7, 7, 7, 7, 7, 7, 7]" 12 "[1, 1, 1, 1, 1, 1, 1, 1, 1, 1, 1, 1]", unfolded l, unfolded t]
    by (simp add: put_slice_def)
qed

section \<open>Counted strings\<close>

text \<open>
  The five structures with a buffer of their own differ in its size only.  A pointer to units is the list of
  units that it points to, and \<^const>\<open>None\<close> when it is null; the pointer of a structure with a buffer is whether it
  points to this buffer.
\<close>

record ustr =
  len :: u16
  max_len :: u16
  ptr_own :: bool
  buffer :: "u16 list"

record UNICODE_STRING =
  Length :: u16
  MaximumLength :: u16
  Buffer :: "u16 list option"

definition utf8_to_ustr :: "nat \<Rightarrow> u8 list \<Rightarrow> ustr \<Rightarrow> ustr option" where
  "utf8_to_ustr n utf8_str u = do {
     l \<leftarrow> strlen utf8_str;
     (utf16_len, b) \<leftarrow> utf8_to_utf16 utf8_str (unat l) (buffer u) n;
     Some (u\<lparr>len := ucast (l * 2), max_len := of_nat (n * 2), ptr_own := True, buffer := b\<rparr>) }"

definition utf8_to_ustr32 :: "u8 list \<Rightarrow> ustr \<Rightarrow> ustr option" where "utf8_to_ustr32 = utf8_to_ustr 32"
definition utf8_to_ustr64 :: "u8 list \<Rightarrow> ustr \<Rightarrow> ustr option" where "utf8_to_ustr64 = utf8_to_ustr 64"
definition utf8_to_ustr256 :: "u8 list \<Rightarrow> ustr \<Rightarrow> ustr option" where "utf8_to_ustr256 = utf8_to_ustr 256"
definition utf8_to_ustr512 :: "u8 list \<Rightarrow> ustr \<Rightarrow> ustr option" where "utf8_to_ustr512 = utf8_to_ustr 512"
definition utf8_to_ustr1024 :: "u8 list \<Rightarrow> ustr \<Rightarrow> ustr option" where "utf8_to_ustr1024 = utf8_to_ustr 1024"

definition ustr_to_utf8 :: "UNICODE_STRING \<Rightarrow> u8 list \<Rightarrow> nat \<Rightarrow> u8 list option" where
  "ustr_to_utf8 u utf8_str max_utf8_len = do {
     b \<leftarrow> Buffer u;
     (utf8_len, none) \<leftarrow> utf16_to_utf8 b (unat (Length u)) [] 0;
     if utf8_len = 0 \<or> utf8_len \<ge> max_utf8_len then Some utf8_str
     else do {
       (k, s) \<leftarrow> utf16_to_utf8 b (unat (Length u)) utf8_str max_utf8_len;
       upd_opt s utf8_len 0 } }"

fun last_separator :: "u8 list \<Rightarrow> nat \<Rightarrow> nat option \<Rightarrow> nat option option" where
  "last_separator [] i r = None"
| "last_separator (c # s) i r =
     (if c = 0 then Some r else last_separator s (Suc i) (if c = 92 \<or> c = 47 then Some i else r))"

text \<open>The argument \<open>g\<close> is the initial content of the local array.\<close>

definition extract_file_name_from_path_utf16 :: "u8 list \<Rightarrow> u8 list \<Rightarrow> ustr \<Rightarrow> ustr option" where
  "extract_file_name_from_path_utf16 g path file_name_u = do {
     last_slash \<leftarrow> last_separator path 0 None;
     l \<leftarrow> strlen path;
     bytes \<leftarrow> read_bytes path (case last_slash of Some i \<Rightarrow> i + 1 | None \<Rightarrow> 0) (unat l + 1);
     file_name \<leftarrow> put_all g 0 bytes;
     utf8_to_ustr256 file_name file_name_u }"

definition ustrlen :: "UNICODE_STRING option \<Rightarrow> u64" where
  "ustrlen p = (case p of Some u \<Rightarrow> if Buffer u = None then 0 else ucast (Length u div 2) | None \<Rightarrow> 0)"

text \<open>Units as bytes in memory.\<close>

definition bytes_of :: "u16 list \<Rightarrow> u8 list" where
  "bytes_of us = concat (map le16 us)"

fun units_of :: "u8 list \<Rightarrow> u16 list" where
  "units_of (a # b # bs) = (ucast a OR push_bit 8 (ucast b)) # units_of bs"
| "units_of bs = []"

definition concat_units :: "UNICODE_STRING \<Rightarrow> UNICODE_STRING \<Rightarrow> UNICODE_STRING \<Rightarrow> UNICODE_STRING option" where
  "concat_units dest src1 src2 = do {
     d \<leftarrow> Buffer dest;
     s1 \<leftarrow> Buffer src1;
     s2 \<leftarrow> Buffer src2;
     b1 \<leftarrow> read_bytes (bytes_of s1) 0 (unat (Length src1));
     d1 \<leftarrow> put_all (bytes_of d) 0 b1;
     b2 \<leftarrow> read_bytes (bytes_of s2) 0 (unat (Length src2));
     d2 \<leftarrow> put_all d1 (unat (Length src1) div 2) b2;
     Some (dest\<lparr>Buffer := Some (units_of d2), Length := Length src1 + Length src2\<rparr>) }"

definition ustrconcat :: "UNICODE_STRING option \<Rightarrow> UNICODE_STRING option \<Rightarrow> UNICODE_STRING option \<Rightarrow> UNICODE_STRING option option" where
  "ustrconcat dest src1 src2 =
     (case (dest, src1, src2) of
        (Some d, Some s1, Some s2) \<Rightarrow>
          if unat (Length s1) + unat (Length s2) > unat (MaximumLength d) then Some dest
          else map_option Some (concat_units d s1 s2)
      | _ \<Rightarrow> Some dest)"

definition ustrcpy_from_str :: "UNICODE_STRING \<Rightarrow> u8 list \<Rightarrow> UNICODE_STRING option" where
  "ustrcpy_from_str dst src = do {
     src_len \<leftarrow> strlen src;
     b \<leftarrow> Buffer dst;
     (utf16_len, b') \<leftarrow> utf8_to_utf16 src (unat src_len) b (unat (MaximumLength dst) div 2);
     Some (dst\<lparr>Buffer := Some b', Length := of_nat (utf16_len * 2)\<rparr>) }"

text \<open>
  The length that \<^verbatim>\<open>ustr_to_utf8\<close> asks for with no room is always 0, so nothing is converted; and the second
  string of \<^verbatim>\<open>ustrconcat\<close> is written over the second half of the first.
\<close>

lemma ustr_to_utf8_does_nothing:
  assumes "Buffer u = Some b" "1 < length b"
  shows "ustr_to_utf8 u utf8_str n = Some utf8_str"
proof -
  have "encode8 cp \<noteq> []" for cp by (simp add: encode8_def)
  moreover have "0 < length b" "decode16 b (unat (Length u)) 0 \<noteq> None"
    using assms(2) by (auto simp: decode16_def nth_opt_def)
  ultimately have "utf16_to_utf8 b (unat (Length u)) [] 0 = Some (0, [])"
    by (auto simp: utf16_to_utf8_def utf16_to_utf8_loop.simps)
  then show ?thesis using assms by (simp add: ustr_to_utf8_def)
qed

lemma ustrconcat_overwrites:
  "ustrconcat (Some \<lparr>Length = 0, MaximumLength = 8, Buffer = Some [0, 0, 0, 0]\<rparr>)
     (Some \<lparr>Length = 4, MaximumLength = 4, Buffer = Some [65, 66]\<rparr>) (Some \<lparr>Length = 4, MaximumLength = 4, Buffer = Some [67, 68]\<rparr>)
   = Some (Some \<lparr>Length = 8, MaximumLength = 8, Buffer = Some [65, 67, 68, 0]\<rparr>)"
  by code_simp

section \<open>Lists of loaded libraries\<close>

record LIST_ENTRY =
  le_next :: u64
  le_prev :: u64

type_synonym links = "u64 \<rightharpoonup> LIST_ENTRY"

definition set_next :: "links \<Rightarrow> u64 \<Rightarrow> u64 \<Rightarrow> links option" where
  "set_next h a v = do { e \<leftarrow> h a; Some (h(a \<mapsto> e\<lparr>le_next := v\<rparr>)) }"

definition set_prev :: "links \<Rightarrow> u64 \<Rightarrow> u64 \<Rightarrow> links option" where
  "set_prev h a v = do { e \<leftarrow> h a; Some (h(a \<mapsto> e\<lparr>le_prev := v\<rparr>)) }"

definition add_item_to_bottom_of_linked_list :: "links \<Rightarrow> u64 \<Rightarrow> u64 \<Rightarrow> links option" where
  "add_item_to_bottom_of_linked_list h l item = do {
     e \<leftarrow> h l;
     if le_next e = 0 then do {
       h1 \<leftarrow> set_next h l item;
       h2 \<leftarrow> set_prev h1 l item;
       h3 \<leftarrow> set_next h2 item l;
       set_prev h3 item l }
     else do {
       let last_item = le_prev e;
       h1 \<leftarrow> set_next h last_item item;
       h2 \<leftarrow> set_prev h1 item last_item;
       h3 \<leftarrow> set_next h2 item l;
       set_prev h3 l item } }"

text \<open>An entry of a library has 376 bytes and begins with its three links; the heads of the lists begin at byte 16 of their structure.\<close>

definition add_dll_to_bottom_of_linked_list :: "links \<Rightarrow> nat \<Rightarrow> u64 \<Rightarrow> u64 \<Rightarrow> links option" where
  "add_dll_to_bottom_of_linked_list h new_dll_id loaded_dlls_list loaded_dll = do {
     let newly_loaded_dll = loaded_dll + of_nat (376 * new_dll_id);
     h1 \<leftarrow> add_item_to_bottom_of_linked_list h (loaded_dlls_list + 16) newly_loaded_dll;
     h2 \<leftarrow> add_item_to_bottom_of_linked_list h1 (loaded_dlls_list + 32) (newly_loaded_dll + 16);
     add_item_to_bottom_of_linked_list h2 (loaded_dlls_list + 48) (newly_loaded_dll + 32) }"

text \<open>
  The rest of the entry of a library: its two names in UTF-16, as bytes, and the counted strings for them.  The
  arguments \<open>g\<close> are the initial contents of local variables.
\<close>

record loaded_dll =
  DllBase :: u64
  full_length :: u16
  full_max :: u16
  base_length :: u16
  base_max :: u16
  buffers_own :: bool
  full_name :: "u8 list"
  base_name :: "u8 list"

definition setup_base_name_full_path :: "ustr \<Rightarrow> ustr \<Rightarrow> u8 list \<Rightarrow> u8 list \<Rightarrow> loaded_dll \<Rightarrow> loaded_dll option" where
  "setup_base_name_full_path g1 g2 g3 path dll = do {
     l \<leftarrow> strlen path;
     path_u \<leftarrow> utf8_to_ustr256 path g1;
     b \<leftarrow> read_bytes (bytes_of (buffer path_u)) 0 (unat (len path_u) + 2);
     full \<leftarrow> put_all (full_name dll) 0 b;
     nm \<leftarrow> extract_file_name_from_path_utf16 g3 path g2;
     c \<leftarrow> read_bytes (bytes_of (buffer nm)) 0 (unat (len nm) + 2);
     base \<leftarrow> put_all (base_name dll) 0 c;
     Some (dll\<lparr>full_length := ucast l, full_max := 256, full_name := full, base_name := base, base_length := len nm, base_max := 32,
       buffers_own := True\<rparr>) }"

definition add_loaded_dll :: "ustr \<Rightarrow> ustr \<Rightarrow> u8 list \<Rightarrow> links \<Rightarrow> loaded_dll list \<Rightarrow> nat \<Rightarrow> u8 list \<Rightarrow> u64 \<Rightarrow> u64 \<Rightarrow> u64
    \<Rightarrow> (links \<times> loaded_dll list) option" where
  "add_loaded_dll g1 g2 g3 h dlls dll_id path loaded_dlls_list loaded_dll image_base_addr = do {
     d \<leftarrow> nth_opt dlls dll_id;
     d' \<leftarrow> setup_base_name_full_path g1 g2 g3 path (d\<lparr>DllBase := image_base_addr\<rparr>);
     h' \<leftarrow> add_dll_to_bottom_of_linked_list h dll_id loaded_dlls_list loaded_dll;
     Some (h', dlls[dll_id := d']) }"

text \<open>A closed list: next and previous lead from the head through the items and back.\<close>

definition edge :: "links \<Rightarrow> u64 \<Rightarrow> u64 \<Rightarrow> bool" where
  "edge h a b \<longleftrightarrow> (\<exists>e f. h a = Some e \<and> le_next e = b \<and> h b = Some f \<and> le_prev f = a)"

definition closed_list :: "links \<Rightarrow> u64 \<Rightarrow> u64 list \<Rightarrow> bool" where
  "closed_list h l xs \<longleftrightarrow> distinct (l # xs) \<and> 0 \<notin> set xs \<and>
     (if xs = [] then \<exists>e. h l = Some e \<and> le_next e = 0 else successively (edge h) (l # xs @ [l]))"

lemma set_links [simp]:
  "h a = Some e \<Longrightarrow> set_next h a v = Some (h(a \<mapsto> e\<lparr>le_next := v\<rparr>))"
  "h a = Some e \<Longrightarrow> set_prev h a v = Some (h(a \<mapsto> e\<lparr>le_prev := v\<rparr>))"
  by (simp_all add: set_next_def set_prev_def)

lemma edge_kept:
  assumes "edge h a b" "\<And>e. h a = Some e \<Longrightarrow> \<exists>e'. h' a = Some e' \<and> le_next e' = le_next e"
    and "\<And>e. h b = Some e \<Longrightarrow> \<exists>e'. h' b = Some e' \<and> le_prev e' = le_prev e"
  shows "edge h' a b"
proof -
  obtain e f where "h a = Some e" "le_next e = b" "h b = Some f" "le_prev f = a" using assms(1) by (auto simp: edge_def)
  moreover obtain e' f' where "h' a = Some e'" "le_next e' = le_next e" "h' b = Some f'" "le_prev f' = le_prev f"
    using assms(2) [OF \<open>h a = Some e\<close>] assms(3) [OF \<open>h b = Some f\<close>] by auto
  ultimately show ?thesis by (simp add: edge_def)
qed

lemma successively_kept:
  assumes "successively (edge h) xs" "\<And>a b. \<lbrakk>a \<in> set (butlast xs); b \<in> set (tl xs); edge h a b\<rbrakk> \<Longrightarrow> edge h' a b"
  shows "successively (edge h') xs"
  using assms
proof (induction xs rule: induct_list012)
  case (3 x y zs)
  have "successively (edge h') (y # zs)" using 3(3,4) by (intro 3(2)) (auto dest: in_set_butlastD)
  moreover have "edge h' x y" using 3(3,4) by simp
  ultimately show ?case by simp
qed simp_all

lemma list_item_added:
  assumes "closed_list h l xs" "item \<notin> set (l # xs)" "item \<noteq> 0" "h item = Some e0"
  shows "\<exists>h'. add_item_to_bottom_of_linked_list h l item = Some h' \<and> closed_list h' l (xs @ [item])
    \<and> (\<forall>a. a \<notin> set (item # l # xs) \<longrightarrow> h' a = h a)"
proof (cases xs rule: rev_cases)
  case Nil
  then obtain e where "h l = Some e" "le_next e = 0" using assms(1) by (auto simp: closed_list_def)
  then show ?thesis using assms Nil by (auto simp: add_item_to_bottom_of_linked_list_def closed_list_def edge_def)
next
  case (snoc ys z)
  have d: "distinct (l # ys @ [z, item])" and z: "0 \<notin> set (ys @ [z, item])" using assms(1-3) snoc by (auto simp: closed_list_def)
  have "successively (edge h) ((l # ys @ [z]) @ [l])" using assms(1) snoc by (simp add: closed_list_def)
  then have s: "successively (edge h) (l # ys @ [z])" and "edge h z l" unfolding successively_append_iff by simp_all
  then obtain e f where e: "h z = Some e" "le_next e = l" "h l = Some f" "le_prev f = z" by (auto simp: edge_def)
  have "le_next f \<noteq> 0" using s z e(3) by (cases ys) (auto simp: edge_def)
  let ?h = "h(z \<mapsto> e\<lparr>le_next := item\<rparr>, item \<mapsto> e0\<lparr>le_prev := z, le_next := l\<rparr>, l \<mapsto> f\<lparr>le_prev := item\<rparr>)"
  have r: "add_item_to_bottom_of_linked_list h l item = Some ?h"
    using e assms(4) d \<open>le_next f \<noteq> 0\<close> by (auto simp: add_item_to_bottom_of_linked_list_def Let_def fun_upd_twist)
  have "successively (edge ?h) (l # ys @ [z])"
    by (rule successively_kept [OF s], erule edge_kept) (use d e in \<open>auto simp: butlast_append\<close>)
  moreover have "edge ?h z item" "edge ?h item l" using d by (auto simp: edge_def)
  ultimately have "successively (edge ?h) ((l # ys @ [z]) @ [item, l])" unfolding successively_append_iff by simp
  then have "closed_list ?h l (xs @ [item])" using d z snoc by (auto simp: closed_list_def)
  then show ?thesis using r snoc by auto
qed

lemma closed_list_frame:
  assumes "closed_list h l xs" "\<And>a. a \<in> set (l # xs) \<Longrightarrow> h' a = h a"
  shows "closed_list h' l xs"
proof (cases "xs = []")
  case False
  then have "successively (edge h) (l # xs @ [l])" using assms(1) by (simp add: closed_list_def)
  then have "successively (edge h') (l # xs @ [l])"
    by (rule successively_kept) (use assms(2) in \<open>auto simp: edge_def dest: in_set_butlastD\<close>)
  then show ?thesis using assms(1) False by (simp add: closed_list_def)
qed (use assms in \<open>auto simp: closed_list_def\<close>)

text \<open>
  C36.  Loading a library.  When the three lists of libraries are closed and the entry is not in them, the entry is
  appended to each: from the head, next leads through the libraries in the order of loading and prev through
  them in the opposite order.
\<close>

theorem dll_appended:
  assumes "closed_list h (L + 16) xs" "closed_list h (L + 32) ys" "closed_list h (L + 48) zs"
    and a: "a = D + of_nat (376 * i)" "0 \<notin> {a, a + 16, a + 32}" "{a, a + 16, a + 32} \<subseteq> dom h"
    and d: "distinct ([a, a + 16, a + 32, L + 16, L + 32, L + 48] @ xs @ ys @ zs)"
  shows "\<exists>h'. add_dll_to_bottom_of_linked_list h i L D = Some h' \<and> closed_list h' (L + 16) (xs @ [a])
    \<and> closed_list h' (L + 32) (ys @ [a + 16]) \<and> closed_list h' (L + 48) (zs @ [a + 32])"
proof -
  obtain e1 e2 e3 where e: "h a = Some e1" "h (a + 16) = Some e2" "h (a + 32) = Some e3" using a(3) by auto
  obtain h1 where h1: "add_item_to_bottom_of_linked_list h (L + 16) a = Some h1" "closed_list h1 (L + 16) (xs @ [a])"
    "\<forall>b. b \<notin> set (a # (L + 16) # xs) \<longrightarrow> h1 b = h b"
    using list_item_added [OF assms(1), of a] e a(2) d by auto
  have c1: "closed_list h1 (L + 32) ys" "closed_list h1 (L + 48) zs" "h1 (a + 16) = Some e2" "h1 (a + 32) = Some e3"
    using d e by (auto intro!: closed_list_frame [OF assms(2)] closed_list_frame [OF assms(3)] h1(3) [rule_format] simp: h1(3))
  obtain h2 where h2: "add_item_to_bottom_of_linked_list h1 (L + 32) (a + 16) = Some h2" "closed_list h2 (L + 32) (ys @ [a + 16])"
    "\<forall>b. b \<notin> set ((a + 16) # (L + 32) # ys) \<longrightarrow> h2 b = h1 b"
    using list_item_added [OF c1(1), of "a + 16"] c1 a(2) d by auto
  have c2: "closed_list h2 (L + 16) (xs @ [a])" "closed_list h2 (L + 48) zs" "h2 (a + 32) = Some e3"
    using d c1 by (auto intro!: closed_list_frame [OF h1(2)] closed_list_frame [OF c1(2)] h2(3) [rule_format] simp: h2(3))
  obtain h3 where h3: "add_item_to_bottom_of_linked_list h2 (L + 48) (a + 32) = Some h3" "closed_list h3 (L + 48) (zs @ [a + 32])"
    "\<forall>b. b \<notin> set ((a + 32) # (L + 48) # zs) \<longrightarrow> h3 b = h2 b"
    using list_item_added [OF c2(2), of "a + 32"] c2 a(2) d by auto
  have "closed_list h3 (L + 16) (xs @ [a])" "closed_list h3 (L + 32) (ys @ [a + 16])"
    using d by (auto intro!: closed_list_frame [OF c2(1)] closed_list_frame [OF h2(2)] h3(3) [rule_format] simp: h3(3))
  then show ?thesis using h1(1) h2(1) h3(1,2) unfolding add_dll_to_bottom_of_linked_list_def Let_def a(1) [symmetric] by simp
qed

text \<open>The second library, with the lists at 0x1000 and the entries from 0x2000.\<close>

definition example_links :: links where
  "example_links = map_of [
     (0x1010, \<lparr>le_next = 0x2000, le_prev = 0x2000\<rparr>), (0x2000, \<lparr>le_next = 0x1010, le_prev = 0x1010\<rparr>),
     (0x1020, \<lparr>le_next = 0x2010, le_prev = 0x2010\<rparr>), (0x2010, \<lparr>le_next = 0x1020, le_prev = 0x1020\<rparr>),
     (0x1030, \<lparr>le_next = 0x2020, le_prev = 0x2020\<rparr>), (0x2020, \<lparr>le_next = 0x1030, le_prev = 0x1030\<rparr>),
     (0x2178, \<lparr>le_next = 0, le_prev = 0\<rparr>), (0x2188, \<lparr>le_next = 0, le_prev = 0\<rparr>), (0x2198, \<lparr>le_next = 0, le_prev = 0\<rparr>)]"

lemma example_links [simp]:
  "example_links 0x1010 = Some \<lparr>le_next = 0x2000, le_prev = 0x2000\<rparr>" "example_links 0x2000 = Some \<lparr>le_next = 0x1010, le_prev = 0x1010\<rparr>"
  "example_links 0x1020 = Some \<lparr>le_next = 0x2010, le_prev = 0x2010\<rparr>" "example_links 0x2010 = Some \<lparr>le_next = 0x1020, le_prev = 0x1020\<rparr>"
  "example_links 0x1030 = Some \<lparr>le_next = 0x2020, le_prev = 0x2020\<rparr>" "example_links 0x2020 = Some \<lparr>le_next = 0x1030, le_prev = 0x1030\<rparr>"
  "example_links 0x2178 = Some \<lparr>le_next = 0, le_prev = 0\<rparr>" "example_links 0x2188 = Some \<lparr>le_next = 0, le_prev = 0\<rparr>"
  "example_links 0x2198 = Some \<lparr>le_next = 0, le_prev = 0\<rparr>"
  by (simp_all add: example_links_def)

theorem dll_appended_witness:
  "\<exists>h'. add_dll_to_bottom_of_linked_list example_links 1 0x1000 0x2000 = Some h' \<and> closed_list h' 0x1010 [0x2000, 0x2178]
    \<and> closed_list h' 0x1020 [0x2010, 0x2188] \<and> closed_list h' 0x1030 [0x2020, 0x2198]"
proof -
  have "closed_list example_links 0x1010 [0x2000]" "closed_list example_links 0x1020 [0x2010]" "closed_list example_links 0x1030 [0x2020]"
    by (simp_all add: closed_list_def edge_def)
  then show ?thesis
    using dll_appended [of example_links "0x1000" "[0x2000]" "[0x2010]" "[0x2020]" "0x2178" "0x2000" 1] by (simp add: dom_def)
qed

end
