(* ===== verification/Elf.thy ===== *)
theory Elf
  imports Paths Paging
begin

text \<open>
  The loader of ELF programs (\<^verbatim>\<open>core/elf/loader.h\<close>): mapping and loading of segments, shared objects, and
  the initial stack of a program.  The page tables are those of the paging component; the bytes of the
  address space that is switched to are a function from addresses.  Files are read by an argument, which
  \<open>vfs_reader\<close> makes from the mount points and a driver.
\<close>

section \<open>Words of 64 bits in byte arrays\<close>

definition le64 :: "u64 \<Rightarrow> u8 list" where
  "le64 w = le32 (ucast w) @ le32 (ucast (drop_bit 32 w))"

definition read64 :: "u8 list \<Rightarrow> nat \<Rightarrow> u64 option" where
  "read64 buf i = do { lo \<leftarrow> read32 buf i; hi \<leftarrow> read32 buf (i + 4); Some (ucast lo OR push_bit 32 (ucast hi)) }"

section \<open>Reading files\<close>

text \<open>A reader gets the path, the buffer, the offset and the number of bytes.\<close>

type_synonym reader = "u8 list \<Rightarrow> u8 list \<Rightarrow> u64 \<Rightarrow> u64 \<Rightarrow> (int \<times> u8 list) option"

definition vfs_reader :: "(u64 \<Rightarrow> u8 list \<Rightarrow> u8 list \<Rightarrow> u64 \<Rightarrow> u64 \<Rightarrow> u8 list option) \<Rightarrow> mount_point table \<Rightarrow> u8 list \<Rightarrow> reader" where
  "vfs_reader rd mounts child path buf start count = do {
     (r, b) \<leftarrow> read_file rd mounts child path (Some buf) start count;
     b' \<leftarrow> b;
     Some (r, b') }"

text \<open>A part of an array, or of the address space, is handed to the reader.\<close>

definition read_into :: "reader \<Rightarrow> u8 list \<Rightarrow> u8 list \<Rightarrow> nat \<Rightarrow> u64 \<Rightarrow> u64 \<Rightarrow> (int \<times> u8 list) option" where
  "read_into rd path img pos start count =
     (if pos + unat count \<le> length img then do {
        (rs, b) \<leftarrow> rd path (slice pos (unat count) img) start count;
        Some (rs, put_slice pos (take (unat count) b) img) }
      else None)"

definition mem_bytes :: "memory \<Rightarrow> u64 \<Rightarrow> nat \<Rightarrow> u8 list" where
  "mem_bytes mem a n = map (\<lambda>i. mem (a + of_nat i)) [0..<n]"

definition mem_put :: "memory \<Rightarrow> u64 \<Rightarrow> u8 list \<Rightarrow> memory" where
  "mem_put mem a bs = (\<lambda>x. if unat (x - a) < length bs then bs ! unat (x - a) else mem x)"

definition read_mem :: "reader \<Rightarrow> u8 list \<Rightarrow> memory \<Rightarrow> u64 \<Rightarrow> u64 \<Rightarrow> u64 \<Rightarrow> (int \<times> memory) option" where
  "read_mem rd path mem a start count = do {
     (rs, b) \<leftarrow> rd path (mem_bytes mem a (unat count)) start count;
     Some (rs, mem_put mem a (take (unat count) b)) }"

section \<open>Segments\<close>

record elf_header_t =
  e_entry :: u64
  e_phoff :: u64
  e_phnum :: u16

record pht_entry_t =
  p_type :: u32
  p_offset :: u64
  p_vaddr :: u64
  p_filesz :: u64
  p_memsz :: u64

definition elf_header_of :: "u8 list \<Rightarrow> elf_header_t option" where
  "elf_header_of b = do {
     e \<leftarrow> read64 b 24;
     o1 \<leftarrow> read64 b 32;
     n \<leftarrow> read16 b 56;
     Some \<lparr>e_entry = e, e_phoff = o1, e_phnum = n\<rparr> }"

definition pht_entry_of :: "u8 list \<Rightarrow> nat \<Rightarrow> pht_entry_t option" where
  "pht_entry_of b i = do {
     t \<leftarrow> read32 b (56 * i);
     o1 \<leftarrow> read64 b (56 * i + 8);
     v \<leftarrow> read64 b (56 * i + 16);
     f \<leftarrow> read64 b (56 * i + 32);
     m \<leftarrow> read64 b (56 * i + 40);
     Some \<lparr>p_type = t, p_offset = o1, p_vaddr = v, p_filesz = f, p_memsz = m\<rparr> }"

definition is_elf :: "u8 list \<Rightarrow> bool option" where
  "is_elf buffer = do {
     b0 \<leftarrow> nth_opt buffer 0;
     if b0 \<noteq> 0x7F then Some False
     else do { b \<leftarrow> read_bytes buffer 1 3; Some (b = [69, 76, 70]) } }"

text \<open>The loop over the pages of a region does not end when the end of the region is in the last page of all.\<close>

partial_function (option) extend_pages :: "vm \<Rightarrow> u64 \<Rightarrow> u64 \<Rightarrow> u64 \<Rightarrow> vm option" where
  "extend_pages s pid i last_addr =
     (if i \<le> last_addr then do {
        (_, s') \<leftarrow> increase_paging_of_process_with_virt_addr s pid i;
        extend_pages s' pid (i + 4096) last_addr }
      else Some s)"

definition extend_cr3 :: "vm \<Rightarrow> u64 \<Rightarrow> u64 \<Rightarrow> u64 \<Rightarrow> vm option" where
  "extend_cr3 s pid virtual_mem_offset pht_size_in_mem =
     extend_pages s pid (virtual_mem_offset div 4096 * 4096) (virtual_mem_offset + pht_size_in_mem)"

definition load_pht_to_memory :: "reader \<Rightarrow> u8 list \<Rightarrow> pht_entry_t \<Rightarrow> u64 \<Rightarrow> u64 \<Rightarrow> vm \<times> memory \<Rightarrow> (u64 \<times> vm \<times> memory) option" where
  "load_pht_to_memory rd path pht_e pid start_offset st =
     (if p_type pht_e \<noteq> 1 then Some (0, st)
      else do {
        let virtual_mem_offset = p_vaddr pht_e + start_offset;
        s \<leftarrow> extend_cr3 (fst st) pid virtual_mem_offset (p_memsz pht_e);
        if p_filesz pht_e > p_memsz pht_e then Some (- 1, s, snd st)
        else do {
          (rs, m) \<leftarrow> read_mem rd path (snd st) virtual_mem_offset (p_offset pht_e) (p_filesz pht_e);
          if rs < 0 then Some (- 2, s, m)
          else Some (p_memsz pht_e, s,
            if p_memsz pht_e > p_filesz pht_e
            then erase_mem8 m (virtual_mem_offset + p_filesz pht_e) (p_memsz pht_e - p_filesz pht_e) else m) } })"

fun load_phts :: "nat \<Rightarrow> nat \<Rightarrow> u8 list \<Rightarrow> reader \<Rightarrow> u8 list \<Rightarrow> u64 \<Rightarrow> u64 \<Rightarrow> vm \<times> memory \<Rightarrow> (vm \<times> memory) option" where
  "load_phts 0 i entries rd path pid start_offset st = Some st"
| "load_phts (Suc k) i entries rd path pid start_offset st = do {
     e \<leftarrow> pht_entry_of entries i;
     (_, st') \<leftarrow> load_pht_to_memory rd path e pid start_offset st;
     load_phts k (Suc i) entries rd path pid start_offset st' }"

text \<open>
  The arguments \<open>g1\<close>, \<open>g2\<close> and \<open>g3\<close> are the initial contents of the local arrays.  The status of the file is asked for, but
  only its size is kept, which is not used; \<open>stat\<close> says whether the call returns.
\<close>

definition load_so :: "reader \<Rightarrow> (u8 list \<Rightarrow> unit option) \<Rightarrow> u8 list \<Rightarrow> u8 list \<Rightarrow> (nat \<Rightarrow> u8 list) \<Rightarrow> u8 list \<Rightarrow> u64 \<Rightarrow> u64
    \<Rightarrow> vm \<times> memory \<Rightarrow> (u64 \<times> vm \<times> memory) option" where
  "load_so rd stat g1 g2 g3 path pid start_offset st = do {
     (_, buffer_elf) \<leftarrow> read_into rd path g1 0 0 4;
     elf \<leftarrow> is_elf buffer_elf;
     if \<not> elf then Some (- 1, st)
     else do {
       _ \<leftarrow> stat path;
       (_, buffer_elf_header) \<leftarrow> read_into rd path g2 0 0 64;
       elf_header \<leftarrow> elf_header_of buffer_elf_header;
       let n = unat (e_phnum elf_header);
       if n > 16 then Some (- 2, st)
       else do {
         (_, entries) \<leftarrow> read_into rd path (g3 (n * 56)) 0 (e_phoff elf_header) (of_nat (n * 56));
         st' \<leftarrow> load_phts n 0 entries rd path pid start_offset st;
         Some (e_entry elf_header + start_offset, st') } } }"

section \<open>The initial stack\<close>

text \<open>An array of strings that ends with a null pointer is a list of strings.\<close>

definition count_strings :: "u8 list list option \<Rightarrow> nat" where
  "count_strings arr = (case arr of None \<Rightarrow> 0 | Some ss \<Rightarrow> length ss)"

definition align_up :: "u64 \<Rightarrow> u64 \<Rightarrow> u64 option" where
  "align_up num alignment = do { q \<leftarrow> div_ceil num alignment; Some (q * alignment) }"

definition align_down_16_8 :: "u64 \<Rightarrow> u64" where
  "align_down_16_8 num =
     (let align_16 = num div 16 * 16;
          align_16' = (if num mod 16 < 8 then align_16 - 16 else align_16)
      in align_16' + 8)"

text \<open>Strings are put below each other; the result has their addresses, in order.\<close>

fun push_strings :: "u8 list list \<Rightarrow> u64 \<Rightarrow> memory \<Rightarrow> (u64 list \<times> u64 \<times> memory) option" where
  "push_strings [] rsp mem = Some ([], rsp, mem)"
| "push_strings (s # ss) rsp mem = do {
     l \<leftarrow> strlen s;
     let rsp' = rsp - (l + 1);
     bytes \<leftarrow> read_bytes s 0 (unat l + 1);
     (ps, rsp'', mem') \<leftarrow> push_strings ss rsp' (mem_put mem rsp' bytes);
     Some (rsp' # ps, rsp'', mem') }"

definition auxv_bytes :: "(u64 \<times> u64) list \<Rightarrow> u8 list" where
  "auxv_bytes xs = concat (map (\<lambda>(t, v). le64 t @ le64 v) xs)"

definition auxv_default :: "u64 \<Rightarrow> u64 \<Rightarrow> u64 \<Rightarrow> u64 \<Rightarrow> u64 \<Rightarrow> u64 \<Rightarrow> (u64 \<times> u64) list" where
  "auxv_default phdr_addr count_loaded_sections entry ld_so_entry random_addr arg0_ptr =
     [(3, phdr_addr), (4, 56), (5, count_loaded_sections), (9, entry), (6, 0x1000), (7, ld_so_entry),
      (25, random_addr), (31, arg0_ptr), (11, 0), (12, 0), (13, 0), (14, 0), (0, 0)]"

text \<open>What is put below the strings: the padding, the vector and the pointers.\<close>

definition push_words :: "u64 list \<Rightarrow> u64 \<times> memory \<Rightarrow> u64 \<times> memory" where
  "push_words ws st = (let rsp = fst st - of_nat (8 * length ws) in (rsp, mem_put (snd st) rsp (concat (map le64 ws))))"

definition init_pointers :: "u64 list \<Rightarrow> u64 list \<Rightarrow> (u64 \<times> u64) list \<Rightarrow> u64 \<Rightarrow> memory \<Rightarrow> u64 \<times> memory" where
  "init_pointers argv_ptr envp_ptr auxv rsp mem =
     (let rsp_bottom = rsp - of_nat (16 * length auxv) - of_nat (8 * length argv_ptr) - of_nat (8 * length envp_ptr) - 8 - 16;
          padding_size = rsp_bottom - align_down_16_8 rsp_bottom;
          rsp1 = rsp - padding_size;
          mem1 = erase_mem8 mem rsp1 padding_size;
          rsp2 = rsp1 - of_nat (16 * length auxv);
          mem2 = mem_put mem1 rsp2 (auxv_bytes auxv);
          st1 = push_words [0] (rsp2, mem2);
          st2 = push_words argv_ptr st1;
          st3 = push_words [0] st2;
          st4 = push_words envp_ptr st3;
          st5 = push_words [of_nat (length argv_ptr)] st4
      in push_words [0] st5)"

text \<open>The random bytes are an argument; they are written without moving the stack pointer.\<close>

definition init_stack :: "u8 list \<Rightarrow> u64 \<Rightarrow> u8 list list option \<Rightarrow> u8 list list option \<Rightarrow> u64 \<Rightarrow> u64 \<Rightarrow> u64 \<Rightarrow> elf_header_t
    \<Rightarrow> memory \<Rightarrow> (u64 \<times> memory) option" where
  "init_stack random stack_addr argv envp phdr_addr count_loaded_sections ld_so_entry elf_header mem = do {
     (argv_ptr, rsp1, mem1) \<leftarrow> push_strings (take (count_strings argv) (case argv of None \<Rightarrow> [] | Some ss \<Rightarrow> ss)) (stack_addr - 8) mem;
     let arg0_ptr = (if argv_ptr = [] then 0 else hd argv_ptr);
     let (rsp2, mem2) = push_words [0] (rsp1, mem1);
     (envp_ptr, rsp3, mem3) \<leftarrow> push_strings (take (count_strings envp) (case envp of None \<Rightarrow> [] | Some ss \<Rightarrow> ss)) rsp2 mem2;
     let (rsp4, mem4) = push_words [0] (rsp3, mem3);
     let mem5 = mem_put mem4 rsp4 (take 16 random);
     Some (init_pointers argv_ptr envp_ptr
       (auxv_default phdr_addr count_loaded_sections (e_entry elf_header) ld_so_entry rsp4 arg0_ptr) rsp4 mem5) }"

section \<open>Bytes in memory\<close>

lemma length_le64 [simp]: "length (le64 w) = 8"
  by (simp add: le64_def)

lemma length_words [simp]: "length (concat (map le64 ws)) = 8 * length ws"
  by (induction ws) simp_all

lemma length_mem_bytes [simp]: "length (mem_bytes m a n) = n"
  by (simp add: mem_bytes_def)

lemma unat_plus_of_nat: "unat a + n < 2 ^ 64 \<Longrightarrow> unat (a + of_nat n :: u64) = unat a + n"
  by (simp add: unat_word_ariths unat_of_nat take_bit_nat_eq_self)

lemma unat_minus_of_nat: "n \<le> unat a \<Longrightarrow> unat (a - of_nat n :: u64) = unat a - n"
  using unat_bound [of a] by (simp add: unat_sub_if' unat_of_nat take_bit_nat_eq_self)

lemma mem_bytes_nth: "i < n \<Longrightarrow> mem_bytes m a n ! i = m (a + of_nat i)"
  by (simp add: mem_bytes_def)

lemma mem_bytes_append: "mem_bytes m a (n + k) = mem_bytes m a n @ mem_bytes m (a + of_nat n) k"
  by (rule nth_equalityI) (auto simp: mem_bytes_nth nth_append of_nat_diff)

lemma mem_put_out:
  assumes "unat x < unat a \<or> unat a + length bs \<le> unat x" "unat a + length bs \<le> 2 ^ 64"
  shows "mem_put m a bs x = m x"
proof -
  have "length bs \<le> unat (x - a)" using assms unat_bound [of x] by (auto simp: unat_sub_if')
  then show ?thesis by (simp add: mem_put_def)
qed

lemma mem_put_in: "k < length bs \<Longrightarrow> k < 2 ^ 64 \<Longrightarrow> mem_put m a bs (a + of_nat k) = bs ! k"
  by (simp add: mem_put_def unat_of_nat take_bit_nat_eq_self)

lemma mem_bytes_put_same: "length bs \<le> 2 ^ 64 \<Longrightarrow> n = length bs \<Longrightarrow> mem_bytes (mem_put m a bs) a n = bs"
  by (rule nth_equalityI) (simp_all add: mem_bytes_nth mem_put_in)

lemma mem_bytes_eq:
  assumes "unat a + n \<le> 2 ^ 64" "\<And>x. unat a \<le> unat x \<Longrightarrow> unat x < unat a + n \<Longrightarrow> m x = m' x"
  shows "mem_bytes m a n = mem_bytes m' a n"
  by (rule nth_equalityI) (use assms in \<open>auto simp: mem_bytes_nth unat_plus_of_nat\<close>)

lemma mem_put_append:
  assumes "length xs + length ys \<le> 2 ^ 64"
  shows "mem_put (mem_put m (a + of_nat (length xs)) ys) a xs = mem_put m a (xs @ ys)"
proof
  fix x
  let ?d = "unat (x - a)"
  show "mem_put (mem_put m (a + of_nat (length xs)) ys) a xs x = mem_put m a (xs @ ys) x"
  proof (cases "?d < length xs")
    case False
    have "unat (x - (a + of_nat (length xs))) = ?d - length xs" using unat_minus_of_nat [of "length xs" "x - a"] False by (simp add: diff_diff_eq)
    then show ?thesis using False by (auto simp: mem_put_def nth_append)
  qed (simp add: mem_put_def nth_append)
qed

lemma mem_put_append_above:
  assumes "length xs + length ys < 2 ^ 64"
  shows "mem_put (mem_put m a xs) (a + of_nat (length xs)) ys = mem_put m a (xs @ ys)"
proof
  fix x
  let ?d = "unat (x - a)"
  have n: "unat (of_nat (length xs) :: u64) = length xs" using assms by (intro unat_of_nat_lt) simp
  have "unat (x - a - of_nat (length xs)) = (if length xs \<le> ?d then ?d - length xs else ?d + 2 ^ 64 - length xs)"
    using n by (simp only: unat_sub_if' [of "x - a" "of_nat (length xs)"]) simp
  then show "mem_put (mem_put m a xs) (a + of_nat (length xs)) ys x = mem_put m a (xs @ ys) x"
    using assms by (auto simp: mem_put_def nth_append diff_diff_eq)
qed

lemma erase_mem8_put: "erase_mem8 m a n = mem_put m a (replicate (unat n) 0)"
proof
  fix x
  have "(\<exists>j<unat n. x = a + of_nat j) \<longleftrightarrow> unat (x - a) < unat n"
  proof
    assume "\<exists>j<unat n. x = a + of_nat j"
    then obtain j where "j < unat n" "x - a = of_nat j" by auto
    moreover have "j < 2 ^ 64" using \<open>j < unat n\<close> unat_bound [of n] by simp
    ultimately show "unat (x - a) < unat n" by (simp add: unat_of_nat take_bit_nat_eq_self)
  next
    assume "unat (x - a) < unat n"
    then show "\<exists>j<unat n. x = a + of_nat j" by (intro exI [of _ "unat (x - a)"]) simp
  qed
  then show "erase_mem8 m a n x = mem_put m a (replicate (unat n) 0) x"
    by (simp add: erase_mem8_def erase_mem8_from_spec mem_put_def)
qed

section \<open>The layout of the stack\<close>

lemma push_words_append:
  assumes "8 * (length xs + length ys) \<le> 2 ^ 64"
  shows "push_words xs (push_words ys st) = push_words (xs @ ys) st"
proof -
  let ?a = "fst st - of_nat (8 * (length xs + length ys)) :: u64"
  have a: "fst st - of_nat (8 * length ys) = ?a + of_nat (8 * length xs)" "?a + of_nat (8 * length xs) - of_nat (8 * length xs) = ?a"
    by (simp_all add: algebra_simps)
  have "mem_put (mem_put (snd st) (?a + of_nat (length (concat (map le64 xs)))) (concat (map le64 ys))) ?a (concat (map le64 xs))
    = mem_put (snd st) ?a (concat (map le64 xs) @ concat (map le64 ys))" using assms by (intro mem_put_append) simp
  then show ?thesis using a by (simp add: push_words_def Let_def diff_diff_eq add.commute)
qed

lemma auxv_words: "auxv_bytes xs = concat (map le64 (concat (map (\<lambda>(t, v). [t, v]) xs)))"
  by (induction xs) (auto simp: auxv_bytes_def)

lemma align_down_facts:
  shows "align_down_16_8 w mod 16 = 8" "unat (w - align_down_16_8 w) < 16"
proof -
  define q r where "q = w div 16 * 16" and "r = w mod 16"
  have w: "w = q + r" using div_mult_mod_eq [of w 16] by (simp add: q_def r_def)
  have r: "unat r < 16" by (simp add: r_def unat_mod)
  have al: "align_down_16_8 w = q + (if r < 8 then - 8 else 8)"
    unfolding align_down_16_8_def Let_def q_def r_def by simp
  have "unat w div 16 < 2 ^ 60" using unat_bound [of w] by (simp add: div_less_iff_less_mult)
  then obtain k where k: "unat q = 16 * k" "k < 2 ^ 60" by (simp add: q_def unat_word_ariths unat_div)
  have "unat (q + 8) = 16 * k + 8" using k by (simp add: unat_word_ariths)
  moreover have "unat (q - 8) = (if k = 0 then 2 ^ 64 - 8 else 16 * k - 8)" using k by (simp add: unat_sub_if')
  moreover have "(16 * k - 8) mod 16 = 8" if "k \<noteq> 0"
    using that mod_mult_self3 [of "k - 1" 16 8] by (cases k) simp_all
  ultimately have "unat (align_down_16_8 w) mod 16 = 8" unfolding al by auto
  then show "align_down_16_8 w mod 16 = 8" by (simp add: word_unat_eq_iff unat_mod)
  show "unat (w - align_down_16_8 w) < 16" unfolding al using r by (auto simp: w word_less_nat_alt unat_sub_if' unat_word_ariths)
qed

text \<open>The strings of a list lie below each other and keep their bytes.\<close>

definition string_bytes :: "u8 list \<Rightarrow> u8 list" where
  "string_bytes s = cstring s @ [0]"

lemma string_read:
  assumes "terminated s" "length (cstring s) < 2 ^ 64"
  shows "\<exists>l. strlen s = Some l \<and> unat l = length (cstring s) \<and> l + 1 = of_nat (length (string_bytes s))
    \<and> read_bytes s 0 (unat l + 1) = Some (string_bytes s)"
proof -
  obtain t where t: "s = cstring s @ 0 # t" using assms(1) terminated_split by blast
  have "length (cstring s) + 1 \<le> length s" using arg_cong [OF t, of length] by simp
  moreover have "take (length (cstring s) + 1) (cstring s @ 0 # t) = string_bytes s" by (simp add: string_bytes_def)
  then have "slice 0 (length (cstring s) + 1) s = string_bytes s" by (simp add: slice_def flip: t)
  ultimately show ?thesis using assms by (simp add: strlen_spec unat_of_nat_lt read_bytes_def string_bytes_def)
qed

lemma push_strings_spec:
  assumes "list_all terminated ss" "packed_size ss \<le> unat rsp"
  shows "\<exists>ps rsp' mem'. push_strings ss rsp mem = Some (ps, rsp', mem') \<and> length ps = length ss \<and> unat rsp' = unat rsp - packed_size ss
    \<and> (\<forall>i<length ss. unat rsp' \<le> unat (ps ! i) \<and> unat (ps ! i) + length (string_bytes (ss ! i)) \<le> unat rsp
         \<and> mem_bytes mem' (ps ! i) (length (string_bytes (ss ! i))) = string_bytes (ss ! i))
    \<and> (\<forall>x. unat x < unat rsp' \<or> unat rsp \<le> unat x \<longrightarrow> mem' x = mem x) \<and> (ss \<noteq> [] \<longrightarrow> last ps = rsp')"
  using assms
proof (induction ss arbitrary: rsp mem)
  case (Cons s ss)
  let ?n = "length (string_bytes s)"
  have n: "?n = length (cstring s) + 1" by (simp add: string_bytes_def)
  have "length (cstring s) < 2 ^ 64" using Cons.prems(2) unat_bound [of rsp] by simp
  then obtain l where l: "strlen s = Some l" "l + 1 = of_nat ?n" "read_bytes s 0 (unat l + 1) = Some (string_bytes s)"
    using string_read [of s] Cons.prems(1) by auto
  let ?r = "rsp - of_nat ?n" and ?m = "mem_put mem (rsp - of_nat ?n) (string_bytes s)"
  have r: "unat ?r = unat rsp - ?n" using Cons.prems(2) n by (intro unat_minus_of_nat) simp
  have fit: "unat ?r + ?n \<le> unat rsp" "unat ?r + ?n = unat rsp" "unat rsp < 2 ^ 64" using r Cons.prems(2) n unat_bound [of rsp] by simp_all
  have ps: "list_all terminated ss" "packed_size ss \<le> unat ?r" using Cons.prems r n by simp_all
  obtain ps rsp' mem' where IH: "push_strings ss ?r ?m = Some (ps, rsp', mem')" "length ps = length ss" "unat rsp' = unat ?r - packed_size ss"
    "\<forall>i<length ss. unat rsp' \<le> unat (ps ! i) \<and> unat (ps ! i) + length (string_bytes (ss ! i)) \<le> unat ?r
         \<and> mem_bytes mem' (ps ! i) (length (string_bytes (ss ! i))) = string_bytes (ss ! i)"
    "\<forall>x. unat x < unat rsp' \<or> unat ?r \<le> unat x \<longrightarrow> mem' x = ?m x" "ss \<noteq> [] \<longrightarrow> last ps = rsp'"
    using Cons.IH [OF ps, of ?m] by blast
  have "mem_bytes mem' ?r ?n = mem_bytes ?m ?r ?n" using IH(5) fit by (intro mem_bytes_eq) auto
  also have "\<dots> = string_bytes s" using fit by (intro mem_bytes_put_same) simp_all
  finally have b: "mem_bytes mem' ?r ?n = string_bytes s" .
  have o: "mem' x = mem x" if "unat x < unat rsp' \<or> unat rsp \<le> unat x" for x
  proof -
    have "mem' x = ?m x" using IH(3,5) fit that by auto
    also have "\<dots> = mem x" using IH(3) fit that by (intro mem_put_out) auto
    finally show ?thesis .
  qed
  have "push_strings (s # ss) rsp mem = Some (?r # ps, rsp', mem')" using l IH(1) by simp
  moreover have "unat rsp' = unat rsp - packed_size (s # ss)" using IH(3) r n by simp
  moreover have "\<forall>i<length (s # ss). unat rsp' \<le> unat ((?r # ps) ! i) \<and> unat ((?r # ps) ! i) + length (string_bytes ((s # ss) ! i)) \<le> unat rsp
      \<and> mem_bytes mem' ((?r # ps) ! i) (length (string_bytes ((s # ss) ! i))) = string_bytes ((s # ss) ! i)"
    using IH(3,4) b fit by (auto simp: All_less_Suc2)
  moreover have "last (?r # ps) = rsp'" using IH(1,2,6) by (cases ss) auto
  ultimately show ?case using IH(2) o by (intro exI [of _ "?r # ps"] exI [of _ rsp'] exI [of _ mem']) (simp only: length_Cons simp_thms list.simps, blast)
qed simp

lemma push_words_spec:
  assumes "8 * length ws \<le> unat rsp"
  shows "unat (fst (push_words ws (rsp, m))) = unat rsp - 8 * length ws"
    "mem_bytes (snd (push_words ws (rsp, m))) (fst (push_words ws (rsp, m))) (8 * length ws) = concat (map le64 ws)"
    "unat x < unat rsp - 8 * length ws \<or> unat rsp \<le> unat x \<Longrightarrow> snd (push_words ws (rsp, m)) x = m x"
proof -
  have r: "unat (rsp - of_nat (8 * length ws)) = unat rsp - 8 * length ws" using assms by (rule unat_minus_of_nat)
  then show "unat (fst (push_words ws (rsp, m))) = unat rsp - 8 * length ws" by (simp add: push_words_def Let_def)
  show "mem_bytes (snd (push_words ws (rsp, m))) (fst (push_words ws (rsp, m))) (8 * length ws) = concat (map le64 ws)"
    using assms unat_bound [of rsp] by (simp add: push_words_def Let_def mem_bytes_put_same)
  show "snd (push_words ws (rsp, m)) x = m x" if "unat x < unat rsp - 8 * length ws \<or> unat rsp \<le> unat x"
    using that r assms unat_bound [of rsp] by (simp add: push_words_def Let_def) (rule mem_put_out, auto)
qed

definition stack_words :: "u64 list \<Rightarrow> u64 list \<Rightarrow> (u64 \<times> u64) list \<Rightarrow> u64 list" where
  "stack_words argv_ptr envp_ptr auxv =
     [0, of_nat (length argv_ptr)] @ envp_ptr @ [0] @ argv_ptr @ [0] @ concat (map (\<lambda>(t, v). [t, v]) auxv)"

lemma length_stack_words: "length (stack_words ap ep aux) = 4 + length ap + length ep + 2 * length aux"
proof -
  have "length (concat (map (\<lambda>(t, v). [t, v]) aux)) = 2 * length aux" for aux :: "(u64 \<times> u64) list" by (induction aux) auto
  then show ?thesis by (simp add: stack_words_def)
qed

lemma init_pointers_words:
  assumes "8 * length (stack_words ap ep aux) + 16 \<le> unat rsp"
  shows "\<exists>pad<16. init_pointers ap ep aux rsp mem = push_words (stack_words ap ep aux) (rsp - of_nat pad, mem_put mem (rsp - of_nat pad) (replicate pad 0))
    \<and> fst (init_pointers ap ep aux rsp mem) mod 16 = 0"
proof -
  let ?W = "stack_words ap ep aux" and ?F = "concat (map (\<lambda>(t, v). [t, v]) aux)"
  have lF: "length ?F = 2 * length aux" by (induction aux) auto
  have lW: "length ?W = 4 + length ap + length ep + 2 * length aux" by (rule length_stack_words)
  have small: "8 * length ?W \<le> 2 ^ 64" using assms unat_bound [of rsp] by simp
  define b where "b = rsp - of_nat (16 * length aux) - of_nat (8 * length ap) - of_nat (8 * length ep) - 8 - 16"
  define pad where "pad = unat (b - align_down_16_8 b)"
  have p: "pad < 16" "b - align_down_16_8 b = of_nat pad" using align_down_facts(2) [of b] by (simp_all add: pad_def)
  let ?s = "(rsp - of_nat pad, mem_put mem (rsp - of_nat pad) (replicate pad 0))"
  have aux: "(rsp - of_nat pad - of_nat (16 * length aux), mem_put (mem_put mem (rsp - of_nat pad) (replicate pad 0)) (rsp - of_nat pad - of_nat (16 * length aux)) (auxv_bytes aux)) = push_words ?F ?s"
    by (simp add: push_words_def Let_def auxv_words lF)
  have e: "erase_mem8 mem a (of_nat pad) = mem_put mem a (replicate pad 0)" for a
    using p(1) by (simp add: erase_mem8_put unat_of_nat take_bit_nat_eq_self)
  have app: "push_words xs (push_words ys st) = push_words (xs @ ys) st" if "length xs + length ys \<le> length ?W" for xs ys and st :: "u64 \<times> memory"
    by (rule push_words_append [OF order_trans [OF mult_le_mono2 [OF that] small]])
  have i: "init_pointers ap ep aux rsp mem = push_words ?W ?s"
    unfolding init_pointers_def Let_def b_def [symmetric] p(2) e aux
    using lW lF by (simp add: app stack_words_def)
  have "fst (push_words ?W ?s) = align_down_16_8 b - 8"
  proof -
    have "fst (push_words ?W ?s) = rsp - of_nat pad - of_nat (8 * length ?W)" by (simp add: push_words_def Let_def)
    also have "\<dots> = b - of_nat pad - 8" by (simp add: b_def lW algebra_simps)
    also have "b - of_nat pad = align_down_16_8 b" using p(2) by (metis diff_diff_eq2 add_diff_cancel_left' diff_add_cancel)
    finally show ?thesis .
  qed
  moreover have "(align_down_16_8 b - 8) mod 16 = 0"
  proof -
    have m: "unat (align_down_16_8 b) mod 16 = 8" using arg_cong [OF align_down_facts(1) [of b], of unat] by (simp add: unat_mod)
    then have g: "8 \<le> unat (align_down_16_8 b)" by (metis mod_less_eq_dividend)
    then have "unat (align_down_16_8 b - 8) = unat (align_down_16_8 b) - 8" by (simp add: unat_sub_if')
    moreover have "(unat (align_down_16_8 b) - 8) mod 16 = 0" using m g by presburger
    ultimately show ?thesis by (simp add: word_unat_eq_iff unat_mod)
  qed
  ultimately show ?thesis using p(1) i by (intro exI [of _ pad]) simp
qed

lemma pointers_below:
  assumes "8 * length (stack_words ap ep aux) + 16 \<le> unat rsp"
  shows "\<exists>rsp' mem'. init_pointers ap ep aux rsp mem = (rsp', mem') \<and> rsp' mod 16 = 0
    \<and> mem_bytes mem' rsp' (8 * length (stack_words ap ep aux)) = concat (map le64 (stack_words ap ep aux))
    \<and> (\<forall>x. unat rsp \<le> unat x \<longrightarrow> mem' x = mem x)"
proof -
  let ?W = "stack_words ap ep aux"
  obtain pad where pad: "pad < 16" "init_pointers ap ep aux rsp mem = push_words ?W (rsp - of_nat pad, mem_put mem (rsp - of_nat pad) (replicate pad 0))"
    "fst (init_pointers ap ep aux rsp mem) mod 16 = 0" using init_pointers_words [OF assms] by blast
  define rsp1 where "rsp1 = rsp - of_nat pad"
  have r: "unat rsp1 = unat rsp - pad" "8 * length ?W \<le> unat rsp1" using assms pad(1) by (simp_all add: rsp1_def unat_minus_of_nat)
  have "snd (init_pointers ap ep aux rsp mem) x = mem x" if "unat rsp \<le> unat x" for x
  proof -
    have "snd (init_pointers ap ep aux rsp mem) x = mem_put mem rsp1 (replicate pad 0) x"
      unfolding pad(2) rsp1_def [symmetric] using that r(1) by (intro push_words_spec(3) [OF r(2)]) linarith
    also have "\<dots> = mem x" using that r(1) assms pad(1) unat_bound [of rsp] by (intro mem_put_out) auto
    finally show ?thesis .
  qed
  moreover have "mem_bytes (snd (init_pointers ap ep aux rsp mem)) (fst (init_pointers ap ep aux rsp mem)) (8 * length ?W) = concat (map le64 ?W)"
    unfolding pad(2) rsp1_def [symmetric] by (rule push_words_spec(2) [OF r(2)])
  ultimately show ?thesis using pad(3) by (metis prod.collapse)
qed

text \<open>The two lists of strings with the zero between them.\<close>

lemma strings_below:
  assumes "list_all terminated argv" "list_all terminated envp" "packed_size argv + packed_size envp + 8 \<le> unat top_addr"
  shows "\<exists>ap rsp1 mem1 rsp2 mem2 ep rsp3 mem3. push_strings argv top_addr mem = Some (ap, rsp1, mem1)
    \<and> push_words [0] (rsp1, mem1) = (rsp2, mem2) \<and> push_strings envp rsp2 mem2 = Some (ep, rsp3, mem3)
    \<and> length ap = length argv \<and> length ep = length envp \<and> unat rsp3 = unat top_addr - (packed_size argv + packed_size envp + 8)
    \<and> (\<forall>i<length argv. unat rsp3 + 8 \<le> unat (ap ! i) \<and> unat (ap ! i) + length (string_bytes (argv ! i)) \<le> 2 ^ 64
         \<and> mem_bytes mem3 (ap ! i) (length (string_bytes (argv ! i))) = string_bytes (argv ! i))
    \<and> (\<forall>i<length envp. unat (ep ! i) + length (string_bytes (envp ! i)) \<le> 2 ^ 64
         \<and> mem_bytes mem3 (ep ! i) (length (string_bytes (envp ! i))) = string_bytes (envp ! i))
    \<and> (envp \<noteq> [] \<longrightarrow> last ep = rsp3)"
proof -
  have "packed_size argv \<le> unat top_addr" using assms(3) by simp
  from push_strings_spec [OF assms(1) this, of mem] obtain ap rsp1 mem1 where
    A: "push_strings argv top_addr mem = Some (ap, rsp1, mem1)" "length ap = length argv" "unat rsp1 = unat top_addr - packed_size argv"
    "\<And>i. i < length argv \<Longrightarrow> unat rsp1 \<le> unat (ap ! i)" "\<And>i. i < length argv \<Longrightarrow> unat (ap ! i) + length (string_bytes (argv ! i)) \<le> unat top_addr"
    "\<And>i. i < length argv \<Longrightarrow> mem_bytes mem1 (ap ! i) (length (string_bytes (argv ! i))) = string_bytes (argv ! i)" by blast
  obtain rsp2 mem2 where W: "push_words [0] (rsp1, mem1) = (rsp2, mem2)" by force
  then have W2: "unat rsp2 = unat rsp1 - 8" "\<And>x. unat rsp1 \<le> unat x \<Longrightarrow> mem2 x = mem1 x"
    using push_words_spec [where ws = "[0]" and rsp = rsp1 and m = mem1] A(3) assms(3) by simp_all
  have "packed_size envp \<le> unat rsp2" using W2(1) A(3) assms(3) by simp
  from push_strings_spec [OF assms(2) this, of mem2] obtain ep rsp3 mem3 where
    E: "push_strings envp rsp2 mem2 = Some (ep, rsp3, mem3)" "length ep = length envp" "unat rsp3 = unat rsp2 - packed_size envp"
    "\<And>i. i < length envp \<Longrightarrow> unat (ep ! i) + length (string_bytes (envp ! i)) \<le> unat rsp2"
    "\<And>i. i < length envp \<Longrightarrow> mem_bytes mem3 (ep ! i) (length (string_bytes (envp ! i))) = string_bytes (envp ! i)"
    "\<And>x. unat rsp2 \<le> unat x \<Longrightarrow> mem3 x = mem2 x" "envp \<noteq> [] \<longrightarrow> last ep = rsp3" by blast
  have r: "unat rsp3 = unat top_addr - (packed_size argv + packed_size envp + 8)" "unat rsp3 + 8 \<le> unat rsp1" "unat rsp2 \<le> unat rsp1"
    using E(3) W2(1) A(3) assms(3) by simp_all
  have args: "mem_bytes mem3 (ap ! i) (length (string_bytes (argv ! i))) = string_bytes (argv ! i)" if "i < length argv" for i
  proof -
    have "mem_bytes mem3 (ap ! i) (length (string_bytes (argv ! i))) = mem_bytes mem1 (ap ! i) (length (string_bytes (argv ! i)))"
    proof (rule mem_bytes_eq)
      show "unat (ap ! i) + length (string_bytes (argv ! i)) \<le> 2 ^ 64" using A(5) [OF that] unat_bound [of top_addr] by simp
      show "mem3 x = mem1 x" if "unat (ap ! i) \<le> unat x" for x
        using E(6) [of x] W2(2) [of x] A(4) [OF \<open>i < length argv\<close>] r(3) that by simp
    qed
    then show ?thesis using A(6) [OF that] by simp
  qed
  have "unat (ap ! i) + length (string_bytes (argv ! i)) \<le> 2 ^ 64" if "i < length argv" for i using A(5) [OF that] unat_bound [of top_addr] by simp
  moreover have "unat (ep ! i) + length (string_bytes (envp ! i)) \<le> 2 ^ 64" if "i < length envp" for i using E(4) [OF that] unat_bound [of rsp2] by simp
  moreover have "unat rsp3 + 8 \<le> unat (ap ! i)" if "i < length argv" for i using r(2) A(4) [OF that] by simp
  ultimately show ?thesis using A(1,2) W E(1,2,5,7) r(1) args
    by (intro exI [of _ ap] exI [of _ rsp1] exI [of _ mem1] exI [of _ rsp2] exI [of _ mem2] exI [of _ ep] exI [of _ rsp3] exI [of _ mem3] conjI allI impI) simp_all
qed

text \<open>The random bytes take the place of the second zero and of the eight bytes above it.\<close>

lemma random_above:
  assumes "8 \<le> unat rsp3" "unat rsp3 + 8 \<le> 2 ^ 64" "push_words [0] (rsp3, mem3) = (rsp4, mem4)" "length random = 16"
    and "\<forall>x. unat rsp4 \<le> unat x \<longrightarrow> mem' x = mem_put mem4 rsp4 random x"
  shows "unat rsp4 = unat rsp3 - 8" "mem_bytes mem' rsp4 16 = random" "mem_bytes mem' rsp3 8 = drop 8 random"
    "\<And>x. unat rsp3 + 8 \<le> unat x \<Longrightarrow> mem' x = mem3 x"
proof -
  note W = push_words_spec [where ws = "[0]" and rsp = rsp3 and m = mem3]
  show r4: "unat rsp4 = unat rsp3 - 8" using W(1) assms(1,3) by simp
  have "mem_bytes mem' rsp4 16 = mem_bytes (mem_put mem4 rsp4 random) rsp4 16" using assms(1,2,5) r4 by (intro mem_bytes_eq) auto
  then show rnd: "mem_bytes mem' rsp4 16 = random" using assms(4) by (simp add: mem_bytes_put_same)
  have "rsp3 = rsp4 + of_nat 8" using assms(1) r4 unat_plus_of_nat [of rsp4 8] unat_bound [of rsp3] by (simp add: word_unat_eq_iff)
  then show "mem_bytes mem' rsp3 8 = drop 8 random" using mem_bytes_append [of mem' rsp4 8 8] rnd by simp
  show "mem' x = mem3 x" if "unat rsp3 + 8 \<le> unat x" for x
  proof -
    have "mem' x = mem_put mem4 rsp4 random x" using assms(5) that r4 by simp
    also have "\<dots> = mem4 x" using that r4 assms(1,2,4) by (intro mem_put_out) auto
    also have "\<dots> = mem3 x" using W(3) [of x] assms(1,3) that by simp
    finally show ?thesis .
  qed
qed

section \<open>Properties\<close>

text \<open>
  C20.  The initial stack.  The stack pointer is a multiple of 16.  From it upwards there are a zero, the number of
  arguments, the pointers to the environment, a zero, the pointers to the arguments, a zero and the auxiliary
  vector, which has the address of the 16 random bytes.  Every argument is where its pointer leads.  So is every
  string of the environment but the last ones: the random bytes are not given room of their own, and the
  last string of the environment begins with eight of them.
\<close>

theorem stack_built:
  assumes "list_all terminated argv" "list_all terminated envp" "length random = 16"
    and "packed_size argv + packed_size envp + 8 * (length argv + length envp) + 280 \<le> unat stack_addr"
  shows "\<exists>rsp mem' ap ep r. init_stack random stack_addr (Some argv) (Some envp) phdr cnt ld hdr mem = Some (rsp, mem')
    \<and> rsp mod 16 = 0 \<and> length ap = length argv \<and> length ep = length envp
    \<and> mem_bytes mem' rsp (8 * (30 + length argv + length envp)) = concat (map le64
        (stack_words ap ep (auxv_default phdr cnt (e_entry hdr) ld r (if argv = [] then 0 else hd ap))))
    \<and> mem_bytes mem' r 16 = random
    \<and> (\<forall>i<length argv. mem_bytes mem' (ap ! i) (length (string_bytes (argv ! i))) = string_bytes (argv ! i))
    \<and> (\<forall>i<length envp. unat (last ep) + 8 \<le> unat (ep ! i) \<longrightarrow> mem_bytes mem' (ep ! i) (length (string_bytes (envp ! i))) = string_bytes (envp ! i))
    \<and> (envp \<noteq> [] \<longrightarrow> mem_bytes mem' (last ep) 8 = drop 8 random)"
proof -
  have s8: "unat (stack_addr - 8) = unat stack_addr - 8" using unat_minus_of_nat [of 8 stack_addr] assms(4) by simp
  have "packed_size argv + packed_size envp + 8 \<le> unat (stack_addr - 8)" using assms(4) s8 by simp
  from strings_below [OF assms(1,2) this, of mem] obtain ap rsp1 mem1 rsp2 mem2 ep rsp3 mem3 where
    S: "push_strings argv (stack_addr - 8) mem = Some (ap, rsp1, mem1)" "push_words [0] (rsp1, mem1) = (rsp2, mem2)"
      "push_strings envp rsp2 mem2 = Some (ep, rsp3, mem3)" and l: "length ap = length argv" "length ep = length envp"
    and r3: "unat rsp3 = unat (stack_addr - 8) - (packed_size argv + packed_size envp + 8)"
    and a: "\<And>i. i < length argv \<Longrightarrow> unat rsp3 + 8 \<le> unat (ap ! i)" "\<And>i. i < length argv \<Longrightarrow> unat (ap ! i) + length (string_bytes (argv ! i)) \<le> 2 ^ 64"
      "\<And>i. i < length argv \<Longrightarrow> mem_bytes mem3 (ap ! i) (length (string_bytes (argv ! i))) = string_bytes (argv ! i)"
    and e: "\<And>i. i < length envp \<Longrightarrow> unat (ep ! i) + length (string_bytes (envp ! i)) \<le> 2 ^ 64"
      "\<And>i. i < length envp \<Longrightarrow> mem_bytes mem3 (ep ! i) (length (string_bytes (envp ! i))) = string_bytes (envp ! i)"
    and z: "envp \<noteq> [] \<longrightarrow> last ep = rsp3" by blast
  obtain rsp4 mem4 where W: "push_words [0] (rsp3, mem3) = (rsp4, mem4)" by force
  define aux where "aux = auxv_default phdr cnt (e_entry hdr) ld rsp4 (if argv = [] then 0 else hd ap)"
  have lW: "length (stack_words ap ep aux) = 30 + length argv + length envp" by (simp add: length_stack_words l aux_def auxv_default_def)
  have r: "8 \<le> unat rsp3" "unat rsp3 + 8 \<le> 2 ^ 64" using r3 s8 assms(4) unat_bound [of stack_addr] by simp_all
  have "unat rsp4 = unat rsp3 - 8" using push_words_spec(1) [where ws = "[0]" and rsp = rsp3 and m = mem3] W r(1) by simp
  then have "8 * length (stack_words ap ep aux) + 16 \<le> unat rsp4" using r3 s8 assms(4) lW by simp
  from pointers_below [OF this, of "mem_put mem4 rsp4 random"] obtain rsp mem' where
    P: "init_pointers ap ep aux rsp4 (mem_put mem4 rsp4 random) = (rsp, mem')" "rsp mod 16 = 0"
      "mem_bytes mem' rsp (8 * length (stack_words ap ep aux)) = concat (map le64 (stack_words ap ep aux))"
      "\<forall>x. unat rsp4 \<le> unat x \<longrightarrow> mem' x = mem_put mem4 rsp4 random x" by (elim exE conjE)
  note R = random_above [OF r W assms(3) P(4)]
  have keep: "mem_bytes mem' b n = mem_bytes mem3 b n" if "unat rsp3 + 8 \<le> unat b" "unat b + n \<le> 2 ^ 64" for b n
    using that R(4) by (intro mem_bytes_eq) auto
  have "ap = [] \<longleftrightarrow> argv = []" using l(1) by (metis length_0_conv)
  then have "init_stack random stack_addr (Some argv) (Some envp) phdr cnt ld hdr mem = Some (rsp, mem')"
    using S W P(1) assms(3) by (simp add: init_stack_def count_strings_def aux_def)
  moreover have "mem_bytes mem' (ap ! i) (length (string_bytes (argv ! i))) = string_bytes (argv ! i)" if "i < length argv" for i
    using keep [OF a(1,2)] a(3) that by simp
  moreover have "mem_bytes mem' (ep ! i) (length (string_bytes (envp ! i))) = string_bytes (envp ! i)"
    if "i < length envp" "unat (last ep) + 8 \<le> unat (ep ! i)" for i
    using keep [OF _ e(1)] e(2) z that by fastforce
  moreover have "envp \<noteq> [] \<longrightarrow> mem_bytes mem' (last ep) 8 = drop 8 random" using z R(3) by simp
  ultimately show ?thesis using P(2) P(3) [unfolded lW, unfolded aux_def] R(2) l
    by - (rule exI [of _ rsp], rule exI [of _ mem'], rule exI [of _ ap], rule exI [of _ ep], rule exI [of _ rsp4], simp)
qed

text \<open>One argument and one string of the environment, which is lost.\<close>

theorem stack_built_witness:
  "\<exists>rsp mem' ap ep r. init_stack (map of_nat [1..<17]) 0x10000 (Some [[97, 98, 0]]) (Some [[80, 61, 47, 98, 105, 110, 47, 0]]) 64 2 0 \<lparr>e_entry = 0x1000, e_phoff = 64, e_phnum = 2\<rparr> (\<lambda>_. 0) = Some (rsp, mem')
    \<and> rsp mod 16 = 0 \<and> mem_bytes mem' rsp 256 = concat (map le64 (stack_words [ap] [ep] (auxv_default 64 2 0x1000 0 r ap)))
    \<and> mem_bytes mem' ap 3 = [97, 98, 0] \<and> mem_bytes mem' ep 8 = [9, 10, 11, 12, 13, 14, 15, 16]"
proof -
  let ?A = "[[97, 98, 0 :: u8]]" and ?E = "[[80, 61, 47, 98, 105, 110, 47, 0 :: u8]]" and ?R = "map of_nat [1..<17] :: u8 list"
  let ?h = "\<lparr>e_entry = 0x1000, e_phoff = 64, e_phnum = 2\<rparr>"
  have t: "list_all terminated ?A" "list_all terminated ?E" by (simp_all add: terminated_def)
  have r: "length ?R = 16" "drop 8 ?R = [9, 10, 11, 12, 13, 14, 15, 16]" by code_simp+
  have s: "8 * (30 + length ?A + length ?E) = 256" by simp
  have f: "packed_size ?A + packed_size ?E + 8 * (length ?A + length ?E) + 280 \<le> unat (0x10000 :: u64)" by simp
  from stack_built [OF t r(1) f, of 64 2 0 ?h "\<lambda>_. 0"] obtain rsp mem' ap ep r where
    "init_stack ?R 0x10000 (Some ?A) (Some ?E) 64 2 0 ?h (\<lambda>_. 0) = Some (rsp, mem')" "rsp mod 16 = 0"
    and l: "length ap = length ?A" "length ep = length ?E"
    and "mem_bytes mem' rsp (8 * (30 + length ?A + length ?E)) = concat (map le64 (stack_words ap ep (auxv_default 64 2 (e_entry ?h) 0 r (if ?A = [] then 0 else hd ap))))"
    and a: "\<forall>i<length ?A. mem_bytes mem' (ap ! i) (length (string_bytes (?A ! i))) = string_bytes (?A ! i)"
    and e: "?E \<noteq> [] \<longrightarrow> mem_bytes mem' (last ep) 8 = drop 8 ?R" by (elim exE conjE)
  moreover obtain a e where "ap = [a]" "ep = [e]" using l by (auto simp: length_Suc_conv)
  moreover have "mem_bytes mem' (ap ! 0) 3 = [97, 98, 0]" using a [rule_format, of 0] by (simp add: string_bytes_def numeral_3_eq_3)
  moreover have "mem_bytes mem' (last ep) 8 = [9, 10, 11, 12, 13, 14, 15, 16]" using e unfolding r(2) by simp
  ultimately show ?thesis unfolding s by - (rule exI [of _ rsp], rule exI [of _ mem'], rule exI [of _ a], rule exI [of _ e], rule exI [of _ r], simp)
qed

section \<open>Segments in memory\<close>

lemma low_address_index: "unat va < 2 ^ 46 \<Longrightarrow> unat (l4_i va) < 128"
proof -
  assume "unat va < 2 ^ 46"
  then have "unat (drop_bit 39 va) < 128" by (simp add: drop_bit_eq_div unat_div div_less_iff_less_mult)
  moreover have "unat (drop_bit 39 va AND 0x1FF) \<le> unat (drop_bit 39 va)" by (simp add: word_and_le2 flip: word_le_nat_alt)
  ultimately show ?thesis by (simp add: l4_i_def)
qed

lemma extend_pages_spec:
  assumes "vm_ok lv s" "unat pid < length (processes_cr3_ptr s)" "processes_cr3_ptr s ! unat pid \<noteq> 0"
    "unat last_addr < 2 ^ 46" "4 * n \<le> free_count (vm_frames s)" "unat last_addr < unat i + 4096 * n" "unat i < 2 ^ 46 + 4096"
  shows "\<exists>lv' s'. extend_pages s pid i last_addr = Some s' \<and> extends lv s lv' s'
    \<and> (\<forall>j. unat i + 4096 * j \<le> unat last_addr \<longrightarrow> translate s' pid (i + of_nat (4096 * j)) \<noteq> None)"
  using assms
proof (induction n arbitrary: lv s i)
  case 0
  then show ?case by (auto simp: extend_pages.simps word_le_nat_alt extends_def vm_ok_def intro!: exI [of _ lv])
next
  case (Suc n)
  show ?case
  proof (cases "i \<le> last_addr")
    case False
    then show ?thesis using Suc.prems by (auto simp: extend_pages.simps word_le_nat_alt extends_def vm_ok_def intro!: exI [of _ lv])
  next
    case True
    then have lt: "unat i \<le> unat last_addr" by (simp add: word_le_nat_alt)
    have i': "unat (i + 4096) = unat i + 4096" using unat_plus_of_nat [of i 4096] lt Suc.prems(4) by simp
    obtain r s1 where s1: "increase_paging_of_process_with_virt_addr s pid i = Some (r, s1)" "free_count (vm_frames s) - 4 \<le> free_count (vm_frames s1)"
      using increase_paging_progress [of s pid i] Suc.prems(1,2,5) by (auto simp: vm_ok_def)
    have l4: "unat (l4_i i) < 128" using lt Suc.prems(4) by (intro low_address_index) simp
    obtain lv1 where E1: "extends lv s lv1 s1" "translate s1 pid i \<noteq> None" using increase_paging_steps [OF Suc.prems(1-3) l4 s1(1)] by blast
    have c: "processes_cr3_ptr s1 = processes_cr3_ptr s" using E1(1) by (simp add: extends_def)
    note ok1 = vm_ok_extends [OF Suc.prems(1) E1(1)]
    have fc: "4 * n \<le> free_count (vm_frames s1)" using s1(2) Suc.prems(5) unfolding mult_Suc_right by arith
    obtain lv2 s2 where E2: "extend_pages s1 pid (i + 4096) last_addr = Some s2" "extends lv1 s1 lv2 s2"
      "\<forall>j. unat (i + 4096) + 4096 * j \<le> unat last_addr \<longrightarrow> translate s2 pid (i + 4096 + of_nat (4096 * j)) \<noteq> None"
      using Suc.IH [OF ok1 _ _ Suc.prems(4) fc, of "i + 4096"] Suc.prems(2-4,6) c i' lt by auto
    have "translate s2 pid (i + of_nat (4096 * j)) \<noteq> None" if "unat i + 4096 * j \<le> unat last_addr" for j
    proof (cases j)
      case 0
      then show ?thesis using E1(2) translate_extends [OF ok1 E2(2) l4] by auto
    next
      case (Suc k)
      then show ?thesis using E2(3) [rule_format, of k] that i' by (simp add: algebra_simps)
    qed
    moreover have "extend_pages s pid i last_addr = Some s2" using True s1(1) E2(1) by (subst extend_pages.simps) simp
    ultimately show ?thesis using extends_trans [OF E1(1) E2(2)] by blast
  qed
qed

lemma page_indices_page: "page_indices (va div 4096 * 4096) = page_indices va"
proof -
  have "va div 4096 * 4096 = push_bit 12 (drop_bit 12 va)" by (simp add: push_bit_eq_mult drop_bit_eq_div)
  moreover have "drop_bit n (push_bit 12 (drop_bit 12 va)) = drop_bit n va" if "12 \<le> n" for n
    using that by (intro bit_word_eqI) (auto simp: bit_simps dest: bit_imp_le_length)
  ultimately show ?thesis by (simp add: page_indices_def l4_i_def l3_i_def l2_i_def l1_i_def)
qed

lemma translate_page: "translate s pid (va div 4096 * 4096) = translate s pid va"
  by (simp only: translate_def page_indices_page)

text \<open>A region is mapped: every address of it has a block, and what was mapped stays where it is.\<close>

lemma extend_cr3_maps:
  assumes "vm_ok lv s" "unat pid < length (processes_cr3_ptr s)" "processes_cr3_ptr s ! unat pid \<noteq> 0"
    "unat va + unat sz < 2 ^ 46" "4 * (unat sz div 4096 + 2) \<le> free_count (vm_frames s)"
  shows "\<exists>lv' s'. extend_cr3 s pid va sz = Some s' \<and> extends lv s lv' s'
    \<and> (\<forall>x. unat va \<le> unat x \<and> unat x \<le> unat va + unat sz \<longrightarrow> translate s' pid x \<noteq> None)"
proof -
  let ?i = "va div 4096 * 4096" and ?n = "unat sz div 4096 + 2"
  have i: "unat ?i = unat va div 4096 * 4096"
    using unat_bound [of va] by (simp add: unat_word_ariths unat_div)
  have e: "unat (va + sz) = unat va + unat sz" using assms(4) by (simp add: unat_word_ariths)
  have "unat (va + sz) < unat ?i + 4096 * ?n" unfolding i e using mult_div_mod_eq [of 4096 "unat va"] mult_div_mod_eq [of 4096 "unat sz"]
      mod_less_divisor [of 4096 "unat va"] mod_less_divisor [of 4096 "unat sz"] by (simp add: algebra_simps)
  moreover have "unat ?i \<le> unat va" unfolding i by simp
  ultimately obtain lv' s' where s': "extend_pages s pid ?i (va + sz) = Some s'" "extends lv s lv' s'"
    "\<forall>j. unat ?i + 4096 * j \<le> unat (va + sz) \<longrightarrow> translate s' pid (?i + of_nat (4096 * j)) \<noteq> None"
    using extend_pages_spec [OF assms(1-3), of "va + sz" ?n ?i] assms(4,5) e by auto
  have "translate s' pid x \<noteq> None" if x: "unat va \<le> unat x" "unat x \<le> unat va + unat sz" for x
  proof -
    define j where "j = unat x div 4096 - unat va div 4096"
    have le: "unat va div 4096 \<le> unat x div 4096" using x(1) by (rule div_le_mono)
    then have s: "unat ?i + 4096 * j = unat x div 4096 * 4096" unfolding i j_def by (simp add: algebra_simps)
    also have "\<dots> \<le> unat x" by simp
    finally have b: "unat ?i + 4096 * j \<le> unat x" .
    then have "unat (?i + of_nat (4096 * j)) = unat (x div 4096 * 4096)"
      using unat_plus_of_nat [of ?i "4096 * j"] unat_bound [of x] s by (simp add: unat_word_ariths unat_div)
    then have "?i + of_nat (4096 * j) = x div 4096 * 4096" by (simp add: word_unat_eq_iff)
    moreover have "translate s' pid (?i + of_nat (4096 * j)) \<noteq> None" using s'(3) b x(2) e by auto
    ultimately show ?thesis by (simp only: translate_page not_False_eq_True)
  qed
  then show ?thesis using s'(1,2) by (auto simp: extend_cr3_def)
qed

text \<open>
  C19.  Loading a segment.  When there are enough free blocks and the file delivers the bytes, all addresses of the
  segment are mapped, nothing that was mapped before is moved, and the segment holds the bytes of the file
  followed by zeros; memory outside the segment is not changed.  The page tables stay well-formed.
\<close>

theorem segment_loaded:
  assumes "vm_ok lv s" "unat pid < length (processes_cr3_ptr s)" "processes_cr3_ptr s ! unat pid \<noteq> 0"
    and "p_type e = 1" "p_filesz e \<le> p_memsz e" "unat va + unat (p_memsz e) < 2 ^ 46" "va = p_vaddr e + start_offset"
    and "4 * (unat (p_memsz e) div 4096 + 2) \<le> free_count (vm_frames s)"
    and "rd path (mem_bytes m va (unat (p_filesz e))) (p_offset e) (p_filesz e) = Some (0, b)" "length b = unat (p_filesz e)"
  shows "\<exists>lv' s' m'. load_pht_to_memory rd path e pid start_offset (s, m) = Some (p_memsz e, s', m') \<and> vm_ok lv' s'
    \<and> (\<forall>x. unat va \<le> unat x \<and> unat x < unat va + unat (p_memsz e) \<longrightarrow> translate s' pid x \<noteq> None)
    \<and> (\<forall>q x a. unat (l4_i x) < 128 \<and> translate s q x = Some a \<longrightarrow> translate s' q x = Some a)
    \<and> mem_bytes m' va (unat (p_memsz e)) = b @ replicate (unat (p_memsz e) - unat (p_filesz e)) 0
    \<and> (\<forall>x. unat x < unat va \<or> unat va + unat (p_memsz e) \<le> unat x \<longrightarrow> m' x = m x)"
proof -
  obtain lv' s' where s': "extend_cr3 s pid va (p_memsz e) = Some s'" "extends lv s lv' s'"
    "\<forall>x. unat va \<le> unat x \<and> unat x \<le> unat va + unat (p_memsz e) \<longrightarrow> translate s' pid x \<noteq> None"
    using extend_cr3_maps [OF assms(1-3,6,8)] by blast
  let ?z = "unat (p_memsz e) - unat (p_filesz e)" and ?m = "mem_put m va b"
  define m' where "m' = (if p_memsz e > p_filesz e then erase_mem8 ?m (va + p_filesz e) (p_memsz e - p_filesz e) else ?m)"
  have fm: "unat (p_filesz e) \<le> unat (p_memsz e)" using assms(5) by (simp add: word_le_nat_alt)
  have z: "unat (p_memsz e - p_filesz e) = ?z" using fm by (simp add: unat_sub_if')
  have "m' = mem_put ?m (va + of_nat (length b)) (replicate ?z 0)"
  proof (cases "p_memsz e > p_filesz e")
    case False
    then have "?z = 0" using fm by (simp add: word_less_nat_alt)
    then show ?thesis using False by (simp add: m'_def mem_put_def)
  qed (simp add: m'_def erase_mem8_put z assms(10))
  also have "\<dots> = mem_put m va (b @ replicate ?z 0)" using assms(6,10) fm by (intro mem_put_append_above) simp
  finally have m': "m' = mem_put m va (b @ replicate ?z 0)" .
  have l: "length (b @ replicate ?z 0) = unat (p_memsz e)" using fm assms(10) by simp
  have "mem_bytes m' va (unat (p_memsz e)) = b @ replicate ?z 0" unfolding m' using l assms(6) by (intro mem_bytes_put_same) simp_all
  moreover have "m' x = m x" if "unat x < unat va \<or> unat va + unat (p_memsz e) \<le> unat x" for x
    unfolding m' using that l assms(6) by (intro mem_put_out) simp_all
  moreover have "load_pht_to_memory rd path e pid start_offset (s, m) = Some (p_memsz e, s', m')"
    using assms(4,9,10) s'(1) leD [OF assms(5)] by (simp add: load_pht_to_memory_def read_mem_def Let_def m'_def flip: assms(7))
  moreover have "\<forall>x. unat va \<le> unat x \<and> unat x < unat va + unat (p_memsz e) \<longrightarrow> translate s' pid x \<noteq> None" using s'(3) less_imp_le by blast
  moreover have "\<forall>q x a. unat (l4_i x) < 128 \<and> translate s q x = Some a \<longrightarrow> translate s' q x = Some a"
    using translate_extends [OF assms(1) s'(2)] by blast
  ultimately show ?thesis using vm_ok_extends [OF assms(1) s'(2)]
    by - (rule exI [of _ lv'], rule exI [of _ s'], rule exI [of _ m'], intro conjI allI impI, simp_all)
qed

text \<open>Three bytes and two zeros at 0x1000, in a process without pages and with eight free blocks.\<close>

definition example_vm :: vm where
  "example_vm = \<lparr>vm_frames = \<lparr>memory_map = [1, 1, 0, 0, 0, 0, 0, 0, 0, 0], total_memory_blocks_count = 10, end_kernel = HM + 8192\<rparr>,
     vm_mem = (\<lambda>_. 0), processes_cr3_ptr = [0, blk 1]\<rparr>"

lemma example_vm_ok: "vm_ok (\<lambda>_. 4) example_vm" "free_count (vm_frames example_vm) = 8"
proof -
  let ?fr = "vm_frames example_vm"
  have "tree_ok (\<lambda>_. 4) ?fr (\<lambda>_. 0) (Suc 3) (blk 1)"
    unfolding tree_ok.simps by (intro exI [of _ 1]) (simp add: used_def example_vm_def)
  moreover have "Suc 3 = 4" by simp
  ultimately have "tree_ok (\<lambda>_. 4) ?fr (\<lambda>_. 0) 4 (blk 1)" by metis
  moreover have "pool_ok ?fr" by (simp add: pool_ok_def frames_ok_def example_vm_def)
  ultimately show "vm_ok (\<lambda>_. 4) example_vm" unfolding vm_ok_def by (simp add: example_vm_def)
  have u: "used ?fr i \<longleftrightarrow> i < 2" for i by (auto simp: used_def example_vm_def nth_Cons')
  have fb: "unat (first_block ?fr) = 2" "unat (total_memory_blocks_count ?fr) = 10" by (simp_all add: first_block_def example_vm_def)
  have "{i. unat (first_block ?fr) \<le> i \<and> i < unat (total_memory_blocks_count ?fr) \<and> \<not> used ?fr i} = {2..<10}"
    unfolding u fb by auto
  then show "free_count ?fr = 8" by (simp add: free_count_def)
qed

theorem segment_loaded_witness:
  "\<exists>s' m'. load_pht_to_memory (\<lambda>path buf start count. Some (0, [1, 2, 3])) [47, 97, 0]
      \<lparr>p_type = 1, p_offset = 0, p_vaddr = 0x1000, p_filesz = 3, p_memsz = 5\<rparr> 1 0 (example_vm, \<lambda>_. 7) = Some (5, s', m')
    \<and> translate s' 1 0x1001 \<noteq> None \<and> mem_bytes m' 0x1000 5 = [1, 2, 3, 0, 0] \<and> m' 0x1005 = 7"
proof -
  let ?e = "\<lparr>p_type = 1, p_offset = 0, p_vaddr = 0x1000, p_filesz = 3, p_memsz = 5\<rparr>"
  have n: "unat (1 :: u64) < length (processes_cr3_ptr example_vm)" "processes_cr3_ptr example_vm ! unat (1 :: u64) \<noteq> 0"
  proof -
    have "unat (blk 1) \<noteq> 0" using unat_blk_word [of 1 0] by simp
    then show "processes_cr3_ptr example_vm ! unat (1 :: u64) \<noteq> 0" by (auto simp: example_vm_def)
  qed (simp add: example_vm_def)
  obtain lv' s' m' where r: "load_pht_to_memory (\<lambda>path buf start count. Some (0, [1, 2, 3])) [47, 97, 0] ?e 1 0 (example_vm, \<lambda>_. 7) = Some (p_memsz ?e, s', m')"
    "\<forall>x. unat (0x1000 :: u64) \<le> unat x \<and> unat x < unat (0x1000 :: u64) + unat (p_memsz ?e) \<longrightarrow> translate s' 1 x \<noteq> None"
    "mem_bytes m' 0x1000 (unat (p_memsz ?e)) = [1, 2, 3] @ replicate (unat (p_memsz ?e) - unat (p_filesz ?e)) 0"
    "\<forall>x. unat x < unat (0x1000 :: u64) \<or> unat (0x1000 :: u64) + unat (p_memsz ?e) \<le> unat x \<longrightarrow> m' x = 7"
    using segment_loaded [OF example_vm_ok(1) n, of ?e "0x1000" 0 "\<lambda>path buf start count. Some (0, [1, 2, 3])" "[47, 97, 0]" "\<lambda>_. 7" "[1, 2, 3]"]
      example_vm_ok(2) by auto
  have "replicate 2 (0 :: u8) = [0, 0]" by (simp add: numeral_2_eq_2)
  then have "mem_bytes m' 0x1000 5 = [1, 2, 3, 0, 0]" using r(3) by simp
  moreover have "translate s' 1 0x1001 \<noteq> None" "m' 0x1005 = 7" using r(2) [rule_format, of "0x1001"] r(4) [rule_format, of "0x1005"] by simp_all
  ultimately show ?thesis using r(1) by (intro exI [of _ s'] exI [of _ m']) simp
qed

text \<open>
  A segment without bytes in the file, which only needs zeros, is not loaded: reading no bytes is an error.
\<close>

lemma segment_without_bytes_fails:
  assumes "p_type e = 1" "p_filesz e = 0" "extend_cr3 s pid (p_vaddr e + start_offset) (p_memsz e) = Some s'"
  shows "load_pht_to_memory (vfs_reader rd mounts child) path e pid start_offset (s, m) = Some (- 2, s', m)"
  using assms by (simp add: load_pht_to_memory_def read_mem_def vfs_reader_def read_file_def Let_def mem_put_def)

end
