(* ===== verification/Loader.thy ===== *)
theory Loader
  imports Unicode Elf
begin

text \<open>
  The loader of foreign programs (\<^verbatim>\<open>core/exe/loader.h\<close>).  An image in memory is the list of its bytes, so that a
  relative address is an index; an access behind the image is a page fault.  Its headers are read at the
  offsets of the structures of \<^verbatim>\<open>core/exe/common.h\<close>.  Files are read as by the loader of ELF programs.
\<close>

section \<open>Sections\<close>

record pe_section_header =
  virtual_size :: u32
  virtual_address :: u32
  size_of_raw_data :: u32
  pointer_to_raw_data :: u32

definition pe_load_section_to_memory :: "reader \<Rightarrow> u8 list \<Rightarrow> pe_section_header \<Rightarrow> u8 list \<Rightarrow> (int \<times> u8 list) option" where
  "pe_load_section_to_memory rd path sec img = do {
     let raw = size_of_raw_data sec;
     let copy_size = (if raw > virtual_size sec then virtual_size sec else raw);
     (rs, img1) \<leftarrow> (if raw > 0 then read_into rd path img (unat (virtual_address sec)) (ucast (pointer_to_raw_data sec)) (ucast copy_size)
       else Some (0, img));
     if rs < 0 then Some (rs, img1)
     else if virtual_size sec > raw then do {
       img2 \<leftarrow> put_all img1 (unat (virtual_address sec) + unat raw) (replicate (unat (virtual_size sec) - unat raw) 0);
       Some (0, img2) }
     else Some (0, img1) }"

section \<open>Relocation\<close>

text \<open>One entry of a block at \<open>block\<close>; the page and the entry are read from the image as it is.\<close>

definition reloc_entry :: "u8 list \<Rightarrow> nat \<Rightarrow> nat \<Rightarrow> u64 \<Rightarrow> u8 list option" where
  "reloc_entry img block i offset_distance = do {
     entry \<leftarrow> read16 img (block + 8 + 2 * i);
     page_rva \<leftarrow> read32 img block;
     let entry_type = drop_bit 12 entry;
     let a = unat (page_rva + ucast (entry AND 0x0FFF));
     if entry_type = 10 then do { v \<leftarrow> read64 img a; put_all img a (le64 (v + offset_distance)) }
     else if entry_type = 3 then do { v \<leftarrow> read32 img a; put_all img a (le32 (v + ucast offset_distance)) }
     else Some img }"

fun reloc_entries :: "nat \<Rightarrow> nat \<Rightarrow> u8 list \<Rightarrow> nat \<Rightarrow> u64 \<Rightarrow> u8 list option" where
  "reloc_entries 0 i img block offset_distance = Some img"
| "reloc_entries (Suc k) i img block offset_distance = do {
     img' \<leftarrow> reloc_entry img block i offset_distance;
     reloc_entries k (Suc i) img' block offset_distance }"

function reloc_blocks :: "nat \<Rightarrow> nat \<Rightarrow> nat \<Rightarrow> u8 list \<Rightarrow> u64 \<Rightarrow> u8 list option" where
  "reloc_blocks tbl sz off img offset_distance =
     (if off < sz then do {
        block_size \<leftarrow> read32 img (tbl + off + 4);
        if block_size < 8 then Some img
        else do {
          img' \<leftarrow> reloc_entries ((unat block_size - 8) div 2) 0 img (tbl + off) offset_distance;
          reloc_blocks tbl sz (off + unat block_size) img' offset_distance } }
      else Some img)"
  by auto
termination
  by (relation "measure (\<lambda>(tbl, sz, off, img, d). sz - off)") (auto simp: word_less_nat_alt)

text \<open>The directory of relocations is given by its address and size.\<close>

definition pe_image_relocation :: "u32 \<times> u32 \<Rightarrow> u8 list \<Rightarrow> u64 \<Rightarrow> u8 list option" where
  "pe_image_relocation reloc_directory img offset_distance =
     (if snd reloc_directory = 0 then Some img
      else reloc_blocks (unat (fst reloc_directory)) (unat (snd reloc_directory)) 0 img offset_distance)"

declare reloc_blocks.simps [simp del]

section \<open>Exports\<close>

text \<open>The search for a name among the names of an export table at \<open>tab\<close>.\<close>

fun export_index :: "nat \<Rightarrow> nat \<Rightarrow> u8 list \<Rightarrow> nat \<Rightarrow> u8 list \<Rightarrow> nat option option" where
  "export_index 0 i img tab nm = Some None"
| "export_index (Suc k) i img tab nm = do {
     names \<leftarrow> read32 img (tab + 32);
     rva \<leftarrow> read32 img (unat names + 4 * i);
     r \<leftarrow> strcmp (drop (unat rva) img) nm;
     if r \<noteq> 0 then Some (Some i) else export_index k (Suc i) img tab nm }"

definition pe_find_export_addr_pointer_by_name :: "u8 list \<Rightarrow> u32 \<Rightarrow> u8 list \<Rightarrow> nat option option" where
  "pe_find_export_addr_pointer_by_name import_file_name export_rva img = do {
     let tab = unat export_rva;
     max_export \<leftarrow> read32 img (tab + 24);
     found \<leftarrow> export_index (unat max_export) 0 img tab import_file_name;
     case found of
       None \<Rightarrow> Some None
     | Some i \<Rightarrow> do {
         ordinals \<leftarrow> read32 img (tab + 36);
         functions \<leftarrow> read32 img (tab + 28);
         ordinal_index \<leftarrow> read16 img (unat ordinals + 2 * i);
         Some (Some (unat functions + 4 * unat ordinal_index)) } }"

definition get_opt_header64 :: "u8 list \<Rightarrow> nat option" where
  "get_opt_header64 img = do { e_lfanew \<leftarrow> read32 img 60; Some (unat (e_lfanew + 4) + 20) }"

definition data_directory :: "u8 list \<Rightarrow> nat \<Rightarrow> nat \<Rightarrow> (u32 \<times> u32) option" where
  "data_directory img opt_header n = do {
     a \<leftarrow> read32 img (opt_header + 112 + 8 * n);
     s \<leftarrow> read32 img (opt_header + 112 + 8 * n + 4);
     Some (a, s) }"

text \<open>One name of the second image: the function with the same name in the first image is replaced.\<close>

definition patch_one :: "u8 list \<Rightarrow> nat \<Rightarrow> u64 \<Rightarrow> u8 list \<Rightarrow> nat \<Rightarrow> u64 \<Rightarrow> nat \<Rightarrow> u32 \<Rightarrow> u8 list option" where
  "patch_one ntdll ntdll_opt ntdll_base ninja tab ninja_base i name_rva = do {
     ordinals \<leftarrow> read32 ninja (tab + 36);
     functions \<leftarrow> read32 ninja (tab + 28);
     ordinal_index \<leftarrow> read16 ninja (unat ordinals + 2 * i);
     exp_rva \<leftarrow> read32 ninja (unat functions + 4 * unat ordinal_index);
     (ntdll_exports, s) \<leftarrow> data_directory ntdll ntdll_opt 0;
     p \<leftarrow> pe_find_export_addr_pointer_by_name (drop (unat name_rva) ninja) ntdll_exports ntdll;
     case p of
       None \<Rightarrow> Some ntdll
     | Some a \<Rightarrow> put_all ntdll a (le32 (ucast (ucast exp_rva + ninja_base - ntdll_base))) }"

fun patch_names :: "nat \<Rightarrow> nat \<Rightarrow> u8 list \<Rightarrow> nat \<Rightarrow> u64 \<Rightarrow> u8 list \<Rightarrow> nat \<Rightarrow> u64 \<Rightarrow> u8 list option" where
  "patch_names 0 i ntdll ntdll_opt ntdll_base ninja tab ninja_base = Some ntdll"
| "patch_names (Suc k) i ntdll ntdll_opt ntdll_base ninja tab ninja_base = do {
     names \<leftarrow> read32 ninja (tab + 32);
     name_rva \<leftarrow> read32 ninja (unat names + 4 * i);
     if ucast name_rva + ninja_base = 0 then Some ntdll
     else do {
       ntdll' \<leftarrow> patch_one ntdll ntdll_opt ntdll_base ninja tab ninja_base i name_rva;
       patch_names k (Suc i) ntdll' ntdll_opt ntdll_base ninja tab ninja_base } }"

definition patch_export :: "u8 list \<Rightarrow> u64 \<Rightarrow> u8 list \<Rightarrow> u64 \<Rightarrow> u8 list option" where
  "patch_export ntdll ntdll_base ninja ninja_base = do {
     nt_opt \<leftarrow> get_opt_header64 ntdll;
     nj_opt \<leftarrow> get_opt_header64 ninja;
     (nj_exports, s) \<leftarrow> data_directory ninja nj_opt 0;
     n \<leftarrow> read32 ninja (unat nj_exports + 24);
     patch_names (unat n) 0 ntdll nt_opt ntdll_base ninja (unat nj_exports) ninja_base }"

section \<open>Loading a library\<close>

definition section_header :: "u8 list \<Rightarrow> pe_section_header option" where
  "section_header b = do {
     v \<leftarrow> read32 b 8;
     a \<leftarrow> read32 b 12;
     s \<leftarrow> read32 b 16;
     p \<leftarrow> read32 b 20;
     Some \<lparr>virtual_size = v, virtual_address = a, size_of_raw_data = s, pointer_to_raw_data = p\<rparr> }"

text \<open>A section that cannot be loaded is not noticed, because the result is kept in an unsigned variable.\<close>

fun load_sections :: "nat \<Rightarrow> u64 \<Rightarrow> reader \<Rightarrow> u8 list \<Rightarrow> u8 list \<Rightarrow> u8 list \<Rightarrow> u8 list option" where
  "load_sections 0 pos rd path g img = Some img"
| "load_sections (Suc k) pos rd path g img = do {
     (rs, b) \<leftarrow> read_into rd path g 0 pos 40;
     sec \<leftarrow> section_header b;
     (res, img') \<leftarrow> pe_load_section_to_memory rd path sec img;
     load_sections k (pos + 40) rd path b img' }"

definition find_entry :: "u8 list \<Rightarrow> nat \<Rightarrow> u64 \<Rightarrow> u64 option" where
  "find_entry img tab base = do {
     n \<leftarrow> read32 img (tab + 24);
     functions \<leftarrow> read32 img (tab + 28);
     ordinals \<leftarrow> read32 img (tab + 36);
     found \<leftarrow> export_index (unat n) 0 img tab [76,100,114,73,110,105,116,105,97,108,105,122,101,84,104,117,110,107,0];
     case found of
       None \<Rightarrow> Some 0
     | Some i \<Rightarrow> do {
         ord \<leftarrow> read16 img (unat ordinals + 2 * i);
         rva \<leftarrow> read32 img (unat functions + 4 * unat ord);
         Some (base + ucast rva) } }"

text \<open>The headers of a file: the offset of the second one, the file header and the optional header.\<close>

definition read_headers :: "reader \<Rightarrow> u8 list \<Rightarrow> u8 list \<Rightarrow> u8 list \<Rightarrow> (u32 \<times> u8 list \<times> u8 list) option option" where
  "read_headers rd path g1 g2 = do {
     (r1, dos) \<leftarrow> read_into rd path g1 0 0 64;
     e_magic \<leftarrow> read16 dos 0;
     if e_magic \<noteq> 0x5A4D then Some None
     else do {
       pe_header_offset \<leftarrow> read32 dos 60;
       (r2, hdr) \<leftarrow> read_into rd path g2 0 (ucast pe_header_offset) 24;
       if take 4 hdr \<noteq> [80, 69, 0, 0] then Some None
       else do {
         opt_size \<leftarrow> read16 hdr 20;
         (r3, opt) \<leftarrow> read_into rd path (replicate (unat opt_size) 0) 0 (ucast (pe_header_offset + 4) + 20) (ucast opt_size);
         magic \<leftarrow> read16 opt 0;
         Some (if magic \<noteq> 0x20B then None else Some (pe_header_offset, hdr, opt)) } } }"

text \<open>
  The state of the loader: the page tables, the bytes from the base address on, the base address for the next library,
  and the two variables of the file.  The arguments \<open>g0\<close> to \<open>g3\<close> are the initial contents of the local arrays.
\<close>

record loading =
  ld_vm :: vm
  ld_image :: "u8 list"
  ld_base :: u64
  ntdll_base_addr :: u64
  entry_ntdll :: u64

definition load_image :: "reader \<Rightarrow> u8 list \<Rightarrow> u8 list \<Rightarrow> u64 \<Rightarrow> u32 \<Rightarrow> u8 list \<Rightarrow> u8 list \<Rightarrow> loading \<Rightarrow> (u64 \<times> loading) option" where
  "load_image rd g3 path pid pe_header_offset hdr opt st = do {
     let base = ld_base st;
     opt_size \<leftarrow> read16 hdr 20;
     size_of_image \<leftarrow> read32 opt 56;
     s \<leftarrow> extend_cr3 (ld_vm st) pid base (ucast size_of_image);
     size_of_headers \<leftarrow> read32 opt 60;
     (_, img1) \<leftarrow> read_into rd path (ld_image st) 0 0 (ucast size_of_headers);
     sections \<leftarrow> read16 hdr 6;
     img2 \<leftarrow> load_sections (unat sections) (ucast (pe_header_offset + 4) + 20 + ucast opt_size) rd path g3 img1;
     (exports, _) \<leftarrow> data_directory opt 0 0;
     entry \<leftarrow> find_entry img2 (unat exports) base;
     image_base \<leftarrow> read64 opt 24;
     reloc_directory \<leftarrow> data_directory opt 0 5;
     img3 \<leftarrow> pe_image_relocation reloc_directory img2 (image_base - base);
     blocks \<leftarrow> div_ceil (ucast size_of_image) 4096;
     Some (entry, st\<lparr>ld_vm := s, ld_image := img3, ld_base := base + blocks * 4096, entry_ntdll := entry\<rparr>) }"

definition load_dll_by_name :: "reader \<Rightarrow> u8 list \<Rightarrow> u8 list \<Rightarrow> u8 list \<Rightarrow> u8 list \<Rightarrow> u8 list \<Rightarrow> u64 \<Rightarrow> loading \<Rightarrow> (int \<times> loading) option" where
  "load_dll_by_name rd g0 g1 g2 g3 dll_file_name new_pid st = do {
     let st1 = st\<lparr>ntdll_base_addr := ld_base st\<rparr>;
     l \<leftarrow> strlen dll_file_name;
     if l = 0 then Some (- 1, st1)
     else do {
       path \<leftarrow> strconcat g0 [47, 100, 108, 108, 47, 0] dll_file_name;
       headers \<leftarrow> read_headers rd path g1 g2;
       case headers of
         None \<Rightarrow> Some (- ENOEXEC, st1)
       | Some (pe_header_offset, hdr, opt) \<Rightarrow> do {
           (entry, st2) \<leftarrow> load_image rd g3 path new_pid pe_header_offset hdr opt st1;
           Some (sint entry, st2) } } }"

section \<open>What a relocation table lists\<close>

text \<open>The places that a table lists, in its order, each with whether it has 64 bits, and where the table ends.\<close>

definition width :: "bool \<Rightarrow> nat" where
  "width wide = (if wide then 8 else 4)"

definition entry_fixup :: "u8 list \<Rightarrow> nat \<Rightarrow> nat \<Rightarrow> (bool \<times> nat) option option" where
  "entry_fixup img block i = do {
     entry \<leftarrow> read16 img (block + 8 + 2 * i);
     page_rva \<leftarrow> read32 img block;
     let a = unat (page_rva + ucast (entry AND 0x0FFF));
     Some (if drop_bit 12 entry = 10 then Some (True, a) else if drop_bit 12 entry = 3 then Some (False, a) else None) }"

fun block_fixups :: "nat \<Rightarrow> nat \<Rightarrow> u8 list \<Rightarrow> nat \<Rightarrow> (bool \<times> nat) list option" where
  "block_fixups 0 i img block = Some []"
| "block_fixups (Suc k) i img block = do {
     f \<leftarrow> entry_fixup img block i;
     fs \<leftarrow> block_fixups k (Suc i) img block;
     Some (case f of None \<Rightarrow> fs | Some x \<Rightarrow> x # fs) }"

function table_fixups :: "nat \<Rightarrow> nat \<Rightarrow> nat \<Rightarrow> u8 list \<Rightarrow> (nat \<times> (bool \<times> nat) list) option" where
  "table_fixups tbl sz off img =
     (if off < sz then do {
        block_size \<leftarrow> read32 img (tbl + off + 4);
        if block_size < 8 then Some (off + 8, [])
        else do {
          fs \<leftarrow> block_fixups ((unat block_size - 8) div 2) 0 img (tbl + off);
          (te, gs) \<leftarrow> table_fixups tbl sz (off + unat block_size) img;
          Some (te, fs @ gs) } }
      else Some (off, []))"
  by auto
termination
  by (relation "measure (\<lambda>(tbl, sz, off, img). sz - off)") (auto simp: word_less_nat_alt)

declare table_fixups.simps [simp del]

definition fixup :: "u64 \<Rightarrow> bool \<times> nat \<Rightarrow> u8 list \<Rightarrow> u8 list option" where
  "fixup d f img =
     (if fst f then do { v \<leftarrow> read64 img (snd f); put_all img (snd f) (le64 (v + d)) }
      else do { v \<leftarrow> read32 img (snd f); put_all img (snd f) (le32 (v + ucast d)) })"

fun fixups :: "u64 \<Rightarrow> (bool \<times> nat) list \<Rightarrow> u8 list \<Rightarrow> u8 list option" where
  "fixups d [] img = Some img"
| "fixups d (f # fs) img = do { img' \<leftarrow> fixup d f img; fixups d fs img' }"

definition apart :: "bool \<times> nat \<Rightarrow> bool \<times> nat \<Rightarrow> bool" where
  "apart f g \<longleftrightarrow> snd f + width (fst f) \<le> snd g \<or> snd g + width (fst g) \<le> snd f"

lemma reloc_entry_fixup:
  "reloc_entry img block i d = do { f \<leftarrow> entry_fixup img block i; case f of None \<Rightarrow> Some img | Some x \<Rightarrow> fixup d x img }"
  by (auto simp: reloc_entry_def entry_fixup_def fixup_def Let_def split: Option.bind_split)

lemma word64_halves: "ucast (ucast w :: u32) OR push_bit 32 (ucast (ucast (drop_bit 32 w) :: u32)) = (w :: u64)"
proof (rule bit_word_eqI)
  fix n assume "n < LENGTH(64)"
  then show "bit (ucast (ucast w :: u32) OR push_bit 32 (ucast (ucast (drop_bit 32 w) :: u32)) :: u64) n = bit w n"
    by (cases "n < 32") (auto simp: bit_simps)
qed

lemma read64_put:
  assumes "i + 8 \<le> length buf"
  shows "read64 (put_slice i (le64 w) buf) i = Some w"
proof -
  have "read32 (put_slice i (le64 w) buf) i = Some (ucast w)"
    using assms by (subst read32_drop) (simp add: put_slice_def le64_def)
  moreover have "drop (i + 4) (put_slice i (le64 w) buf) = le32 (ucast (drop_bit 32 w)) @ drop (i + 8) buf"
    using assms by (simp add: put_slice_def le64_def)
  then have "read32 (put_slice i (le64 w) buf) (i + 4) = Some (ucast (drop_bit 32 w))"
    by (subst read32_drop) simp
  ultimately show ?thesis by (simp add: read64_def word64_halves)
qed

lemma read_sub:
  assumes "slice lo n xs = slice lo n ys" "length xs = length ys" "lo + n \<le> length ys" "lo \<le> i"
  shows "i + 2 \<le> lo + n \<Longrightarrow> read16 xs i = read16 ys i" "i + 4 \<le> lo + n \<Longrightarrow> read32 xs i = read32 ys i"
    "i + 8 \<le> lo + n \<Longrightarrow> read64 xs i = read64 ys i"
proof -
  have *: "xs ! (i + k) = ys ! (i + k)" if "i + k < lo + n" for k
    using arg_cong [OF assms(1), of "\<lambda>l. l ! (i + k - lo)"] assms(2-4) that by (simp add: slice_def)
  show "read16 xs i = read16 ys i" if "i + 2 \<le> lo + n" using *[of 0] *[of 1] that assms(2,3) by (simp add: read16_def nth_opt_def)
  show four: "read32 xs i = read32 ys i" if "i + 4 \<le> lo + n"
    using *[of 0] *[of 1] *[of 2] *[of 3] that assms(2,3) by (simp add: read32_def read16_def nth_opt_def numeral_eq_Suc)
  show "read64 xs i = read64 ys i" if "i + 8 \<le> lo + n"
    using four *[of 4] *[of 5] *[of 6] *[of 7] that assms(2,3)
    by (simp add: read64_def) (simp add: read32_def read16_def nth_opt_def numeral_eq_Suc)
qed

text \<open>One place: its value is moved by the distance, and no other byte changes.\<close>

definition moved :: "u64 \<Rightarrow> bool \<times> nat \<Rightarrow> u8 list \<Rightarrow> u8 list \<Rightarrow> bool" where
  "moved d f img img' \<longleftrightarrow>
     (if fst f then read64 img' (snd f) = map_option (\<lambda>v. v + d) (read64 img (snd f))
      else read32 img' (snd f) = map_option (\<lambda>v. v + ucast d) (read32 img (snd f)))"

lemma fixup_moves:
  assumes "snd f + width (fst f) \<le> length img"
  shows "\<exists>img'. fixup d f img = Some img' \<and> length img' = length img \<and> moved d f img img'
    \<and> (\<forall>lo n. lo + n \<le> length img \<and> (snd f + width (fst f) \<le> lo \<or> lo + n \<le> snd f) \<longrightarrow> slice lo n img' = slice lo n img)"
proof (cases "fst f")
  case True
  then have l: "snd f + 8 \<le> length img" using assms by (simp add: width_def)
  then obtain v w where "read32 img (snd f) = Some v" "read32 img (snd f + 4) = Some w"
    using read_Some(2) [of "snd f" img] read_Some(2) [of "snd f + 4" img] by auto
  then obtain x where x: "read64 img (snd f) = Some x" by (simp add: read64_def)
  then have "fixup d f img = Some (put_slice (snd f) (le64 (x + d)) img)" using True l by (simp add: fixup_def put_all_spec)
  then show ?thesis using True l x by (simp add: moved_def read64_put width_def) (metis length_le64 slice_put_slice_other)
next
  case False
  then have l: "snd f + 4 \<le> length img" using assms by (simp add: width_def)
  then obtain x where x: "read32 img (snd f) = Some x" using read_Some(2) by blast
  then have "fixup d f img = Some (put_slice (snd f) (le32 (x + ucast d)) img)" using False l by (simp add: fixup_def put_all_spec)
  then show ?thesis using False l x by (simp add: moved_def read32_put width_def) (metis length_le(2) slice_put_slice_other)
qed

lemma moved_frame:
  assumes "moved d f img img'" "snd f + width (fst f) \<le> length img" "length img' = length img" "length img0 = length img" "length img'' = length img"
    and "slice (snd f) (width (fst f)) img0 = slice (snd f) (width (fst f)) img" "slice (snd f) (width (fst f)) img'' = slice (snd f) (width (fst f)) img'"
  shows "moved d f img0 img''"
  using assms read_sub(2,3) [of "snd f" "width (fst f)" img0 img "snd f"] read_sub(2,3) [of "snd f" "width (fst f)" img'' img' "snd f"]
  by (auto simp: moved_def width_def split: if_splits)

lemma fixups_move:
  assumes "\<forall>f\<in>set fs. snd f + width (fst f) \<le> length img" "sorted_wrt apart fs"
  shows "\<exists>img'. fixups d fs img = Some img' \<and> length img' = length img \<and> (\<forall>f\<in>set fs. moved d f img img')
    \<and> (\<forall>lo n. lo + n \<le> length img \<and> (\<forall>f\<in>set fs. snd f + width (fst f) \<le> lo \<or> lo + n \<le> snd f) \<longrightarrow> slice lo n img' = slice lo n img)"
  using assms
proof (induction fs arbitrary: img)
  case (Cons f fs)
  obtain img1 where i1: "fixup d f img = Some img1" "length img1 = length img" "moved d f img img1"
    and s1: "\<And>lo n. lo + n \<le> length img \<Longrightarrow> snd f + width (fst f) \<le> lo \<or> lo + n \<le> snd f \<Longrightarrow> slice lo n img1 = slice lo n img"
    using fixup_moves [of f img d] Cons.prems(1) by auto
  obtain img2 where i2: "fixups d fs img1 = Some img2" "length img2 = length img1" "\<forall>g\<in>set fs. moved d g img1 img2"
    and s2: "\<And>lo n. lo + n \<le> length img1 \<Longrightarrow> \<forall>g\<in>set fs. snd g + width (fst g) \<le> lo \<or> lo + n \<le> snd g \<Longrightarrow> slice lo n img2 = slice lo n img1"
    using Cons.IH [of img1] Cons.prems i1(2) by auto
  have ap: "\<forall>g\<in>set fs. apart f g" using Cons.prems(2) by simp
  have "moved d g img img2" if "g \<in> set fs" for g
    by (rule moved_frame [of d g img1 img2]) (use that i1(2) i2(2,3) Cons.prems(1) ap s1 in \<open>auto simp: apart_def\<close>)
  moreover have "slice (snd f) (width (fst f)) img2 = slice (snd f) (width (fst f)) img1"
    using i1(2) Cons.prems(1) ap by (intro s2) (auto simp: apart_def)
  then have "moved d f img img2" using i1(2) i2(2) Cons.prems(1) by (intro moved_frame [OF i1(3)]) simp_all
  ultimately show ?case using i1(1,2) i2(1,2) s1 s2 by auto
qed simp

text \<open>
  When no place that is listed lies in the table, the loop over the blocks moves exactly the places that the
  table listed at the beginning.
\<close>

lemma reloc_entries_fixups:
  assumes "block_fixups k i img0 block = Some fs" "lo \<le> block" "block + 8 + 2 * (i + k) \<le> lo + n" "lo + n \<le> length img0"
    and "\<forall>f\<in>set fs. snd f + width (fst f) \<le> length img0 \<and> (snd f + width (fst f) \<le> lo \<or> lo + n \<le> snd f)"
    and "length img = length img0" "slice lo n img = slice lo n img0"
  shows "reloc_entries k i img block d = fixups d fs img"
  using assms
proof (induction k arbitrary: i fs img)
  case (Suc k)
  obtain f gs where f: "entry_fixup img0 block i = Some f" "block_fixups k (Suc i) img0 block = Some gs" "fs = (case f of None \<Rightarrow> gs | Some x \<Rightarrow> x # gs)"
    using Suc.prems(1) by (auto split: Option.bind_split_asm)
  note rd = read_sub [OF Suc.prems(7,6,4)]
  have "read16 img (block + 8 + 2 * i) = read16 img0 (block + 8 + 2 * i)" using Suc.prems(2,3) by (intro rd(1)) simp_all
  moreover have "read32 img block = read32 img0 block" using Suc.prems(2,3) by (intro rd(2)) simp_all
  ultimately have e: "entry_fixup img block i = Some f" using f(1) by (simp add: entry_fixup_def)
  show ?case
  proof (cases f)
    case None
    then show ?thesis using e f(2,3) Suc.IH [OF f(2), of img] Suc.prems by (simp add: reloc_entry_fixup)
  next
    case (Some x)
    then have x: "snd x + width (fst x) \<le> length img" "snd x + width (fst x) \<le> lo \<or> lo + n \<le> snd x" using Suc.prems(5,6) f(3) by auto
    obtain img1 where i1: "fixup d x img = Some img1" "length img1 = length img" "slice lo n img1 = slice lo n img"
      using fixup_moves [OF x(1), of d] x(2) Suc.prems(4,6) by auto
    have "reloc_entries k (Suc i) img1 block d = fixups d gs img1"
      using Suc.IH [OF f(2), of img1] Suc.prems i1 Some f(3) by simp
    then show ?thesis using e Some f(3) i1(1) by (simp add: reloc_entry_fixup)
  qed
qed simp

lemma fixups_append: "fixups d (fs @ gs) img = do { img' \<leftarrow> fixups d fs img; fixups d gs img' }"
  by (induction fs arbitrary: img) (auto split: Option.bind_split)

lemma reloc_blocks_fixups:
  assumes "table_fixups tbl sz off img0 = Some (te, fs)" "tbl + te \<le> length img0" "sorted_wrt apart fs"
    and "\<forall>f\<in>set fs. snd f + width (fst f) \<le> length img0 \<and> (snd f + width (fst f) \<le> tbl \<or> tbl + te \<le> snd f)"
    and "length img = length img0" "slice tbl te img = slice tbl te img0"
  shows "off \<le> te \<and> reloc_blocks tbl sz off img d = fixups d fs img"
  using assms
proof (induction tbl sz off img0 arbitrary: te fs img rule: table_fixups.induct)
  case (1 tbl sz off img0)
  note rd = read_sub [OF 1(7,6) 1(3)]
  show ?case
  proof (cases "off < sz")
    case False
    then show ?thesis using 1(2) by (simp add: table_fixups.simps reloc_blocks.simps)
  next
    case True
    obtain bs where bs: "read32 img0 (tbl + off + 4) = Some bs" using 1(2) True by (auto simp: table_fixups.simps split: Option.bind_split_asm)
    show ?thesis
    proof (cases "bs < 8")
      case small: True
      then have te: "te = off + 8" "fs = []" using 1(2) True bs by (auto simp: table_fixups.simps)
      then have "read32 img (tbl + off + 4) = Some bs" using rd(2) [of "tbl + off + 4"] bs by simp
      then show ?thesis using te True small by (simp add: reloc_blocks.simps)
    next
      case False
      then obtain f1 f2 where f: "block_fixups ((unat bs - 8) div 2) 0 img0 (tbl + off) = Some f1"
        "table_fixups tbl sz (off + unat bs) img0 = Some (te, f2)" "fs = f1 @ f2"
        using 1(2) True bs by (subst (asm) table_fixups.simps) (auto split: Option.bind_split_asm)
      have b8: "8 \<le> unat bs" using False by (simp add: word_less_nat_alt)
      have in2: "\<forall>f\<in>set f2. snd f + width (fst f) \<le> length img0 \<and> (snd f + width (fst f) \<le> tbl \<or> tbl + te \<le> snd f)"
        "sorted_wrt apart f1" "sorted_wrt apart f2" using 1(4,5) f(3) by (auto simp: sorted_wrt_append)
      note IH = 1(1) [OF True bs False f(1) f(2) 1(3) in2(3) in2(1)]
      have "off + unat bs \<le> te" using IH [of img0] by simp
      moreover have "tbl + off + 8 + 2 * (0 + (unat bs - 8) div 2) \<le> tbl + off + unat bs" using b8 by simp
      ultimately have e: "reloc_entries ((unat bs - 8) div 2) 0 img (tbl + off) d = fixups d f1 img"
        using 1(3,5,6,7) f(3) by (intro reloc_entries_fixups [OF f(1), of tbl te]) auto
      obtain img1 where i1: "fixups d f1 img = Some img1" "length img1 = length img"
        "\<forall>lo n. lo + n \<le> length img \<and> (\<forall>f\<in>set f1. snd f + width (fst f) \<le> lo \<or> lo + n \<le> snd f) \<longrightarrow> slice lo n img1 = slice lo n img"
        using fixups_move [of f1 img d] in2(2) 1(5,6) f(3) by auto
      then have "slice tbl te img1 = slice tbl te img0" using 1(3,5,6,7) f(3) by auto
      then have "reloc_blocks tbl sz (off + unat bs) img1 d = fixups d f2 img1" using IH [of img1] i1(2) 1(6) by simp
      moreover have "read32 img (tbl + off + 4) = Some bs" using rd(2) [of "tbl + off + 4"] bs b8 \<open>off + unat bs \<le> te\<close> by simp
      ultimately show ?thesis using True False e i1(1) f(3) \<open>off + unat bs \<le> te\<close>
        by (subst reloc_blocks.simps) (simp add: fixups_append)
    qed
  qed
qed

section \<open>Properties\<close>

text \<open>
  C21.  Relocation of an image.  When the places that the relocation table lists are inside the image, do not
  overlap each other and are not in the table itself, the relocation ends and adds the distance to each of
  them, with 64 or with 32 bits; no other byte of the image changes.
\<close>

theorem image_relocated:
  assumes "table_fixups (unat va) (unat sz) 0 img = Some (te, fs)" "sz \<noteq> 0" "unat va + te \<le> length img" "sorted_wrt apart fs"
    and "\<forall>f\<in>set fs. snd f + width (fst f) \<le> length img \<and> (snd f + width (fst f) \<le> unat va \<or> unat va + te \<le> snd f)"
  shows "\<exists>img'. pe_image_relocation (va, sz) img d = Some img' \<and> length img' = length img
    \<and> (\<forall>a. (True, a) \<in> set fs \<longrightarrow> read64 img' a = map_option (\<lambda>v. v + d) (read64 img a))
    \<and> (\<forall>a. (False, a) \<in> set fs \<longrightarrow> read32 img' a = map_option (\<lambda>v. v + ucast d) (read32 img a))
    \<and> (\<forall>i<length img. (\<forall>(w, a)\<in>set fs. i < a \<or> a + width w \<le> i) \<longrightarrow> img' ! i = img ! i)"
proof -
  obtain img' where i: "fixups d fs img = Some img'" "length img' = length img" "\<forall>f\<in>set fs. moved d f img img'"
    and s: "\<And>lo n. lo + n \<le> length img \<Longrightarrow> \<forall>f\<in>set fs. snd f + width (fst f) \<le> lo \<or> lo + n \<le> snd f \<Longrightarrow> slice lo n img' = slice lo n img"
    using fixups_move [of fs img d] assms(4,5) by auto
  have "reloc_blocks (unat va) (unat sz) 0 img d = Some img'" using reloc_blocks_fixups [OF assms(1,3,4,5), of img d] i(1) by simp
  then have "pe_image_relocation (va, sz) img d = Some img'" using assms(2) by (simp add: pe_image_relocation_def)
  moreover have "img' ! k = img ! k" if "k < length img" "\<forall>(w, a)\<in>set fs. k < a \<or> a + width w \<le> k" for k
    using arg_cong [OF s [of k 1], of hd] that i(2) by (fastforce simp: slice_def hd_drop_conv_nth)
  ultimately show ?thesis using i(2,3) by (auto simp: moved_def split: if_splits)
qed

text \<open>An image with one pointer of 64 bits at 0, one of 32 bits at 8, and the table at 16.\<close>

definition example_image :: "u8 list" where
  "example_image = le64 0x140001000 @ le32 0x1000 @ [1, 2, 3, 4] @ le32 0 @ le32 12 @ le16 0xA000 @ le16 0x3008"

theorem image_relocated_witness:
  "\<exists>img'. pe_image_relocation (16, 12) example_image 0x2000 = Some img' \<and> read64 img' 0 = Some 0x140003000
    \<and> read32 img' 8 = Some 0x3000 \<and> img' ! 13 = 2"
proof -
  have t: "table_fixups 16 12 0 example_image = Some (12, [(True, 0), (False, 8)])" by code_simp
  have v: "read64 example_image 0 = Some 0x140001000" "read32 example_image 8 = Some 0x1000" "example_image ! 13 = 2" "length example_image = 28"
    by code_simp+
  show ?thesis
    using image_relocated [of 16 12 example_image 12 "[(True, 0), (False, 8)]" "0x2000"] t v by (auto simp: width_def apart_def)
qed

text \<open>The names of an export table.\<close>

definition export_name :: "u8 list \<Rightarrow> u32 \<Rightarrow> nat \<Rightarrow> u8 list \<Rightarrow> bool" where
  "export_name img names i s \<longleftrightarrow> (\<exists>rva. read32 img (unat names + 4 * i) = Some rva \<and> terminated (drop (unat rva) img) \<and> cstring (drop (unat rva) img) = s)"

lemma export_index_spec:
  assumes "read32 img (tab + 32) = Some names" "terminated nm" "\<forall>j<i + k. \<exists>s. export_name img names j s"
  shows "\<exists>r. export_index k i img tab nm = Some r \<and>
    (case r of None \<Rightarrow> \<forall>j. i \<le> j \<and> j < i + k \<longrightarrow> \<not> export_name img names j (cstring nm)
     | Some m \<Rightarrow> i \<le> m \<and> m < i + k \<and> export_name img names m (cstring nm) \<and> (\<forall>j. i \<le> j \<and> j < m \<longrightarrow> \<not> export_name img names j (cstring nm)))"
  using assms(3)
proof (induction k arbitrary: i)
  case (Suc k)
  obtain rva where r: "read32 img (unat names + 4 * i) = Some rva" "terminated (drop (unat rva) img)"
    using Suc.prems [rule_format, of i] by (auto simp: export_name_def)
  note c = strcmp_spec [OF r(2) assms(2)]
  have n: "export_name img names i s \<longleftrightarrow> cstring (drop (unat rva) img) = s" for s using r by (simp add: export_name_def)
  obtain r' where r': "export_index k (Suc i) img tab nm = Some r'"
    "case r' of None \<Rightarrow> \<forall>j. Suc i \<le> j \<and> j < Suc i + k \<longrightarrow> \<not> export_name img names j (cstring nm)
     | Some m \<Rightarrow> Suc i \<le> m \<and> m < Suc i + k \<and> export_name img names m (cstring nm) \<and> (\<forall>j. Suc i \<le> j \<and> j < m \<longrightarrow> \<not> export_name img names j (cstring nm))"
    using Suc.IH [of "Suc i"] Suc.prems by auto
  show ?case
  proof (cases "cstring (drop (unat rva) img) = cstring nm")
    case True
    then have "export_index (Suc k) i img tab nm = Some (Some i)" using assms(1) r(1) c by simp
    moreover have "export_name img names i (cstring nm)" using True n by simp
    moreover have "\<forall>j. i \<le> j \<and> j < i \<longrightarrow> \<not> export_name img names j (cstring nm)" by (meson leD)
    ultimately show ?thesis by (intro exI [of _ "Some i"]) (simp del: export_index.simps)
  next
    case False
    then have "export_index (Suc k) i img tab nm = Some r'" using assms(1) r(1) c r'(1) by simp
    moreover have "\<not> export_name img names i (cstring nm)" using False n by simp
    ultimately show ?thesis using r'(2) by (auto split: option.splits simp: Suc_le_eq) (metis le_neq_implies_less)+
  qed
next
  case 0
  have "\<forall>j. i \<le> j \<and> j < i + 0 \<longrightarrow> \<not> export_name img names j (cstring nm)" by (simp only: add_0_right) (meson leD)
  then show ?case by (intro exI [of _ None]) (simp only: export_index.simps option.case simp_thms)
qed

text \<open>
  C37.  The search for an exported function.  In a table with readable names it returns the place of the function
  with the ordinal of the first entry with this name, and nothing exactly when no entry has the name.
\<close>

theorem export_found:
  assumes "read32 img (unat tab + 24) = Some n" "read32 img (unat tab + 32) = Some names"
    and "read32 img (unat tab + 28) = Some functions" "read32 img (unat tab + 36) = Some ordinals"
    and "terminated nm" "\<forall>j<unat n. \<exists>s. export_name img names j s" "unat ordinals + 2 * unat n \<le> length img"
  shows "case pe_find_export_addr_pointer_by_name nm tab img of
      None \<Rightarrow> False
    | Some None \<Rightarrow> \<forall>j<unat n. \<not> export_name img names j (cstring nm)
    | Some (Some a) \<Rightarrow> \<exists>i<unat n. export_name img names i (cstring nm) \<and> (\<forall>j<i. \<not> export_name img names j (cstring nm))
        \<and> (\<exists>ord. read16 img (unat ordinals + 2 * i) = Some ord \<and> a = unat functions + 4 * unat ord)"
proof -
  obtain r where r: "export_index (unat n) 0 img (unat tab) nm = Some r"
    "case r of None \<Rightarrow> \<forall>j. 0 \<le> j \<and> j < 0 + unat n \<longrightarrow> \<not> export_name img names j (cstring nm)
     | Some m \<Rightarrow> 0 \<le> m \<and> m < 0 + unat n \<and> export_name img names m (cstring nm) \<and> (\<forall>j. 0 \<le> j \<and> j < m \<longrightarrow> \<not> export_name img names j (cstring nm))"
    using export_index_spec [OF assms(2,5), of 0 "unat n"] assms(6) by auto
  show ?thesis
  proof (cases r)
    case None
    then show ?thesis using r assms(1) by (simp add: pe_find_export_addr_pointer_by_name_def)
  next
    case (Some i)
    then obtain ord where "read16 img (unat ordinals + 2 * i) = Some ord"
      using read_Some(1) [of "unat ordinals + 2 * i" img] assms(7) r(2) by auto
    then show ?thesis using r Some assms(1,3,4) by (auto simp: pe_find_export_addr_pointer_by_name_def)
  qed
qed

text \<open>A table of the names \<^verbatim>\<open>a\<close> and \<^verbatim>\<open>b\<close> with the ordinals 1 and 0.\<close>

definition example_exports :: "u8 list" where
  "example_exports = replicate 24 0 @ le32 2 @ le32 40 @ le32 48 @ le32 56 @ le32 0x111 @ le32 0x222 @ le32 60 @ le32 62
     @ le16 1 @ le16 0 @ [97, 0, 98, 0]"

theorem export_found_witness:
  "\<exists>a i. pe_find_export_addr_pointer_by_name [98, 0] 0 example_exports = Some (Some a) \<and> i < 2 \<and> export_name example_exports 48 i [98]"
proof -
  have r: "read32 example_exports 24 = Some 2" "read32 example_exports 32 = Some 48" "read32 example_exports 28 = Some 40"
    "read32 example_exports 36 = Some 56" "length example_exports = 64" "read32 example_exports 48 = Some 60" "read32 example_exports 52 = Some 62"
    "drop 60 example_exports = [97, 0, 98, 0]" "drop 62 example_exports = [98, 0]"
    by code_simp+
  have c: "cstring [98, 0 :: u8] = [98]" "cstring [97, 0, 98, 0 :: u8] = [97]" "terminated [98, 0 :: u8]" "terminated [97, 0, 98, 0 :: u8]"
    by (simp_all add: cstring_def terminated_def)
  have n: "export_name example_exports 48 0 s \<longleftrightarrow> s = [97]" "export_name example_exports 48 1 s \<longleftrightarrow> s = [98]" for s
    using r c by (auto simp: export_name_def)
  have "\<forall>j<2. \<exists>s. export_name example_exports 48 j s" using n by (simp add: less_2_cases_iff all_conj_distrib imp_disjL) metis
  then show ?thesis
    using export_found [of example_exports 0 2 48 40 56 "[98, 0]"] r c n(2) [of "[98]"] by (auto split: option.splits)
qed

end
