(* ===== verification/Spec2Isabelle.thy ===== *)
theory Spec2Isabelle
  imports Kprelude Memlib Cstring Timekeeping Frames Paging Objects Threads Processes Paths Users Inet Tcp Fat_table Fat_files Fat_correct Unicode Elf Loader
begin

text \<open>
  \<^bold>\<open>Verification of the carrotos kernel.\<close>

  The kernel is one C program made of header files under \<^verbatim>\<open>src/core\<close> and \<^verbatim>\<open>src/libs\<close>,
  started by \<^verbatim>\<open>src/boot.asm\<close> and \<^verbatim>\<open>src/kernel.c\<close>.  Interrupt handlers in \<^verbatim>\<open>src/asm\<close>
  enter the scheduler, which keeps tables of pointers to threads and processes;
  their memory comes from a map of 4096 byte blocks and is mapped by four level page
  tables.  System calls reach files through mount points and drivers, and the network
  through sockets and the handlers of received frames.

  \<^bold>\<open>How the code is translated.\<close>  A C function becomes a function of the state that it
  uses, in the order of its source.  The result \<^const>\<open>None\<close> says that the call does not
  return: a null pointer is followed, memory outside an object is touched, the kernel
  panics, or a loop never ends.  Error codes are ordinary results.  Integers are words of the
  width of their C type, so that sums wrap as in C; counters that only run over a table
  are natural numbers.  An array is a list with checked access, a table of pointers is a
  list of addresses and a heap of structures, so that two entries can be the same
  pointer.  Hardware (the clock registers, the time stamp counter, processor state),
  boot loader data, drivers of partitions and uninitialised memory are arguments.  A handler
  runs as one step: interrupts between its instructions, and other cores running at
  the same moment, are not modelled.

  \<^bold>\<open>Theories.\<close>
  \<^item> \<^verbatim>\<open>Kprelude\<close>: word types, error codes, checked arrays, linear search.
  \<^item> \<^verbatim>\<open>Memlib\<close> (\<^verbatim>\<open>libs/mem/mem.h\<close>): copies, fills, comparison, byte order, ring buffers.  The
    rings satisfy the contract of a bounded queue, stated as a locale.
  \<^item> \<^verbatim>\<open>Cstring\<close> (\<^verbatim>\<open>libs/string/string.h\<close>): strings in buffers, numbers in text.
  \<^item> \<^verbatim>\<open>Timekeeping\<close> (\<^verbatim>\<open>core/time.h\<close> and clock calls of \<^verbatim>\<open>core/syscall/syscall3.h\<close>): calendar,
    clock registers, time arithmetic, random numbers.
  \<^item> \<^verbatim>\<open>Frames\<close> and \<^verbatim>\<open>Paging\<close> (\<^verbatim>\<open>core/scheduler.h\<close>, \<^verbatim>\<open>libs/grub/grub.h\<close>): the block map, free slots of
    tables, page tables.
  \<^item> \<^verbatim>\<open>Objects\<close>: tables of pointers with their laws, a locale interpreted on them.
  \<^item> \<^verbatim>\<open>Threads\<close> (\<^verbatim>\<open>core/scheduler.h\<close>, \<^verbatim>\<open>core/interrupt.h\<close>, \<^verbatim>\<open>asm/scheduler.asm\<close>): the timer
    handlers, saving and restoring of registers, and an abstract scheduler they simulate.
  \<^item> \<^verbatim>\<open>Processes\<close> (the same files and \<^verbatim>\<open>core/ipc\<close>): sleeping, creation and end of threads and
    processes, signals, futexes, shared memory.
  \<^item> \<^verbatim>\<open>Paths\<close> (\<^verbatim>\<open>core/filesytem/vfs.h\<close>, \<^verbatim>\<open>filesystem.h\<close>, \<^verbatim>\<open>special_file.h\<close>): components of paths,
    mount points, dispatch of file operations.
  \<^item> \<^verbatim>\<open>Users\<close> (\<^verbatim>\<open>core/user/user.h\<close>): identities, the user file, permissions.
  \<^item> \<^verbatim>\<open>Inet\<close> (\<^verbatim>\<open>core/network/network.h\<close>, \<^verbatim>\<open>af_inet/af_inet.h\<close>): addresses, checksum, routes, ports,
    the cache of hardware addresses, ARP and echo handlers.
  \<^item> \<^verbatim>\<open>Tcp\<close> (\<^verbatim>\<open>af_inet/tcp.h\<close>, sending in \<^verbatim>\<open>e1000.h\<close>, searches in \<^verbatim>\<open>af_inet/udp.h\<close>): segments, sockets and
    the handler of received segments, with the abstract state machine it implements.

  \<^item> \<^verbatim>\<open>Fat_table\<close>, \<^verbatim>\<open>Fat_files\<close> and \<^verbatim>\<open>Fat_correct\<close> (\<^verbatim>\<open>core/filesytem/fat32.h\<close>, \<^verbatim>\<open>filesystem.h\<close>, sectors in
    \<^verbatim>\<open>core/driver/ide.h\<close>): sectors of a disk, the boot sector, the allocation table and clusters; directory
    entries, names and the file operations; what reading, writing and creating do.  The
    table and the clusters are an abstract volume, a locale interpreted on the driver.
  \<^item> \<^verbatim>\<open>Elf\<close> (\<^verbatim>\<open>core/elf/loader.h\<close>): segments, shared objects and the initial stack of a program.
  \<^item> \<^verbatim>\<open>Unicode\<close> and \<^verbatim>\<open>Loader\<close> (\<^verbatim>\<open>core/exe/common.h\<close>, \<^verbatim>\<open>core/exe/loader.h\<close>): conversion of texts, counted strings and the lists of
    libraries of foreign programs; their sections, relocations and exports.  The two conversions are
    instances of one locale.

  \<^bold>\<open>What is shown.\<close>
  \<^item> Scheduling: no thread is on two cores after any sequence of ticks, sleeps, futex calls
    and thread creations; ticks take ready threads in turn and reach every one
    of them; a preempted thread continues with the registers that it had.
  \<^item> Memory: allocated blocks are different from each other and were free; mapping a page
    changes no other translation; searches find the first free run or slot.
  \<^item> Interprocess communication: a futex wakes an earliest waiter, calls that fail
    change nothing, the end of a process moves its children and wakes its parent.
  \<^item> Data structures: ring buffers deliver what was accepted, in order; copies,
    strings, numbers and byte order are correct or inverse to each other.
  \<^item> Time: a time that is set is read back; dates count days without gaps.
  \<^item> Files and users: the nearest mount point is found; components of paths and fields of
    the user file are read; identities that are set are read back.
  \<^item> Network: checksums verify, echo replies are correct, the route with the greatest
    mask is taken, learnt addresses are found, addresses in text are read.
  \<^item> TCP: the checksum of a segment verifies; received segments move connections along the
    edges of the protocol's state machine only.
  \<^item> FAT32: the driver implements a map of table entries and clusters; files are read and
    written exactly where they were meant to be; freeing a chain ends also when the chain is
    cyclic; creation adds one entry; names are formatted alike where they fit; every
    sector keeps its size.
  \<^item> Programs: segments are mapped and hold the bytes of the file; the initial stack is laid out in order,
    except that the random bytes overwrite the environment; relocation moves exactly the listed places; exported
    functions are found; texts survive conversion; the lists of libraries stay closed.

  Several properties also state where the code departs from what it means to do; the
  remaining departures are lemmas beside the definitions, such as
  \<^verbatim>\<open>init_user_loads_nothing\<close>, \<^verbatim>\<open>access_never_refused\<close> and \<^verbatim>\<open>netmask_low_bits\<close>.

  \<^bold>\<open>Bounds.\<close>  No result depends on fuel.  Loops over tables are given the number of entries
  that remain, which is the bound of the loop in C.  Loops without such a bound are
  recursive functions with a termination proof, such as the folding of the
  checksum and the lines of the user file.  Loops that follow the links of an allocation
  table can run forever on a damaged disk; they are partial functions with the result
  \<^const>\<open>None\<close> in that case, and \<^verbatim>\<open>chain_freed\<close>, \<^verbatim>\<open>file_read\<close> and \<^verbatim>\<open>file_written\<close> show that they
  return.  So is the loop over the pages of a segment, which \<^verbatim>\<open>segment_loaded\<close> shows to return.

  \<^bold>\<open>Not modelled.\<close>  Start-up code, device drivers and the graphical interface are input and
  output.  System call dispatch, the libraries that run inside foreign programs,
  UDP, local sockets and the keyboard are not part of the model, nor are the calls of TCP
  that put the running thread to sleep in the middle.  Of the FAT32 driver the listing of a
  directory is left out, and of the loaders the creation of the process around them.  The listing
  writes each name behind a local structure that has no
  room for it.
\<close>

end
